(* ===== verification/RedisPrelude.thy ===== *)
theory RedisPrelude
  imports Main "HOL-Library.Word"
begin

text \<open>
  Shared vocabulary of the development: the widths of the C integer types, byte strings, the
  collections of rewrite rules the components share, and generic facts on lists and on decimal
  digits that several components use.
\<close>

unbundle bit_operations_syntax

section \<open>Machine types\<close>

type_synonym u8 = "8 word"
type_synonym u16 = "16 word"
type_synonym u32 = "32 word"
type_synonym u64 = "64 word"
type_synonym i64 = "64 word"
type_synonym bytes = "8 word list"

text \<open>Rules that read a C buffer, and rules that compute byte values.\<close>

named_theorems buffer_simps
named_theorems byte_simps

text \<open>The constants of \<open>limits.h\<close>.\<close>

abbreviation ULLONG_MAX :: nat where "ULLONG_MAX \<equiv> 18446744073709551615"
abbreviation LLONG_MAX :: nat where "LLONG_MAX \<equiv> 9223372036854775807"

text \<open>A string literal of the C source as bytes.\<close>

definition ascii :: "string \<Rightarrow> bytes" where
  "ascii s = map of_char s"

text \<open>
  Reading a byte of a NUL-terminated C string (an \<open>sds\<close> always carries its terminator): at the
  end of the text the byte is NUL.
\<close>

definition c_hd :: "bytes \<Rightarrow> u8" where
  "c_hd s = (case s of [] \<Rightarrow> 0 | x # _ \<Rightarrow> x)"

lemma c_hd_simps [simp]: "c_hd [] = 0" "c_hd (x # xs) = x"
  by (simp_all add: c_hd_def)

text \<open>\<open>tolower\<close> of the C locale, on the \<open>int\<close> the character was promoted to.\<close>

definition c_tolower :: "int \<Rightarrow> int" where
  "c_tolower c = (if 65 \<le> c \<and> c \<le> 90 then c + 32 else c)"

lemma sint_u8_small: "unat (c :: u8) < 128 \<Longrightarrow> sint c = int (unat c)"
proof -
  assume "unat c < 128"
  then have "int (unat c) < 128" by linarith
  moreover have "- 128 \<le> uint c" by (rule order_trans [OF _ uint_ge_0]) simp
  ultimately show ?thesis by (simp add: sint_uint signed_take_bit_int_eq_self)
qed

section \<open>Lists\<close>

lemma take_append_upd:
  "i < length xs \<Longrightarrow> take i (xs[i := x]) @ x # drop (Suc i) xs = xs[i := x]"
  by (simp add: upd_conv_take_nth_drop)

lemma drop_list_update_ge [simp]: "i < n \<Longrightarrow> drop n (xs[i := x]) = drop n xs"
  by (rule nth_equalityI) auto

lemma take_list_update_ge [simp]: "n \<le> i \<Longrightarrow> take n (xs[i := x]) = take n xs"
  by (rule nth_equalityI) auto

lemma take_Suc_upd:
  "i < length xs \<Longrightarrow> take (Suc i) (xs[i := x]) = take i xs @ [x]"
  by (simp add: take_Suc_conv_app_nth)

section \<open>Decimal digits\<close>

text \<open>The decimal numeral of a natural number, most significant digit first, as ASCII bytes.\<close>

fun dec :: "nat \<Rightarrow> bytes" where
  "dec n = (if n < 10 then [of_nat (48 + n)] else dec (n div 10) @ [of_nat (48 + n mod 10)])"

declare dec.simps [simp del]

text \<open>The canonical text of a signed integer.\<close>

definition dec_int :: "int \<Rightarrow> bytes" where
  "dec_int i = (if i < 0 then 45 # dec (nat (- i)) else dec (nat i))"

lemma dec_small: "n < 10 \<Longrightarrow> dec n = [of_nat (48 + n)]"
  by (subst dec.simps) simp

lemma dec_step: "10 \<le> n \<Longrightarrow> dec n = dec (n div 10) @ [of_nat (48 + n mod 10)]"
  by (subst dec.simps) simp

lemma dec_Nil [simp]: "dec n \<noteq> []"
  by (subst dec.simps) simp

lemma dec_length_pos [simp]: "0 < length (dec n)"
  by simp

lemma unat_of_nat_u8: "n < 256 \<Longrightarrow> unat (of_nat n :: u8) = n"
  by (simp add: unat_of_nat take_bit_eq_mod)

lemma unat_digit: "d < 10 \<Longrightarrow> unat (of_nat (48 + d) :: u8) = 48 + d"
  by (rule unat_of_nat_u8) simp

definition is_digit :: "u8 \<Rightarrow> bool" where
  "is_digit c \<longleftrightarrow> 48 \<le> unat c \<and> unat c \<le> 57"

lemma is_digit_sint: "is_digit c \<Longrightarrow> 48 \<le> sint c \<and> sint c \<le> 57"
  using sint_u8_small [of c] by (auto simp: is_digit_def simp del: of_nat_unat)

lemma dec_digits: "c \<in> set (dec n) \<Longrightarrow> is_digit c"
proof (induction n rule: dec.induct)
  case (1 n)
  show ?case
  proof (cases "n < 10")
    case True
    with "1.prems" have "c = of_nat (48 + n)" by (simp add: dec_small)
    with True show ?thesis using unat_digit [of n] by (simp add: is_digit_def)
  next
    case False
    moreover have "is_digit (of_nat (48 + n mod 10))"
      using unat_digit [of "n mod 10"] by (simp add: is_digit_def)
    ultimately show ?thesis using 1 by (auto simp: dec_step)
  qed
qed

text \<open>The value of a string of digits, as a left fold.\<close>

definition dec_val :: "bytes \<Rightarrow> nat" where
  "dec_val s = foldl (\<lambda>v c. v * 10 + (unat c - 48)) 0 s"

lemma dec_val_snoc [simp]: "dec_val (s @ [c]) = dec_val s * 10 + (unat c - 48)"
  by (simp add: dec_val_def)

lemma dec_val_Nil [simp]: "dec_val [] = 0"
  by (simp add: dec_val_def)

lemma dec_val_dec [simp]: "dec_val (dec n) = n"
proof (induction n rule: dec.induct)
  case (1 n)
  show ?case
  proof (cases "n < 10")
    case True
    then show ?thesis using unat_digit [of n] by (simp add: dec_small dec_val_def)
  next
    case False
    then show ?thesis using 1 unat_digit [of "n mod 10"] by (simp add: dec_step)
  qed
qed

lemma dec_inject [simp]: "dec m = dec n \<longleftrightarrow> m = n"
  by (metis dec_val_dec)

text \<open>A digit string with no leading zero is the numeral of its value.\<close>

lemma dec_val_pos: "\<lbrakk>\<forall>c\<in>set s. is_digit c; s \<noteq> []; hd s \<noteq> 48\<rbrakk> \<Longrightarrow> 0 < dec_val s"
proof (induction s rule: rev_induct)
  case (snoc c s)
  show ?case
  proof (cases "s = []")
    case True
    with snoc.prems have "is_digit c" "c \<noteq> 48" by auto
    moreover from \<open>c \<noteq> 48\<close> have "unat c \<noteq> unat (48 :: u8)"
      by (simp only: word_unat_eq_iff [symmetric]) simp
    ultimately have "48 < unat c" by (simp add: is_digit_def)
    with True show ?thesis by (simp add: dec_val_def)
  next
    case False
    with snoc show ?thesis by simp
  qed
qed simp

end
