(* ===== verification/Glob.thy ===== *)
theory Glob
  imports RedisPrelude
begin

text \<open>
  Glob matching: \<open>stringmatchlen\<close> of \<open>src/util.c\<close>, which serves \<open>KEYS\<close>, \<open>SCAN ... MATCH\<close>,
  \<open>PSUBSCRIBE\<close> and \<open>CONFIG GET\<close>. The definitions follow the loops of the C function; the
  specification is the set of strings a parsed pattern denotes. A pattern is the list of its
  bytes; the code reads one byte past its end, which is the terminator every \<open>sds\<close> carries.
\<close>

section \<open>The matcher\<close>

text \<open>
  The \<open>while(1)\<close> loop over the body of a bracket expression: \<open>c\<close> is \<open>string[0]\<close>, the
  accumulator is \<open>match\<close>. The result holds the pattern after the closing bracket (the
  \<open>pattern++\<close> that follows the \<open>switch\<close> is included); at the end of the pattern the code steps
  back one byte and forward again, which leaves the empty pattern.
\<close>

definition class_range :: "bool \<Rightarrow> u8 \<Rightarrow> u8 \<Rightarrow> u8 \<Rightarrow> bool" where
  "class_range nocase a b x =
     (let start = sint a; end' = sint b; c = sint x;
          (start, end') = (if start > end' then (end', start) else (start, end'));
          (start, end', c) =
            (if nocase then (c_tolower start, c_tolower end', c_tolower c) else (start, end', c))
      in start \<le> c \<and> c \<le> end')"

definition char_eq :: "bool \<Rightarrow> u8 \<Rightarrow> u8 \<Rightarrow> bool" where
  "char_eq nocase a b =
     (if \<not> nocase then a = b else c_tolower (sint a) = c_tolower (sint b))"

function class_scan :: "bool \<Rightarrow> u8 \<Rightarrow> bool \<Rightarrow> bytes \<Rightarrow> bool \<times> bytes" where
  "class_scan nocase c m [] = (m, [])"
| "class_scan nocase c m (x # p) =
     (if x = 92 \<and> p \<noteq> [] then class_scan nocase c (m \<or> hd p = c) (tl p)
      else if x = 93 then (m, p)
      else if 2 \<le> length p \<and> hd p = 45 then
        class_scan nocase c (m \<or> class_range nocase x (p ! 1) c) (drop 2 p)
      else class_scan nocase c (m \<or> char_eq nocase x c) p)"
  by pat_completeness auto
termination
  by (relation "measure (\<lambda>(nocase, c, m, p). length p)") (auto simp: less_Suc_eq_le)

text \<open>\<open>while (patternLen && pattern[1] == '*')\<close>: skip all but the last of a run of stars.\<close>

fun skip_stars :: "bytes \<Rightarrow> bytes" where
  "skip_stars (x # y # p) = (if y = 42 then skip_stars (y # p) else x # y # p)"
| "skip_stars p = p"

lemma length_skip_stars: "length (skip_stars p) \<le> length p"
  by (induction p rule: skip_stars.induct) auto

lemma skip_stars_not_Nil [simp]: "skip_stars (x # p) \<noteq> []"
  by (induction p arbitrary: x) auto

lemma length_class_scan: "length (snd (class_scan nocase c m p)) \<le> length p"
proof (induction nocase c m p rule: class_scan.induct)
  case (2 nocase c m x p)
  consider "x = 92 \<and> p \<noteq> []" | "\<not> (x = 92 \<and> p \<noteq> [])" "x = 93"
    | "\<not> (x = 92 \<and> p \<noteq> [])" "x \<noteq> 93" "2 \<le> length p \<and> hd p = 45"
    | "\<not> (x = 92 \<and> p \<noteq> [])" "x \<noteq> 93" "\<not> (2 \<le> length p \<and> hd p = 45)"
    by blast
  then show ?case
  proof cases
    case 1
    then show ?thesis using "2.IH"(1) by simp
  next
    case 3
    then show ?thesis using "2.IH"(2) by simp
  next
    case 4
    then show ?thesis using "2.IH"(3) by auto
  qed simp
qed simp

text \<open>
  \<open>stringmatchlen\<close> is the body of the outer loop entered with both strings not exhausted;
  \<open>match_star\<close> is the inner loop of the \<open>'*'\<close> case; \<open>match_next\<close> is what follows the
  \<open>switch\<close>: when the string is exhausted, trailing stars are dropped and the loop is left.
\<close>

function (sequential)
  stringmatchlen :: "bool \<Rightarrow> bytes \<Rightarrow> bytes \<Rightarrow> bool" and
  match_star :: "bool \<Rightarrow> bytes \<Rightarrow> bytes \<Rightarrow> bool" and
  match_next :: "bool \<Rightarrow> bytes \<Rightarrow> bytes \<Rightarrow> bool"
where
  "stringmatchlen nocase [] s = (s = [])"
| "stringmatchlen nocase (x # p) [] = False"
| "stringmatchlen nocase (x # p) (c # s) =
     (if x = 42 then
        let q = skip_stars (x # p)
        in if length q = 1 then True else match_star nocase (tl q) (c # s)
      else if x = 63 then match_next nocase p s
      else if x = 91 then
        let neg = (c_hd p = 94);
            (m, q) = class_scan nocase c False (if neg then tl p else p)
        in if (if neg then \<not> m else m) then match_next nocase q s else False
      else if x = 92 \<and> p \<noteq> [] then
        (if char_eq nocase (hd p) c then match_next nocase (tl p) s else False)
      else
        (if char_eq nocase x c then match_next nocase p s else False))"
| "match_star nocase p [] = False"
| "match_star nocase p (c # s) = (stringmatchlen nocase p (c # s) \<or> match_star nocase p s)"
| "match_next nocase p s =
     (if s = [] then dropWhile (\<lambda>b. b = 42) p = [] else stringmatchlen nocase p s)"
  by pat_completeness auto
termination
proof (relation "measures [\<lambda>x. case x of Inl (_, p, s) \<Rightarrow> length p + length s
      | Inr (Inl (_, p, s)) \<Rightarrow> length p + length s
      | Inr (Inr (_, p, s)) \<Rightarrow> length p + length s,
    \<lambda>x. case x of Inl _ \<Rightarrow> 0 | Inr _ \<Rightarrow> 1]", goal_cases)
  case (2 nocase x p c s q)
  have "length q \<le> Suc (length p)"
    using length_skip_stars [of "x # p"] 2 by simp
  moreover have "q \<noteq> []" using 2 by simp
  ultimately show ?case using 2 by (cases q) auto
next
  case (4 nocase x p c s neg mq m q)
  have "length (snd (class_scan nocase c False (if neg then tl p else p)))
      \<le> length (if neg then tl p else p)"
    by (rule length_class_scan)
  then have "length q \<le> length (if neg then tl p else p)"
    using 4 by (metis snd_conv)
  then have "length q \<le> length p" by (auto split: if_splits)
  then show ?case by simp
qed auto

subsection \<open>The language a pattern denotes\<close>

text \<open>
  The specification: a pattern parses to a list of tokens, each token denotes a set of strings,
  and a pattern denotes their concatenation. A star denotes every string.
\<close>

datatype citem = CEsc u8 | CRange u8 u8 | CLit u8

datatype tok = TStar | TAny | TClass bool "citem list" | TLit u8

function parse_class :: "bytes \<Rightarrow> citem list \<times> bytes" where
  "parse_class [] = ([], [])"
| "parse_class (x # p) =
     (if x = 92 \<and> p \<noteq> [] then apfst ((#) (CEsc (hd p))) (parse_class (tl p))
      else if x = 93 then ([], p)
      else if 2 \<le> length p \<and> hd p = 45
      then apfst ((#) (CRange x (p ! 1))) (parse_class (drop 2 p))
      else apfst ((#) (CLit x)) (parse_class p))"
  by pat_completeness auto
termination
  by (relation "measure length") (auto simp: less_Suc_eq_le)

text \<open>The character as it is compared, and what an item of a class stands for.\<close>

definition folded :: "bool \<Rightarrow> u8 \<Rightarrow> int" where
  "folded nocase x = (if nocase then c_tolower (sint x) else sint x)"

fun item_has :: "bool \<Rightarrow> u8 \<Rightarrow> citem \<Rightarrow> bool" where
  "item_has nocase c (CEsc x) = (x = c)"
| "item_has nocase c (CRange a b) =
     (if sint a \<le> sint b then folded nocase c \<in> {folded nocase a..folded nocase b}
      else folded nocase c \<in> {folded nocase b..folded nocase a})"
| "item_has nocase c (CLit x) = (folded nocase x = folded nocase c)"

lemma char_eq_folded [simp]: "char_eq nocase x c = (folded nocase x = folded nocase c)"
  by (simp add: char_eq_def folded_def word_eq_iff_signed)

lemma class_range_folded [simp]: "class_range nocase a b c = item_has nocase c (CRange a b)"
  by (simp add: class_range_def folded_def Let_def)

lemma class_scan_parse:
  "class_scan nocase c m p =
     (m \<or> (\<exists>it\<in>set (fst (parse_class p)). item_has nocase c it), snd (parse_class p))"
proof (induction nocase c m p rule: class_scan.induct)
  case (2 nocase c m x p)
  consider "x = 92 \<and> p \<noteq> []" | "\<not> (x = 92 \<and> p \<noteq> [])" "x = 93"
    | "\<not> (x = 92 \<and> p \<noteq> [])" "x \<noteq> 93" "2 \<le> length p \<and> hd p = 45"
    | "\<not> (x = 92 \<and> p \<noteq> [])" "x \<noteq> 93" "\<not> (2 \<le> length p \<and> hd p = 45)"
    by blast
  then show ?case
  proof cases
    case 1
    then show ?thesis using "2.IH"(1) by simp
  next
    case 3
    then show ?thesis using "2.IH"(2) by auto
  next
    case 4
    then show ?thesis using "2.IH"(3) by auto
  qed simp
qed simp

lemma length_parse_class: "length (snd (parse_class p)) \<le> length p"
  using length_class_scan [of False 0 False p] by (simp add: class_scan_parse)

function parse_pat :: "bytes \<Rightarrow> tok list" where
  "parse_pat [] = []"
| "parse_pat (x # p) =
     (if x = 42 then TStar # parse_pat p
      else if x = 63 then TAny # parse_pat p
      else if x = 91 then
        let neg = (c_hd p = 94); (its, q) = parse_class (if neg then tl p else p)
        in TClass neg its # parse_pat q
      else if x = 92 \<and> p \<noteq> [] then TLit (hd p) # parse_pat (tl p)
      else TLit x # parse_pat p)"
  by pat_completeness auto
termination
proof (relation "measure length", goal_cases)
  case (4 x p neg y its q)
  then have "length q \<le> length (if neg then tl p else p)"
    by (metis length_parse_class snd_conv)
  then show ?case by (auto split: if_splits)
qed auto

fun tok_lang :: "bool \<Rightarrow> tok \<Rightarrow> bytes set" where
  "tok_lang nocase TStar = UNIV"
| "tok_lang nocase TAny = {[c] |c. True}"
| "tok_lang nocase (TClass neg its) = {[c] |c. (\<exists>it\<in>set its. item_has nocase c it) \<noteq> neg}"
| "tok_lang nocase (TLit x) = {[c] |c. folded nocase x = folded nocase c}"

fun glob_lang :: "bool \<Rightarrow> tok list \<Rightarrow> bytes set" where
  "glob_lang nocase [] = {[]}"
| "glob_lang nocase (t # ts) = {u @ v |u v. u \<in> tok_lang nocase t \<and> v \<in> glob_lang nocase ts}"

lemma tok_lang_single:
  "t \<noteq> TStar \<Longrightarrow> u \<in> tok_lang nocase t \<Longrightarrow> \<exists>c. u = [c] \<and> [c] \<in> tok_lang nocase t"
  by (cases t) auto

lemma glob_lang_single:
  assumes "t \<noteq> TStar"
  shows "s \<in> glob_lang nocase (t # ts) \<longleftrightarrow>
     (\<exists>c s'. s = c # s' \<and> [c] \<in> tok_lang nocase t \<and> s' \<in> glob_lang nocase ts)"
  (is "?L \<longleftrightarrow> ?R")
proof
  assume ?L
  then obtain u v where "s = u @ v" "u \<in> tok_lang nocase t" "v \<in> glob_lang nocase ts" by auto
  with tok_lang_single [OF assms] show ?R by fastforce
next
  assume ?R
  then obtain c s' where "s = [c] @ s'" "[c] \<in> tok_lang nocase t" "s' \<in> glob_lang nocase ts"
    by auto
  then show ?L unfolding glob_lang.simps by blast
qed

lemma glob_lang_star:
  "s \<in> glob_lang nocase (TStar # ts) \<longleftrightarrow> (\<exists>u v. s = u @ v \<and> v \<in> glob_lang nocase ts)"
  by simp

lemma glob_lang_star_star:
  "glob_lang nocase (TStar # TStar # ts) = glob_lang nocase (TStar # ts)"
proof -
  have "\<exists>ub v'. u @ ua @ v = ub @ v' \<and> v' \<in> glob_lang nocase ts"
    if "v \<in> glob_lang nocase ts" for u ua v :: bytes
    using that by (metis append.assoc)
  then show ?thesis by auto
qed

lemma Nil_glob_lang:
  "[] \<in> glob_lang nocase (parse_pat p) \<longleftrightarrow> dropWhile (\<lambda>b. b = 42) p = []"
proof (induction p)
  case (Cons x p)
  then show ?case
    by (simp add: Let_def glob_lang_single split: prod.split)
qed simp

lemma skip_stars_lang:
  "glob_lang nocase (parse_pat (skip_stars (42 # p))) = glob_lang nocase (parse_pat (42 # p))"
proof (induction p)
  case (Cons y p)
  then show ?case
    by (auto simp del: glob_lang.simps simp add: glob_lang_star_star)
qed simp

lemma skip_stars_shape:
  "\<exists>q. skip_stars (42 # p) = 42 # q \<and> (q = [] \<or> hd q \<noteq> 42)"
  by (induction p) auto

lemma match_star_split:
  "(\<exists>u v. c # s = u @ v \<and> v \<in> L) \<longleftrightarrow> c # s \<in> L \<or> (\<exists>u v. s = u @ v \<and> v \<in> L)"
  by (auto simp: Cons_eq_append_conv)

lemma glob_main:
  shows "stringmatchlen nocase p s \<longleftrightarrow> s \<in> glob_lang nocase (parse_pat p) \<and> (s = [] \<longrightarrow> p = [])"
    and "p' \<noteq> [] \<Longrightarrow> hd p' \<noteq> 42 \<Longrightarrow>
         match_star nocase p' s' \<longleftrightarrow> (\<exists>u v. s' = u @ v \<and> v \<in> glob_lang nocase (parse_pat p'))"
    and "match_next nocase p'' s'' \<longleftrightarrow> s'' \<in> glob_lang nocase (parse_pat p'')"
proof (induction nocase p s and nocase p' s' and nocase p'' s''
    rule: stringmatchlen_match_star_match_next.induct)
  case (3 nocase x p c s)
  consider "x = 42" | "x = 63" | "x = 91" | "x = 92" "p \<noteq> []"
    | "x \<noteq> 42" "x \<noteq> 63" "x \<noteq> 91" "\<not> (x = 92 \<and> p \<noteq> [])" by blast
  then show ?case
  proof cases
    case 1
    obtain q where q: "skip_stars (42 # p) = 42 # q" "q = [] \<or> hd q \<noteq> 42"
      using skip_stars_shape by blast
    have L: "glob_lang nocase (parse_pat (x # p)) = glob_lang nocase (TStar # parse_pat q)"
      using skip_stars_lang [of nocase p] q 1 by simp
    show ?thesis
    proof (cases "q = []")
      case True
      then show ?thesis using 1 q L by (simp add: Let_def)
    next
      case False
      then have "match_star nocase q (c # s) \<longleftrightarrow>
          (\<exists>u v. c # s = u @ v \<and> v \<in> glob_lang nocase (parse_pat q))"
        using "3.IH"(1) [OF 1, of "42 # q"] q 1 by simp
      then show ?thesis using 1 q L False by (simp add: Let_def)
    qed
  next
    case 2
    then show ?thesis using "3.IH"(2) by (simp add: glob_lang_single del: glob_lang.simps)
  next
    case 3
    let ?p = "if c_hd p = 94 then tl p else p"
    obtain its q where pc: "parse_class ?p = (its, q)" by fastforce
    then have cs: "class_scan nocase c False ?p = ((\<exists>it\<in>set its. item_has nocase c it), q)"
      by (simp add: class_scan_parse)
    from 3 "3.IH"(3) [OF _ _ _ refl cs [symmetric] refl] pc cs show ?thesis
      by (auto simp add: glob_lang_single Let_def simp del: glob_lang.simps)
  next
    case 4
    then show ?thesis using "3.IH"(4)
      by (simp add: glob_lang_single del: glob_lang.simps)
  next
    case 5
    then show ?thesis using "3.IH"(5)
      by (auto simp add: glob_lang_single simp del: glob_lang.simps)
  qed
next
  case (4 nocase p)
  obtain x p' where p: "p = x # p'" "x \<noteq> 42" using 4 by (cases p) auto
  have "[] \<notin> glob_lang nocase (parse_pat p)"
    unfolding Nil_glob_lang using p by simp
  then show ?case by simp
next
  case (5 nocase p c s)
  then show ?case
    by (simp add: match_star_split)
next
  case (6 nocase p s)
  then show ?case by (simp add: Nil_glob_lang)
qed (simp_all)

section \<open>Properties\<close>

text \<open>
  C15: under both case modes, \<open>stringmatchlen\<close> accepts a string of at least one byte exactly if
  the string is in the language its pattern denotes. The empty string is different: it is accepted
  by the empty pattern and by no other one, also not by the patterns whose language contains it.
\<close>

theorem stringmatchlen_language:
  "stringmatchlen nocase p s \<longleftrightarrow>
     (if s = [] then p = [] else s \<in> glob_lang nocase (parse_pat p))"
proof -
  have "[] \<in> glob_lang nocase (parse_pat [])" by (simp add: Nil_glob_lang)
  then show ?thesis using glob_main(1) [of nocase p s] by auto
qed

text \<open>
  The difference is a defect: the pattern \<open>*\<close>, whose language is every string, does not match
  the empty string, while \<open>a*\<close> does match \<open>a\<close>.
\<close>

theorem star_misses_empty:
  "glob_lang nocase (parse_pat [42]) = UNIV \<and> \<not> stringmatchlen nocase [42] [] \<and>
   stringmatchlen False [97, 42] [97]"
  by (simp add: char_eq_def)

end
