(* ===== verification/NumText.thy ===== *)
theory NumText
  imports RedisPrelude
begin

text \<open>
  Numbers and their text, from \<open>src/util.c\<close>: \<open>digits10\<close>, \<open>sdigits10\<close>, \<open>ll2string\<close>,
  \<open>string2ll\<close>, \<open>string2ull\<close>, \<open>string2l\<close> and \<open>memtoll\<close>. A \<open>long long\<close> is a 64-bit word read
  with \<open>sint\<close>; an \<open>unsigned long long\<close> local is a natural number whose wrap-around is written
  out; a buffer is a list of bytes updated by index. The reference is the canonical numeral
  \<open>dec_int\<close> of the prelude.
\<close>

section \<open>Widths\<close>

fun digits10 :: "nat \<Rightarrow> nat" where
  "digits10 v =
     (if v < 10 then 1
      else if v < 100 then 2
      else if v < 1000 then 3
      else if v < 1000000000000 then
        if v < 100000000 then
          if v < 1000000 then
            if v < 10000 then 4 else 5 + of_bool (v \<ge> 100000)
          else 7 + of_bool (v \<ge> 10000000)
        else if v < 10000000000 then 9 + of_bool (v \<ge> 1000000000)
        else 11 + of_bool (v \<ge> 100000000000)
      else 12 + digits10 (v div 1000000000000))"

declare digits10.simps [simp del]

definition LLONG_MIN :: i64 where
  "LLONG_MIN = 0x8000000000000000"

definition sdigits10 :: "i64 \<Rightarrow> nat" where
  "sdigits10 v =
     (if sint v < 0 then
        let uv = (if v \<noteq> LLONG_MIN then unat (- v) else LLONG_MAX + 1)
        in digits10 uv + 1
      else digits10 (unat v))"

lemma length_dec_div: "10 ^ k \<le> n \<Longrightarrow> length (dec n) = k + length (dec (n div 10 ^ k))"
proof (induction k arbitrary: n)
  case (Suc k)
  have "10 \<le> n" using Suc.prems by (simp) (metis le_trans mult.right_neutral mult_le_mono2
        one_le_numeral one_le_power)
  moreover have "10 ^ k \<le> n div 10" using Suc.prems by (simp add: less_eq_div_iff_mult_less_eq)
  ultimately show ?case using Suc.IH [of "n div 10"]
    by (simp add: dec_step div_mult2_eq mult.commute)
qed simp

lemma length_dec_eq: "\<lbrakk>10 ^ k \<le> n; n < 10 ^ Suc k\<rbrakk> \<Longrightarrow> length (dec n) = Suc k"
proof -
  assume k: "10 ^ k \<le> n" "n < 10 ^ Suc k"
  then have "n div 10 ^ k < 10" by (simp add: div_less_iff_less_mult)
  with length_dec_div [OF k(1)] show ?thesis by (simp add: dec_small)
qed

lemma digits10_dec: "digits10 v = length (dec v)"
proof (induction v rule: digits10.induct)
  case (1 v)
  show ?case
  proof (cases "v < 1000000000000")
    case True
    then show ?thesis
      using length_dec_eq [of 0 v] length_dec_eq [of 1 v] length_dec_eq [of 2 v]
        length_dec_eq [of 3 v] length_dec_eq [of 4 v] length_dec_eq [of 5 v]
        length_dec_eq [of 6 v] length_dec_eq [of 7 v] length_dec_eq [of 8 v]
        length_dec_eq [of 9 v] length_dec_eq [of 10 v] length_dec_eq [of 11 v]
      by (subst digits10.simps) (simp add: dec_small)
  next
    case False
    then have "digits10 v = 12 + digits10 (v div 1000000000000)"
      by (subst digits10.simps) simp
    also have "\<dots> = length (dec v)"
      using 1 False length_dec_div [of 12 v] by simp
    finally show ?thesis .
  qed
qed

text \<open>Signed words: the magnitude the code computes, and the sign.\<close>

definition magnitude :: "i64 \<Rightarrow> nat" where
  "magnitude v =
     (if sint v < 0 then (if v \<noteq> LLONG_MIN then unat (- v) else LLONG_MAX + 1) else unat v)"

lemma sint_range64: "- (2 ^ 63) \<le> sint (v :: i64)" "sint (v :: i64) < 2 ^ 63"
  using sint_range_size [of v] by (simp_all add: word_size)

lemma len64_eq: "LENGTH(64) = 64"
  by simp

lemma unat_uminus64: "sint (v :: i64) < 0 \<Longrightarrow> int (unat (- v)) = - sint v"
proof -
  assume neg: "sint v < 0"
  have "- v = word_of_int (- sint v)" by simp
  then have "uint (- v) = (- sint v) mod 2 ^ 64"
    by (metis uint_word_of_int len64_eq)
  also have "\<dots> = - sint v"
    using neg sint_range64 [of v] by simp
  finally show ?thesis by simp
qed


lemma unat_sint64: "0 \<le> sint (v :: i64) \<Longrightarrow> int (unat v) = sint v"
proof -
  assume nonneg: "0 \<le> sint v"
  have "uint v = sint v mod 2 ^ 64"
    using uint_word_of_int [of "sint v", where ?'a = 64] by simp
  then show ?thesis using nonneg sint_range64 [of v] by simp
qed

lemma magnitude_abs: "int (magnitude v) = \<bar>sint v\<bar>"
proof (cases "v = LLONG_MIN")
  case True
  have "sint LLONG_MIN = - 9223372036854775808" by (simp add: LLONG_MIN_def)
  with True show ?thesis by (simp add: magnitude_def)
next
  case False
  then show ?thesis
    using unat_uminus64 [of v] unat_sint64 [of v] by (cases "sint v < 0") (simp_all add: magnitude_def)
qed

lemma magnitude_word: "(if sint v < 0 then - of_nat (magnitude v) else of_nat (magnitude v)) = v"
proof (cases "sint v < 0")
  case True
  have "(of_nat (magnitude v) :: i64) = of_int (int (magnitude v))" by simp
  also have "\<dots> = of_int (- sint v)" using True by (simp add: magnitude_abs del: of_int_of_nat_eq)
  also have "\<dots> = - v" by simp
  finally show ?thesis using True by simp
next
  case False
  have "(of_nat (magnitude v) :: i64) = of_int (int (magnitude v))" by simp
  also have "\<dots> = of_int (sint v)" using False by (simp add: magnitude_abs del: of_int_of_nat_eq)
  finally show ?thesis using False by simp
qed

lemma dec_int_magnitude:
  "dec_int (sint v) = (if sint v < 0 then 45 # dec (magnitude v) else dec (magnitude v))"
proof -
  have "magnitude v = nat \<bar>sint v\<bar>" using magnitude_abs [of v] by linarith
  then show ?thesis by (simp add: dec_int_def)
qed

lemma sdigits10_dec: "sdigits10 v = length (dec_int (sint v))"
  by (simp add: sdigits10_def dec_int_magnitude digits10_dec magnitude_def Let_def)

section \<open>Integer to text\<close>

definition digits_table :: bytes where
  "digits_table = ascii (
     ''0001020304050607080910111213141516171819'' @
     ''2021222324252627282930313233343536373839'' @
     ''4041424344454647484950515253545556575859'' @
     ''6061626364656667686970717273747576777879'' @
     ''8081828384858687888990919293949596979899'')"

text \<open>
  The main loop and the last one or two digits. The index \<open>next\<close> never falls below zero:
  the buffer region is exactly as long as the numeral (lemma \<open>ll2string_digits_correct\<close>).
\<close>

fun ll2string_loop :: "nat \<Rightarrow> nat \<Rightarrow> bytes \<Rightarrow> nat \<times> nat \<times> bytes" where
  "ll2string_loop value next dst =
     (if value \<ge> 100 then
        let i = (value mod 100) * 2;
            value = value div 100;
            dst = dst[next := digits_table ! (i + 1)];
            dst = dst[next - 1 := digits_table ! i]
        in ll2string_loop value (next - 2) dst
      else (value, next, dst))"

declare ll2string_loop.simps [simp del]

definition ll2string_digits :: "nat \<Rightarrow> nat \<Rightarrow> bytes \<Rightarrow> bytes" where
  "ll2string_digits value next dst =
     (let (value, next, dst) = ll2string_loop value next dst
      in if value < 10 then dst[next := of_nat (48 + value)]
         else let i = value * 2;
                  dst = dst[next := digits_table ! (i + 1)]
              in dst[next - 1 := digits_table ! i])"

definition ll2string :: "bytes \<Rightarrow> nat \<Rightarrow> i64 \<Rightarrow> bytes \<times> nat" where
  "ll2string dst dstlen svalue =
     (let negative = (sint svalue < 0);
          value = magnitude svalue;
          len = digits10 value + of_bool negative
      in if len \<ge> dstlen then (dst, 0)
         else let dst = dst[len := 0];
                  dst = ll2string_digits value (len - 1) dst;
                  dst = (if negative then dst[0 := 45] else dst)
              in (dst, len))"

lemma digits_table_concat:
  "digits_table =
     concat (map (\<lambda>v. [of_nat (48 + v div 10), of_nat (48 + v mod 10)]) [0..<100])"
  by (simp add: digits_table_def ascii_def upt_conv_Cons)

lemma concat_pairs_nth:
  "v < n \<Longrightarrow> concat (map (\<lambda>v. [f v, g v]) [0..<n]) ! (v * 2) = f v \<and>
     concat (map (\<lambda>v. [f v, g v]) [0..<n]) ! (v * 2 + 1) = g v"
proof (induction n)
  case (Suc n)
  have l: "length (concat (map (\<lambda>v. [f v, g v]) [0..<n])) = n * 2"
    by (induction n) auto
  show ?case using Suc l by (cases "v = n") (auto simp: nth_append)
qed simp

lemma digits_table_nth [buffer_simps]:
  assumes "v < 100"
  shows "digits_table ! (v * 2) = of_nat (48 + v div 10)"
    and "digits_table ! Suc (v * 2) = of_nat (48 + v mod 10)"
  unfolding digits_table_concat Suc_eq_plus1
  using concat_pairs_nth [OF assms, of "\<lambda>v. of_nat (48 + v div 10)" "\<lambda>v. of_nat (48 + v mod 10)"]
  by blast+

text \<open>Two digits written at \<open>next - 1\<close> and \<open>next\<close> leave the rest of the buffer alone.\<close>

lemma write_two:
  "Suc m < length dst \<Longrightarrow>
   dst[Suc m := b, m := a] = take m dst @ [a, b] @ drop (Suc (Suc m)) dst"
proof -
  assume m: "Suc m < length dst"
  then have "dst = take m dst @ dst ! m # dst ! Suc m # drop (Suc (Suc m)) dst"
    by (metis Cons_nth_drop_Suc Suc_lessD append_take_drop_id)
  then obtain x y where d: "dst = take m dst @ x # y # drop (Suc (Suc m)) dst" by blast
  show ?thesis using m by (subst d) (simp add: list_update_append)
qed

lemma dec_two: "100 \<le> v \<Longrightarrow> dec v = dec (v div 100) @
    [of_nat (48 + (v mod 100) div 10), of_nat (48 + (v mod 100) mod 10)]"
proof -
  assume v: "100 \<le> v"
  have "dec v = dec (v div 10 div 10) @ [of_nat (48 + (v div 10) mod 10)] @ [of_nat (48 + v mod 10)]"
    using v by (simp add: dec_step [of v] dec_step [of "v div 10"])
  moreover have "v mod 100 = 10 * (v div 10 mod 10) + v mod 10"
    using mod_mult2_eq [of v 10 10] by simp
  then have "(v div 10) mod 10 = (v mod 100) div 10" "v mod 10 = (v mod 100) mod 10"
    by simp_all
  moreover have "v div 10 div 10 = v div 100"
    by (simp add: div_mult2_eq [symmetric])
  ultimately show ?thesis by simp
qed

lemma ll2string_digits_correct:
  "\<lbrakk>Suc next = off + length (dec value); next < length dst\<rbrakk> \<Longrightarrow>
   ll2string_digits value next dst = take off dst @ dec value @ drop (Suc next) dst"
proof (induction "value" "next" dst rule: ll2string_loop.induct)
  case (1 "value" "next" dst)
  show ?case
  proof (cases "value \<ge> 100")
    case True
    let ?i = "(value mod 100) * 2"
    let ?dst = "dst[next := digits_table ! (?i + 1), next - 1 := digits_table ! ?i]"
    have len: "length (dec value) = length (dec (value div 100)) + 2"
      using dec_two [OF True] by simp
    then have n2: "2 \<le> next" using "1.prems" dec_length_pos [of "value div 100"] by linarith
    then obtain m where m: "next = Suc m" by (cases "next") auto
    have "ll2string_digits value next dst = ll2string_digits (value div 100) (next - 2) ?dst"
      unfolding ll2string_digits_def
      by (subst ll2string_loop.simps) (use True in \<open>simp add: Let_def\<close>)
    also have "\<dots> = take off ?dst @ dec (value div 100) @ drop (Suc (next - 2)) ?dst"
      using "1.prems" len n2 by (intro "1.IH" [OF True refl refl refl refl]) simp_all
    also have "\<dots> = take off dst @ dec value @ drop (Suc next) dst"
      using "1.prems" len n2 True m
      by (simp add: write_two buffer_simps dec_two [OF True])
    finally show ?thesis .
  next
    case False
    show ?thesis
    proof (cases "value < 10")
      case True
      then show ?thesis using "1.prems" False
        by (simp add: ll2string_digits_def dec_small upd_conv_take_nth_drop
            ll2string_loop.simps [of "value"])
    next
      case ge: False
      with False have "dec value = [of_nat (48 + value div 10), of_nat (48 + value mod 10)]"
        by (simp add: dec_step [of "value"] dec_small)
      moreover obtain m where "next = Suc m" using "1.prems" calculation by (cases "next") auto
      ultimately show ?thesis using "1.prems" False ge write_two [of m dst]
        by (simp add: ll2string_digits_def ll2string_loop.simps [of "value"] Let_def buffer_simps)
    qed
  qed
qed


lemma ll2string_eq:
  assumes "dstlen \<le> length dst"
  shows "ll2string dst dstlen v =
     (let t = dec_int (sint v)
      in if dstlen \<le> length t then (dst, 0)
         else (t @ 0 # drop (Suc (length t)) dst, length t))"
proof -
  let ?m = "magnitude v" and ?neg = "sint v < 0"
  have len: "digits10 ?m + of_bool ?neg = length (dec_int (sint v))"
    by (simp add: dec_int_magnitude digits10_dec)
  show ?thesis
  proof (cases "dstlen \<le> length (dec_int (sint v))")
    case True
    with len show ?thesis by (simp add: ll2string_def Let_def)
  next
    case False
    let ?l = "length (dec_int (sint v))"
    let ?dst = "dst[?l := 0]"
    have "ll2string_digits ?m (?l - 1) ?dst
        = take (of_bool ?neg) ?dst @ dec ?m @ drop (Suc (?l - 1)) ?dst"
      using False assms by (intro ll2string_digits_correct) (auto simp: dec_int_magnitude)
    moreover have "drop ?l ?dst = 0 # drop (Suc ?l) dst"
      using False assms
      by (simp add: upd_conv_take_nth_drop)
    moreover have "0 < ?l" by (simp add: dec_int_magnitude)
    moreover from this have "take (of_bool ?neg) ?dst = take (of_bool ?neg) dst"
      by (intro take_list_update_ge) (simp add: Suc_le_eq)
    ultimately have *: "ll2string_digits ?m (?l - 1) ?dst
        = take (of_bool ?neg) ?dst @ dec ?m @ 0 # drop (Suc ?l) dst"
      by simp
    show ?thesis
    proof (cases ?neg)
      case True
      moreover obtain x xs where "dst = x # xs" using False assms by (cases dst) auto
      ultimately show ?thesis
        using False * len assms by (simp add: ll2string_def Let_def dec_int_magnitude)
    next
      case nonneg: False
      then show ?thesis
        using False * len assms by (simp add: ll2string_def Let_def dec_int_magnitude)
    qed
  qed
qed

section \<open>Text to integer\<close>

fun string2ll_loop :: "nat \<Rightarrow> bytes \<Rightarrow> (nat \<times> bytes) option" where
  "string2ll_loop v [] = Some (v, [])"
| "string2ll_loop v (c # p) =
     (if is_digit c then
        if v > ULLONG_MAX div 10 then None
        else let v = (v * 10) mod 2 ^ 64
             in if v > ULLONG_MAX - (unat c - 48) then None
                else string2ll_loop ((v + (unat c - 48)) mod 2 ^ 64) p
      else Some (v, c # p))"

text \<open>
  The digit tests compare a \<open>char\<close> with the characters 0 and 9; both lie below 128, so reading
  the byte as unsigned decides the same. The result \<open>None\<close> is the return value 0.
\<close>

definition string2ll :: "bytes \<Rightarrow> i64 option" where
  "string2ll s =
     (if s = [] then None
      else if s = [48] then Some 0
      else let negative = (hd s = 45); p = (if negative then tl s else s)
           in if negative \<and> p = [] then None
              else if 49 \<le> unat (hd p) \<and> unat (hd p) \<le> 57 then
                case string2ll_loop (unat (hd p) - 48) (tl p) of
                  None \<Rightarrow> None
                | Some (v, rest) \<Rightarrow>
                    if rest \<noteq> [] then None
                    else if negative then
                      (if v > LLONG_MAX + 1 then None else Some (- of_nat v))
                    else (if v > LLONG_MAX then None else Some (of_nat v))
              else None)"

text \<open>On the platforms Redis supports in 64-bit builds, \<open>LONG_MIN\<close> and \<open>LONG_MAX\<close> are those of
  \<open>long long\<close>; the width of \<open>long\<close> in bits is the argument.\<close>

definition string2l :: "nat \<Rightarrow> bytes \<Rightarrow> i64 option" where
  "string2l long_bits s =
     (case string2ll s of
        None \<Rightarrow> None
      | Some llval \<Rightarrow>
          if sint llval < - (2 ^ (long_bits - 1)) \<or> sint llval > 2 ^ (long_bits - 1) - 1 then None
          else Some llval)"

text \<open>What the loop computes: all digits consumed and no overflow.\<close>

abbreviation dec_fold :: "nat \<Rightarrow> bytes \<Rightarrow> nat" where
  "dec_fold v p \<equiv> foldl (\<lambda>v c. v * 10 + (unat c - 48)) v p"

lemma dec_fold_mono: "v \<le> dec_fold v p"
proof (induction p arbitrary: v)
  case (Cons c p)
  have "v \<le> v * 10 + (unat c - 48)" by simp
  also have "\<dots> \<le> dec_fold (v * 10 + (unat c - 48)) p" by (rule Cons.IH)
  finally show ?case by simp
qed simp

lemma string2ll_loop_iff:
  "v < 2 ^ 64 \<Longrightarrow>
   string2ll_loop v p = Some (w, []) \<longleftrightarrow>
     (\<forall>c\<in>set p. is_digit c) \<and> w = dec_fold v p \<and> w < 2 ^ 64"
proof (induction v p rule: string2ll_loop.induct)
  case (2 v c p)
  show ?case
  proof (cases "is_digit c")
    case True
    then have d: "unat c - 48 < 10" by (auto simp: is_digit_def)
    show ?thesis
    proof (cases "v * 10 + (unat c - 48) < 18446744073709551616")
      case fits: True
      then have "\<not> v > ULLONG_MAX div 10" by simp
      moreover have "(v * 10) mod 2 ^ 64 = v * 10" using fits by simp
      moreover have "\<not> v * 10 > ULLONG_MAX - (unat c - 48)" using fits by simp
      ultimately show ?thesis using "2.IH" [OF True] fits True by (simp add: Let_def)
    next
      case False
      have "\<not> dec_fold v (c # p) < 2 ^ 64"
        using False dec_fold_mono [of "v * 10 + (unat c - 48)" p] by simp
      moreover have "string2ll_loop v (c # p) = None"
      proof (cases "v > ULLONG_MAX div 10")
        case small: False
        then have "(v * 10) mod 2 ^ 64 = v * 10" by simp
        moreover have "v * 10 > ULLONG_MAX - x"
          if "\<not> v * 10 + x < 18446744073709551616" "x < 10" for x using that by linarith
        then have "v * 10 > ULLONG_MAX - (unat c - 48)" using False d by blast
        moreover have "48 \<le> unat c" using True by (simp add: is_digit_def)
        ultimately show ?thesis using True small by (simp add: Let_def)
      qed (use True in simp)
      ultimately show ?thesis by simp
    qed
  qed simp
qed auto

lemma hd_dec_nonzero: "0 < n \<Longrightarrow> 49 \<le> unat (hd (dec n)) \<and> unat (hd (dec n)) \<le> 57"
proof (induction n rule: dec.induct)
  case (1 n)
  show ?case
  proof (cases "n < 10")
    case True
    then show ?thesis using 1 unat_digit [of n] by (simp add: dec_small)
  next
    case False
    then show ?thesis using 1 by (simp add: dec_step hd_append)
  qed
qed

lemma dec_dec_val: "\<lbrakk>\<forall>c\<in>set s. is_digit c; s \<noteq> []; hd s \<noteq> 48\<rbrakk> \<Longrightarrow> dec (dec_val s) = s"
proof (induction s rule: rev_induct)
  case (snoc c s)
  have c: "is_digit c" using snoc.prems by simp
  then have "of_nat (48 + (unat c - 48)) = c" "unat c - 48 < 10"
    by (auto simp: is_digit_def)
  moreover have "0 < dec_val s" if "s \<noteq> []"
    using dec_val_pos [of s] snoc.prems that by simp
  ultimately show ?case using snoc
    by (cases "s = []") (simp_all add: dec_small dec_step dec_val_def del: of_nat_add)
qed simp


lemma dec_hd_tl: "dec n = hd (dec n) # tl (dec n)"
  by simp

lemma dec_fold_hd:
  "p \<noteq> [] \<Longrightarrow> dec_fold (unat (hd p) - 48) (tl p) = dec_val p"
  by (cases p) (simp_all add: dec_val_def)

lemma string2ll_digits:
  assumes "p \<noteq> []" "49 \<le> unat (hd p)" "unat (hd p) \<le> 57"
  shows "string2ll_loop (unat (hd p) - 48) (tl p) = Some (w, []) \<longleftrightarrow> p = dec w \<and> 0 < w \<and> w < 2 ^ 64"
proof -
  have hd: "is_digit (hd p)" "hd p \<noteq> 48" using assms by (auto simp: is_digit_def)
  have "string2ll_loop (unat (hd p) - 48) (tl p) = Some (w, []) \<longleftrightarrow>
      (\<forall>c\<in>set (tl p). is_digit c) \<and> w = dec_val p \<and> w < 2 ^ 64"
    using assms by (subst string2ll_loop_iff) (simp_all add: dec_fold_hd)
  also have "(\<forall>c\<in>set (tl p). is_digit c) \<longleftrightarrow> (\<forall>c\<in>set p. is_digit c)"
    using assms(1) hd(1) by (cases p) auto
  also have "(\<forall>c\<in>set p. is_digit c) \<and> w = dec_val p \<and> w < 2 ^ 64 \<longleftrightarrow> p = dec w \<and> 0 < w \<and> w < 2 ^ 64"
    using dec_dec_val [of p] dec_val_pos [of p] assms(1) hd dec_digits by auto
  finally show ?thesis .
qed

text \<open>The sign and the final range check.\<close>

lemma of_nat_magnitude_bounds:
  "w \<le> LLONG_MAX \<Longrightarrow> sint (of_nat w :: i64) = int w"
  "w \<le> LLONG_MAX + 1 \<Longrightarrow> 0 < w \<Longrightarrow> sint (- of_nat w :: i64) = - int w"
proof -
  have s: "sint (of_int k :: i64) = k" if "- (2 ^ 63) \<le> k" "k < 2 ^ 63" for k
    using that by (simp add: signed_of_int signed_take_bit_int_eq_self)
  show "w \<le> LLONG_MAX \<Longrightarrow> sint (of_nat w :: i64) = int w"
    using s [of "int w"] by simp
  show "w \<le> LLONG_MAX + 1 \<Longrightarrow> 0 < w \<Longrightarrow> sint (- of_nat w :: i64) = - int w"
    using s [of "- int w"] by simp
qed

lemma magnitude_bounds:
  "magnitude v \<le> LLONG_MAX + 1" "\<not> sint v < 0 \<Longrightarrow> magnitude v \<le> LLONG_MAX"
  using magnitude_abs [of v] sint_range64 [of v] by auto

lemma magnitude_zero: "magnitude v = 0 \<Longrightarrow> v = 0"
  using magnitude_word [of v] by (simp split: if_splits)

text \<open>The two ways a numeral is accepted: after a minus sign, or alone.\<close>

lemma string2ll_neg:
  assumes "49 \<le> unat (hd p)" "unat (hd p) \<le> 57" "p \<noteq> []"
  shows "string2ll (45 # p) = Some v \<longleftrightarrow> (\<exists>w. p = dec w \<and> 0 < w \<and> w \<le> LLONG_MAX + 1 \<and> v = - of_nat w)"
proof -
  have "string2ll (45 # p) = Some v \<longleftrightarrow>
      (\<exists>w. string2ll_loop (unat (hd p) - 48) (tl p) = Some (w, []) \<and> w \<le> LLONG_MAX + 1 \<and> v = - of_nat w)"
    using assms unfolding string2ll_def Let_def
    by (auto split: option.splits)
  then show ?thesis using string2ll_digits [OF assms(3) assms(1,2)] by auto
qed

lemma string2ll_pos:
  assumes "49 \<le> unat (hd p)" "unat (hd p) \<le> 57" "p \<noteq> []"
  shows "string2ll p = Some v \<longleftrightarrow> (\<exists>w. p = dec w \<and> 0 < w \<and> w \<le> LLONG_MAX \<and> v = of_nat w)"
proof -
  have ne: "hd p \<noteq> 45" "p \<noteq> [48]" using assms(1) by auto
  have "string2ll p = Some v \<longleftrightarrow>
      (\<exists>w. string2ll_loop (unat (hd p) - 48) (tl p) = Some (w, []) \<and> w \<le> LLONG_MAX \<and> v = of_nat w)"
    using assms ne unfolding string2ll_def Let_def
    by (auto split: option.splits)
  then show ?thesis using string2ll_digits [OF assms(3) assms(1,2)] by auto
qed

lemma string2ll_dec_int: "string2ll (dec_int (sint v)) = Some v"
proof (cases "magnitude v = 0")
  case True
  then show ?thesis
    using magnitude_zero [of v] by (simp add: dec_int_def dec_small string2ll_def)
next
  case False
  then have hd: "49 \<le> unat (hd (dec (magnitude v)))" "unat (hd (dec (magnitude v))) \<le> 57"
    using hd_dec_nonzero [of "magnitude v"] by auto
  show ?thesis
    using string2ll_neg [OF hd, of v] string2ll_pos [OF hd, of v] False magnitude_bounds [of v]
      magnitude_word [of v]
    by (auto simp: dec_int_magnitude split: if_splits)
qed

lemma string2ll_SomeD:
  assumes r: "string2ll s = Some v"
  shows "s = dec_int (sint v)"
proof (cases "s = [48]")
  case True
  then show ?thesis using r by (simp add: string2ll_def dec_int_def dec_small)
next
  case False
  let ?p = "if hd s = 45 then tl s else s"
  have ne: "s \<noteq> []" "?p \<noteq> []" and hd: "49 \<le> unat (hd ?p)" "unat (hd ?p) \<le> 57"
    using r False by (auto simp: string2ll_def Let_def split: if_split_asm)
  show ?thesis
  proof (cases "hd s = 45")
    case True
    then have "s = 45 # ?p" using ne by (cases s) auto
    then obtain w where "?p = dec w" "0 < w" "w \<le> LLONG_MAX + 1" "v = - of_nat w"
      using string2ll_neg [OF hd ne(2)] r by metis
    then show ?thesis using True \<open>s = 45 # ?p\<close> of_nat_magnitude_bounds(2) [of w]
      by (simp add: dec_int_def)
  next
    case pos: False
    then obtain w where "s = dec w" "w \<le> LLONG_MAX" "v = of_nat w"
      using string2ll_pos [of s v] hd ne r by auto
    then show ?thesis using of_nat_magnitude_bounds(1) [of w] by (simp add: dec_int_def)
  qed
qed

section \<open>The C library's conversions, and the routines built on them\<close>

text \<open>
  \<open>strtoll\<close> and \<open>strtoull\<close> in base 10, on the text of a C string: leading white space and one
  sign are skipped, the longest run of digits is converted, and the rest is where \<open>endptr\<close>
  points (the whole text when there was no digit). The flag is \<open>errno = ERANGE\<close>.
\<close>

definition is_space :: "u8 \<Rightarrow> bool" where
  "is_space c \<longleftrightarrow> c = 32 \<or> (9 \<le> unat c \<and> unat c \<le> 13)"

definition strto_scan :: "bytes \<Rightarrow> bool \<times> bytes \<times> bytes" where
  "strto_scan s =
     (let t = dropWhile is_space s;
          neg = (c_hd t = 45);
          t = (if c_hd t = 45 \<or> c_hd t = 43 then tl t else t);
          ds = takeWhile is_digit t
      in (neg, ds, if ds = [] then s else dropWhile is_digit t))"

definition strtoll :: "bytes \<Rightarrow> int \<times> bytes \<times> bool" where
  "strtoll s =
     (let (neg, ds, rest) = strto_scan s;
          v = (if neg then - int (dec_val ds) else int (dec_val ds))
      in if v > int LLONG_MAX then (int LLONG_MAX, rest, True)
         else if v < - int LLONG_MAX - 1 then (- int LLONG_MAX - 1, rest, True)
         else (v, rest, False))"

definition strtoull :: "bytes \<Rightarrow> nat \<times> bytes \<times> bool" where
  "strtoull s =
     (let (neg, ds, rest) = strto_scan s; v = dec_val ds
      in if v > ULLONG_MAX then (ULLONG_MAX, rest, True)
         else ((if neg then (2 ^ 64 - v) mod 2 ^ 64 else v), rest, False))"

definition string2ull :: "bytes \<Rightarrow> nat option" where
  "string2ull s =
     (case string2ll s of
        Some ll \<Rightarrow> if sint ll < 0 then None else Some (unat ll)
      | None \<Rightarrow>
          let (v, endptr, erange) = strtoull s
          in if erange \<or> \<not> (s \<noteq> [] \<and> endptr = []) then None else Some v)"

definition strcasecmp_eq :: "bytes \<Rightarrow> bytes \<Rightarrow> bool" where
  "strcasecmp_eq a b \<longleftrightarrow> map (\<lambda>c. c_tolower (sint c)) a = map (\<lambda>c. c_tolower (sint c)) b"

definition mem_unit :: "bytes \<Rightarrow> int option" where
  "mem_unit u =
     (if u = [] \<or> strcasecmp_eq u (ascii ''b'') then Some 1
      else if strcasecmp_eq u (ascii ''k'') then Some 1000
      else if strcasecmp_eq u (ascii ''kb'') then Some 1024
      else if strcasecmp_eq u (ascii ''m'') then Some (1000 * 1000)
      else if strcasecmp_eq u (ascii ''mb'') then Some (1024 * 1024)
      else if strcasecmp_eq u (ascii ''g'') then Some (1000 * 1000 * 1000)
      else if strcasecmp_eq u (ascii ''gb'') then Some (1024 * 1024 * 1024)
      else None)"

text \<open>
  \<open>memtoll\<close> returns the amount and the error flag. POSIX leaves open whether \<open>strtoll\<close> sets
  \<open>EINVAL\<close> when there is no digit to convert: that is the argument \<open>einval\<close>. The product
  \<open>val*mul\<close> is the 64-bit one.
\<close>

definition memtoll :: "bool \<Rightarrow> bytes \<Rightarrow> i64 \<times> bool" where
  "memtoll einval p =
     (let u = dropWhile is_digit (if c_hd p = 45 then tl p else p)
      in case mem_unit u of
           None \<Rightarrow> (0, True)
         | Some mul \<Rightarrow>
             let digits = length p - length u
             in if digits \<ge> 128 then (0, True)
                else let (val, endptr, erange) = strtoll (take digits p)
                     in if (val = 0 \<and> einval \<and> fst (snd (strto_scan (take digits p))) = [])
                           \<or> endptr \<noteq> [] then (0, True)
                        else (of_int val * of_int mul, False))"

lemma strto_scan_digits:
  assumes "\<forall>c\<in>set ds. is_digit c" "ds \<noteq> []" "rest = [] \<or> \<not> is_digit (hd rest)"
  shows "strto_scan (ds @ rest) = (False, ds, rest)"
proof -
  have hd: "is_digit (hd ds)" "hd ds \<in> set ds" using assms by auto
  then have ns: "\<not> is_space (hd ds)" "hd ds \<noteq> 45" "hd ds \<noteq> 43"
    by (auto simp: is_space_def is_digit_def)
  obtain d ds' where d: "ds = d # ds'" using assms(2) by (cases ds) auto
  have "dropWhile is_space (ds @ rest) = ds @ rest" using d ns by simp
  moreover have "c_hd (ds @ rest) = hd ds" using d by simp
  moreover have "takeWhile is_digit (ds @ rest) = ds" "dropWhile is_digit (ds @ rest) = rest"
    using assms by (cases rest; simp add: takeWhile_append dropWhile_append)+
  ultimately show ?thesis using ns assms(2) by (simp add: strto_scan_def Let_def)
qed

lemma strto_scan_dec: "strto_scan (dec n) = (False, dec n, [])"
  using strto_scan_digits [of "dec n" "[]"] dec_digits by simp

lemma string2ll_dec_small: "n \<le> LLONG_MAX \<Longrightarrow> string2ll (dec n) = Some (of_nat n)"
  using string2ll_dec_int [of "of_nat n"] of_nat_magnitude_bounds(1) [of n]
  by (simp add: dec_int_def)

lemma string2ll_dec_large: "LLONG_MAX < n \<Longrightarrow> string2ll (dec n) = None"
proof (rule ccontr)
  assume n: "LLONG_MAX < n" and "string2ll (dec n) \<noteq> None"
  then obtain v where "string2ll (dec n) = Some v" by blast
  then have "dec n = dec_int (sint v)" by (rule string2ll_SomeD)
  moreover have "hd (dec n) \<noteq> 45" using hd_dec_nonzero [of n] n by auto
  ultimately have "n = nat (sint v)" by (auto simp: dec_int_def split: if_splits)
  then show False using n sint_range64 [of v] by auto
qed

lemma length_dec_le: "n < 10 ^ k \<Longrightarrow> 0 < k \<Longrightarrow> length (dec n) \<le> k"
proof (induction k arbitrary: n)
  case (Suc k)
  show ?case
  proof (cases "n < 10")
    case False
    then have "n div 10 < 10 ^ k" "0 < k" using Suc.prems
      by (auto simp: div_less_iff_less_mult mult.commute intro: Nat.gr0I)
    then show ?thesis using Suc.IH [of "n div 10"] False by (simp add: dec_step)
  qed (simp add: dec_small)
qed simp

lemma strto_scan_minus: "strto_scan (45 # dec n) = (True, dec n, [])"
proof -
  have "\<forall>c\<in>set (dec n). is_digit c" using dec_digits by blast
  then have "takeWhile is_digit (dec n) = dec n" "dropWhile is_digit (dec n) = []"
    by (simp_all add: takeWhile_eq_all_conv)
  moreover have "dec n \<noteq> []" by simp
  ultimately show ?thesis by (simp add: strto_scan_def is_space_def Let_def del: takeWhile_eq_all_conv)
qed

text \<open>A byte is the letter \<open>x\<close> in lower or upper case.\<close>

definition letter :: "char \<Rightarrow> u8 \<Rightarrow> bool" where
  "letter x c \<longleftrightarrow> c = of_char x \<or> c = of_char x - 32"

lemma mem_unit_letters:
  "mem_unit [] = Some 1"
  "letter CHR ''b'' b \<Longrightarrow> mem_unit [b] = Some 1"
  "letter CHR ''k'' x \<Longrightarrow> mem_unit [x] = Some 1000"
  "letter CHR ''k'' x \<Longrightarrow> letter CHR ''b'' b \<Longrightarrow> mem_unit [x, b] = Some 1024"
  "letter CHR ''m'' x \<Longrightarrow> mem_unit [x] = Some 1000000"
  "letter CHR ''m'' x \<Longrightarrow> letter CHR ''b'' b \<Longrightarrow> mem_unit [x, b] = Some 1048576"
  "letter CHR ''g'' x \<Longrightarrow> mem_unit [x] = Some 1000000000"
  "letter CHR ''g'' x \<Longrightarrow> letter CHR ''b'' b \<Longrightarrow> mem_unit [x, b] = Some 1073741824"
  by ((simp only: letter_def)?, (elim disjE)?; simp add: mem_unit_def strcasecmp_eq_def ascii_def c_tolower_def)+

lemma mem_unit_no_digit: "mem_unit u = Some mul \<Longrightarrow> u = [] \<or> \<not> is_digit (hd u)"
proof (rule ccontr)
  assume m: "mem_unit u = Some mul" and "\<not> (u = [] \<or> \<not> is_digit (hd u))"
  then obtain c cs where u: "u = c # cs" "is_digit c" by (cases u) auto
  have "\<not> strcasecmp_eq u (ascii (x # xs))" if "x \<in> set ''bkmg''" for x xs
  proof
    assume "strcasecmp_eq u (ascii (x # xs))"
    then have "c_tolower (sint c) = c_tolower (sint (of_char x :: u8))"
      using u by (simp add: strcasecmp_eq_def ascii_def)
    then show False using that is_digit_sint [OF u(2)]
      by (auto simp: c_tolower_def split: if_splits)
  qed
  then show False using m u by (simp add: mem_unit_def)
qed

section \<open>Properties\<close>

text \<open>
  C17: \<open>ll2string\<close> writes the canonical decimal text of its argument and the terminator at the
  start of the buffer, leaves the rest of the buffer alone and returns the length; when the
  text and its terminator do not fit it returns 0 and writes nothing.
\<close>

theorem ll2string_correct:
  assumes "dstlen \<le> length dst"
  shows "ll2string dst dstlen v =
     (let t = dec_int (sint v)
      in if dstlen \<le> length t then (dst, 0)
         else (t @ 0 # drop (Suc (length t)) dst, length t))"
  by (rule ll2string_eq [OF assms])

theorem ll2string_correct_witness:
  "ll2string [1, 2, 3, 4, 5, 6] 5 (- 42) = ([45, 52, 50, 0, 5, 6], 3)"
  using ll2string_correct [of 5 "[1, 2, 3, 4, 5, 6]" "- 42"]
  by (simp add: dec_int_def dec_step dec_small)

text \<open>
  C16: \<open>string2ll\<close> accepts exactly the canonical text of 64-bit integers, and reads back the
  integer written: no leading zero, no plus sign, no space, no overflow is accepted.
\<close>

theorem string2ll_exact: "string2ll s = Some v \<longleftrightarrow> s = dec_int (sint v)"
  using string2ll_SomeD string2ll_dec_int by auto

text \<open>
  The nested comparisons of \<open>digits10\<close> and \<open>sdigits10\<close> compute the length of the text, for
  every value, the smallest \<open>long long\<close> included.
\<close>

theorem digits10_widths:
  "digits10 n = length (dec n) \<and> sdigits10 v = length (dec_int (sint v))"
  by (simp add: digits10_dec sdigits10_dec)

text \<open>
  C27: \<open>string2ull\<close> reads back every \<open>unsigned long long\<close>, also those above \<open>LLONG_MAX\<close> that
  only the \<open>strtoull\<close> fallback reaches.
\<close>

theorem string2ull_dec:
  assumes "n < 2 ^ 64"
  shows "string2ull (dec n) = Some n"
proof (cases "n \<le> LLONG_MAX")
  case True
  then have "sint (of_nat n :: i64) = int n" by (rule of_nat_magnitude_bounds)
  moreover from this have "int (unat (of_nat n :: i64)) = int n"
    using unat_sint64 [of "of_nat n"] by (simp del: of_nat_unat)
  then have "unat (of_nat n :: i64) = n" by (simp only: of_nat_eq_iff)
  ultimately show ?thesis using True by (simp add: string2ull_def string2ll_dec_small)
next
  case False
  then show ?thesis using assms
    by (simp add: string2ull_def string2ll_dec_large strtoull_def strto_scan_dec)
qed

theorem string2ull_dec_witness:
  "string2ull (dec 18446744073709551615) = Some 18446744073709551615"
  by (rule string2ull_dec) simp


lemma memtoll_unit:
  assumes "mem_unit u = Some mul" "int n * mul \<le> int LLONG_MAX"
  shows "memtoll einval (dec n @ u) = (of_int (int n * mul), False)"
    "memtoll einval (45 # dec n @ u) = (of_int (- int n * mul), False)"
proof -
  have mul: "1 \<le> mul" using assms(1) by (auto simp: mem_unit_def split: if_splits)
  have n: "int n \<le> int n * mul" using mul by (simp add: mult_le_cancel_left1)
  then have n64: "n \<le> LLONG_MAX" using assms(2) by linarith
  then have len: "length (dec n) < 127" using length_dec_le [of n 20] by simp
  have rest: "u = [] \<or> \<not> is_digit (hd u)" using assms(1) by (rule mem_unit_no_digit)
  have digits: "\<forall>c\<in>set (dec n). is_digit c" using dec_digits by blast
  have ne: "c_hd (dec n @ u) \<noteq> 45"
    using digits by (cases "dec n") (auto simp: is_digit_def)
  have u: "dropWhile is_digit (dec n @ u) = u"
    using digits rest by (cases u) (simp_all add: dropWhile_append)
  show "memtoll einval (dec n @ u) = (of_int (int n * mul), False)"
    using assms(1) n64 len ne u
    by (simp add: memtoll_def Let_def strtoll_def strto_scan_dec)
  show "memtoll einval (45 # dec n @ u) = (of_int (- int n * mul), False)"
    using assms(1) n64 len u
    by (simp add: memtoll_def Let_def strtoll_def strto_scan_minus Suc_diff_le)
qed

text \<open>
  C26: \<open>memtoll\<close> reads an amount of memory exactly. A numeral, with or without a minus sign,
  denotes itself when it stands alone or with \<open>b\<close>; with \<open>k\<close>, \<open>m\<close>, \<open>g\<close> it counts powers of 1000,
  with \<open>kb\<close>, \<open>mb\<close>, \<open>gb\<close> powers of 1024, the letters in either case, whenever the amount is
  a \<open>long long\<close>.
\<close>

theorem memtoll_amount:
  assumes "s = [] \<and> v = int n \<or> s = [45] \<and> v = - int n"
    and "letter CHR ''b'' b" "letter CHR ''k'' k" "letter CHR ''m'' m" "letter CHR ''g'' g"
  shows "(int n \<le> int LLONG_MAX \<longrightarrow> memtoll einval (s @ dec n) = (of_int v, False) \<and>
      memtoll einval (s @ dec n @ [b]) = (of_int v, False)) \<and>
    (int n * 1000 \<le> int LLONG_MAX \<longrightarrow> memtoll einval (s @ dec n @ [k]) = (of_int (v * 1000), False)) \<and>
    (int n * 1024 \<le> int LLONG_MAX \<longrightarrow> memtoll einval (s @ dec n @ [k, b]) = (of_int (v * 1024), False)) \<and>
    (int n * 1000 ^ 2 \<le> int LLONG_MAX \<longrightarrow> memtoll einval (s @ dec n @ [m]) = (of_int (v * 1000 ^ 2), False)) \<and>
    (int n * 1024 ^ 2 \<le> int LLONG_MAX \<longrightarrow> memtoll einval (s @ dec n @ [m, b]) = (of_int (v * 1024 ^ 2), False)) \<and>
    (int n * 1000 ^ 3 \<le> int LLONG_MAX \<longrightarrow> memtoll einval (s @ dec n @ [g]) = (of_int (v * 1000 ^ 3), False)) \<and>
    (int n * 1024 ^ 3 \<le> int LLONG_MAX \<longrightarrow> memtoll einval (s @ dec n @ [g, b]) = (of_int (v * 1024 ^ 3), False))"
proof -
  have a: "memtoll einval (s @ dec n @ u) = (of_int (v * mul), False)"
    if "mem_unit u = Some mul" "int n * mul \<le> int LLONG_MAX" for u mul
    using assms(1) memtoll_unit [OF that] by auto
  note l = mem_unit_letters
  have "memtoll einval (s @ dec n) = (of_int v, False)" if "int n \<le> int LLONG_MAX"
    using a [OF l(1)] that by simp
  moreover have "memtoll einval (s @ dec n @ [b]) = (of_int v, False)" if "int n \<le> int LLONG_MAX"
    using a [OF l(2) [OF assms(2)]] that by simp
  moreover have "memtoll einval (s @ dec n @ [k]) = (of_int (v * 1000), False)"
    if "int n * 1000 \<le> int LLONG_MAX" using a [OF l(3) [OF assms(3)] that] .
  moreover have "memtoll einval (s @ dec n @ [k, b]) = (of_int (v * 1024), False)"
    if "int n * 1024 \<le> int LLONG_MAX" using a [OF l(4) [OF assms(3,2)] that] .
  moreover have "memtoll einval (s @ dec n @ [m]) = (of_int (v * 1000 ^ 2), False)"
    if "int n * 1000 ^ 2 \<le> int LLONG_MAX" using a [of "[m]" "1000 ^ 2"] l(5) [OF assms(4)] that by simp
  moreover have "memtoll einval (s @ dec n @ [m, b]) = (of_int (v * 1024 ^ 2), False)"
    if "int n * 1024 ^ 2 \<le> int LLONG_MAX" using a [of "[m, b]" "1024 ^ 2"] l(6) [OF assms(4,2)] that by simp
  moreover have "memtoll einval (s @ dec n @ [g]) = (of_int (v * 1000 ^ 3), False)"
    if "int n * 1000 ^ 3 \<le> int LLONG_MAX" using a [of "[g]" "1000 ^ 3"] l(7) [OF assms(5)] that by simp
  moreover have "memtoll einval (s @ dec n @ [g, b]) = (of_int (v * 1024 ^ 3), False)"
    if "int n * 1024 ^ 3 \<le> int LLONG_MAX" using a [of "[g, b]" "1024 ^ 3"] l(8) [OF assms(5,2)] that by simp
  ultimately show ?thesis by blast
qed

theorem memtoll_amount_witness:
  "memtoll False (dec 1 @ ascii ''Gb'') = (1073741824, False) \<and>
   memtoll False ([45] @ dec 3 @ ascii ''k'') = (- 3000, False)"
proof -
  have l: "letter CHR ''b'' 98" "letter CHR ''k'' 107" "letter CHR ''m'' 109" "letter CHR ''g'' 71"
    by (simp_all add: letter_def)
  show ?thesis
    using memtoll_amount [OF _ l, of "[]" 1 1 False] memtoll_amount [OF _ l, of "[45]" "- 3" 3 False]
    by (simp add: ascii_def)
qed

text \<open>
  Two amounts the code accepts although they are out of range: \<open>memtoll\<close> does not check the
  product (nor \<open>ERANGE\<close>), and the fallback of \<open>string2ull\<close> negates modulo \<open>2 ^ 64\<close>.
\<close>

theorem out_of_range_accepted:
  "memtoll False (ascii ''9223372036854775807kb'') = (- 1024, False) \<and>
   string2ull (ascii ''-9223372036854775809'') = Some 9223372036854775807"
proof
  have a: "ascii ''9223372036854775807kb'' = dec 9223372036854775807 @ ascii ''kb''"
    by (simp add: ascii_def dec_step dec_small)
  show "memtoll False (ascii ''9223372036854775807kb'') = (- 1024, False)"
    unfolding a
    by (simp add: memtoll_def mem_unit_def strcasecmp_eq_def ascii_def c_tolower_def dec_step
        dec_small is_digit_def strtoll_def strto_scan_def is_space_def dec_val_def)
  have b: "string2ll (ascii ''-9223372036854775809'') = None"
    by (simp add: string2ll_def ascii_def is_digit_def)
  show "string2ull (ascii ''-9223372036854775809'') = Some 9223372036854775807"
    by (simp add: string2ull_def b)
       (simp add: ascii_def strtoull_def strto_scan_def is_space_def is_digit_def dec_val_def)
qed

end
