(* ===== verification/Endian.thy ===== *)
theory Endian
  imports RedisPrelude
begin

text \<open>
  Integers in memory: the little-endian byte sequences shared by the packed encodings, the
  host's own byte order as a parameter (\<open>be\<close>: the host is big endian), and the byte reversal
  routines and conditional macros of \<open>src/endianconv.c\<close> and \<open>src/endianconv.h\<close>.
\<close>

section \<open>Little-endian byte sequences\<close>

fun le_bytes :: "nat \<Rightarrow> int \<Rightarrow> bytes" where
  "le_bytes 0 v = []"
| "le_bytes (Suc n) v = word_of_int v # le_bytes n (v div 256)"

fun le_val :: "bytes \<Rightarrow> int" where
  "le_val [] = 0"
| "le_val (b # bs) = uint b + 256 * le_val bs"

definition le_sval :: "bytes \<Rightarrow> int" where
  "le_sval bs = signed_take_bit (8 * length bs - 1) (le_val bs)"

lemma length_le_bytes [simp]: "length (le_bytes n v) = n"
  by (induction n arbitrary: v) auto

lemma uint_word_of_int_u8 [byte_simps]: "uint (word_of_int v :: u8) = v mod 256"
  by (simp add: uint_word_of_int)

lemma le_val_le_bytes [byte_simps]: "le_val (le_bytes n v) = v mod 256 ^ n"
proof (induction n arbitrary: v)
  case (Suc n)
  have "v mod (256 * 256 ^ n) = 256 * (v div 256 mod 256 ^ n) + v mod 256"
    by (rule zmod_zmult2_eq) simp
  then show ?case using Suc by (simp add: byte_simps)
qed simp

lemma le_val_bounds: "0 \<le> le_val bs \<and> le_val bs < 256 ^ length bs"
proof (induction bs)
  case (Cons b bs)
  have "uint b < 256" "0 \<le> uint b" using uint_bounded [of b] by simp_all
  then show ?case using Cons by simp
qed simp

lemma le_bytes_le_val [byte_simps]: "le_bytes (length bs) (le_val bs) = bs"
proof (induction bs)
  case (Cons b bs)
  have "uint b < 256" "0 \<le> uint b" using uint_bounded [of b] by simp_all
  then have "(uint b + 256 * le_val bs) div 256 = le_val bs" by simp
  moreover have z: "(256 :: u8) = 0" by simp
  have "(256 :: u8) * w = 0" for w by (simp only: z mult_zero_left)
  then have "(word_of_int (uint b + 256 * le_val bs) :: u8) = b"
    by simp
  ultimately show ?case using Cons by simp
qed simp

lemma le_bytes_mod [simp]: "le_bytes n (v mod 256 ^ n) = le_bytes n v"
  using le_bytes_le_val [of "le_bytes n v"] by (simp add: le_val_le_bytes)

lemma le_bytes_0 [simp]: "le_bytes n 0 = replicate n 0"
  by (induction n) simp_all

lemma le_val_replicate_0 [simp]: "le_val (replicate n 0) = 0"
  by (induction n) simp_all

lemma pow256: "(256::int) ^ n = 2 ^ (8 * n)"
  by (simp add: power_mult)

text \<open>A signed value of \<open>n\<close> bytes is read back from its bytes.\<close>

definition fits :: "nat \<Rightarrow> int \<Rightarrow> bool" where
  "fits n v \<longleftrightarrow> - (2 ^ (8 * n - 1)) \<le> v \<and> v < 2 ^ (8 * n - 1)"

lemma le_sval_le_bytes [byte_simps]:
  assumes "0 < n" "fits n v"
  shows "le_sval (le_bytes n v) = v"
proof -
  have "\<not> 8 * n \<le> 8 * n - 1" using assms(1) by linarith
  then have "signed_take_bit (8 * n - 1) (take_bit (8 * n) v) = signed_take_bit (8 * n - 1) v"
    by (simp only: signed_take_bit_take_bit if_False)
  also have "\<dots> = v" using assms(2) by (simp add: fits_def signed_take_bit_int_eq_self)
  finally show ?thesis
    by (simp add: le_sval_def byte_simps pow256 take_bit_eq_mod)
qed

lemma le_sval_fits: "fits (length bs) (le_sval bs)"
  unfolding fits_def le_sval_def
  using signed_take_bit_int_greater_eq_minus_exp signed_take_bit_int_less_exp by blast

lemma le_bytes_le_sval [byte_simps]:
  assumes "0 < length bs"
  shows "le_bytes (length bs) (le_sval bs) = bs"
proof -
  have "le_sval bs mod 256 ^ length bs = le_val bs mod 256 ^ length bs"
    using assms
    by (simp add: le_sval_def pow256 take_bit_eq_mod [symmetric] take_bit_signed_take_bit)
  then show ?thesis
    by (metis le_bytes_mod le_bytes_le_val)
qed

lemma fits_mono: "fits m v \<Longrightarrow> m \<le> n \<Longrightarrow> 0 < m \<Longrightarrow> fits n v"
proof -
  assume a: "fits m v" "m \<le> n" "0 < m"
  then have "(2::int) ^ (8 * m - 1) \<le> 2 ^ (8 * n - 1)" by (intro power_increasing) auto
  then show ?thesis using a(1) unfolding fits_def by linarith
qed

section \<open>Byte order of the host\<close>

definition host_order :: "bool \<Rightarrow> bytes \<Rightarrow> bytes" where
  "host_order be bs = (if be then rev bs else bs)"

definition mem_store :: "bool \<Rightarrow> nat \<Rightarrow> int \<Rightarrow> bytes" where
  "mem_store be n v = host_order be (le_bytes n v)"

definition mem_load :: "bool \<Rightarrow> bytes \<Rightarrow> int" where
  "mem_load be bs = le_val (host_order be bs)"

definition mem_sload :: "bool \<Rightarrow> bytes \<Rightarrow> int" where
  "mem_sload be bs = le_sval (host_order be bs)"

section \<open>Byte reversal\<close>

text \<open>Each step of \<open>memrevN\<close> exchanges two bytes through a temporary.\<close>

definition swap_bytes :: "nat \<Rightarrow> nat \<Rightarrow> bytes \<Rightarrow> bytes" where
  "swap_bytes i j x = (let t = x ! i; x = x[i := x ! j] in x[j := t])"

definition memrev16 :: "bytes \<Rightarrow> bytes" where
  "memrev16 x = swap_bytes 0 1 x"

definition memrev32 :: "bytes \<Rightarrow> bytes" where
  "memrev32 x = (let x = swap_bytes 0 3 x in swap_bytes 1 2 x)"

definition memrev64 :: "bytes \<Rightarrow> bytes" where
  "memrev64 x =
     (let x = swap_bytes 0 7 x; x = swap_bytes 1 6 x; x = swap_bytes 2 5 x
      in swap_bytes 3 4 x)"

definition intrev16 :: "bool \<Rightarrow> int \<Rightarrow> int" where
  "intrev16 be v = mem_load be (memrev16 (mem_store be 2 v))"

definition intrev32 :: "bool \<Rightarrow> int \<Rightarrow> int" where
  "intrev32 be v = mem_load be (memrev32 (mem_store be 4 v))"

definition intrev64 :: "bool \<Rightarrow> int \<Rightarrow> int" where
  "intrev64 be v = mem_load be (memrev64 (mem_store be 8 v))"

text \<open>The macros: a conversion on big-endian hosts only, or on little-endian hosts only.\<close>

definition memrev16ifbe :: "bool \<Rightarrow> bytes \<Rightarrow> bytes" where
  "memrev16ifbe be x = (if be then memrev16 x else x)"

definition memrev32ifbe :: "bool \<Rightarrow> bytes \<Rightarrow> bytes" where
  "memrev32ifbe be x = (if be then memrev32 x else x)"

definition memrev64ifbe :: "bool \<Rightarrow> bytes \<Rightarrow> bytes" where
  "memrev64ifbe be x = (if be then memrev64 x else x)"

definition intrev32ifbe :: "bool \<Rightarrow> int \<Rightarrow> int" where
  "intrev32ifbe be v = (if be then intrev32 be v else v)"

definition htonu64 :: "bool \<Rightarrow> int \<Rightarrow> int" where
  "htonu64 be v = (if be then v else intrev64 be v)"

definition ntohu64 :: "bool \<Rightarrow> int \<Rightarrow> int" where
  "ntohu64 be v = (if be then v else intrev64 be v)"

lemma length_2_conv: "length x = 2 \<longleftrightarrow> (\<exists>a b. x = [a, b])"
  by (auto simp: numeral_2_eq_2 length_Suc_conv)

lemma length_4_conv: "length x = 4 \<longleftrightarrow> (\<exists>a b c d. x = [a, b, c, d])"
  by (auto simp: eval_nat_numeral length_Suc_conv)

lemma length_8_conv:
  "length x = 8 \<longleftrightarrow> (\<exists>a b c d e f g h. x = [a, b, c, d, e, f, g, h])"
  by (auto simp: eval_nat_numeral length_Suc_conv)

lemma memrev16_rev: "length x = 2 \<Longrightarrow> memrev16 x = rev x"
  by (auto simp: length_2_conv memrev16_def swap_bytes_def)

lemma memrev32_rev: "length x = 4 \<Longrightarrow> memrev32 x = rev x"
  by (auto simp: length_4_conv memrev32_def swap_bytes_def)

lemma memrev64_rev: "length x = 8 \<Longrightarrow> memrev64 x = rev x"
  by (auto simp: length_8_conv memrev64_def swap_bytes_def)

lemmas memrev_rev = memrev16_rev memrev32_rev memrev64_rev

lemma length_host_order [simp]: "length (host_order be bs) = length bs"
  by (simp add: host_order_def)

lemma host_order_twice [simp]: "host_order be (host_order be bs) = bs"
  by (simp add: host_order_def)

lemma length_mem_store [simp]: "length (mem_store be n v) = n"
  by (simp add: mem_store_def)

lemma memrevifbe_host_order:
  "length x = 2 \<Longrightarrow> memrev16ifbe be x = host_order be x"
  "length x = 4 \<Longrightarrow> memrev32ifbe be x = host_order be x"
  "length x = 8 \<Longrightarrow> memrev64ifbe be x = host_order be x"
  by (simp_all add: memrev16ifbe_def memrev32ifbe_def memrev64ifbe_def host_order_def memrev_rev)

text \<open>Reversing an integer does not depend on the host, and is its own inverse.\<close>

lemma intrev_value:
  "intrev16 be v = le_val (rev (le_bytes 2 v))"
  "intrev32 be v = le_val (rev (le_bytes 4 v))"
  "intrev64 be v = le_val (rev (le_bytes 8 v))"
  by (simp_all add: intrev16_def intrev32_def intrev64_def mem_load_def mem_store_def memrev_rev
      host_order_def)

lemma le_bytes_le_val_n: "length bs = n \<Longrightarrow> le_bytes n (le_val bs) = bs"
  using le_bytes_le_val by auto

lemma intrev_intrev:
  "intrev16 be (intrev16 be v) = v mod 2 ^ 16"
  "intrev32 be (intrev32 be v) = v mod 2 ^ 32"
  "intrev64 be (intrev64 be v) = v mod 2 ^ 64"
  by (simp_all add: intrev_value le_bytes_le_val_n le_val_le_bytes)

lemma intrev32ifbe_twice [simp]:
  "0 \<le> v \<Longrightarrow> v < 2 ^ 32 \<Longrightarrow> intrev32ifbe be (intrev32ifbe be v) = v"
  by (simp add: intrev32ifbe_def intrev_intrev)

section \<open>Properties\<close>

text \<open>
  C35: network order. The bytes in memory of \<open>htonu64 v\<close> are the big-endian bytes of \<open>v\<close> on
  every host, and \<open>ntohu64\<close> undoes it for every 64-bit value.
\<close>

theorem htonu64_network_order:
  "mem_store be 8 (htonu64 be v) = rev (le_bytes 8 v) \<and>
   ntohu64 be (htonu64 be v) mod 2 ^ 64 = v mod 2 ^ 64"
  by (simp add: htonu64_def ntohu64_def mem_store_def host_order_def intrev_value
      le_bytes_le_val_n le_val_le_bytes)

end
