(* ===== verification/SetStore.thy ===== *)
theory SetStore
  imports RedisPrelude
begin

text \<open>
  The interface of a mutable set of values, as the set commands use one: an insertion that
  reports whether the value is new, a removal that reports whether it was there, and a
  membership test. The locale states the laws a provider promises; the lemmas about sequences
  of operations are proved once from them. Providers: the integer set of \<open>src/intset.c\<close> and
  the set object of \<open>src/t_set.c\<close>.
\<close>

datatype 'a set_op = SAdd 'a | SRem 'a

text \<open>The abstract effect of a sequence of operations, and its answers.\<close>

fun set_spec :: "'a set \<Rightarrow> 'a set_op list \<Rightarrow> 'a set" where
  "set_spec S [] = S"
| "set_spec S (SAdd v # ops) = set_spec (insert v S) ops"
| "set_spec S (SRem v # ops) = set_spec (S - {v}) ops"

fun set_answers :: "'a set \<Rightarrow> 'a set_op list \<Rightarrow> bool list" where
  "set_answers S [] = []"
| "set_answers S (SAdd v # ops) = (v \<notin> S) # set_answers (insert v S) ops"
| "set_answers S (SRem v # ops) = (v \<in> S) # set_answers (S - {v}) ops"

text \<open>The same sequence run on a provider.\<close>

fun store_run :: "('a \<Rightarrow> 's \<Rightarrow> 's \<times> bool) \<Rightarrow> ('a \<Rightarrow> 's \<Rightarrow> 's \<times> bool) \<Rightarrow> 's \<Rightarrow> 'a set_op list \<Rightarrow>
    's \<times> bool list" where
  "store_run add rem s [] = (s, [])"
| "store_run add rem s (SAdd v # ops) =
     (let (s, b) = add v s; (s, bs) = store_run add rem s ops in (s, b # bs))"
| "store_run add rem s (SRem v # ops) =
     (let (s, b) = rem v s; (s, bs) = store_run add rem s ops in (s, b # bs))"

text \<open>
  Providers whose operations may fail (a failed assertion, a write outside of an allocation): a
  failure stops the program, the state after it is \<open>None\<close>.
\<close>

definition guard_op :: "('s \<Rightarrow> 'a \<Rightarrow> ('s \<times> bool) option) \<Rightarrow> 'a \<Rightarrow> 's option \<Rightarrow> 's option \<times> bool" where
  "guard_op f v s =
     (case Option.bind s (\<lambda>s. f s v) of None \<Rightarrow> (None, False) | Some (s, b) \<Rightarrow> (Some s, b))"

lemma guard_op_Some: "f s v = Some (s', b) \<Longrightarrow> guard_op f v (Some s) = (Some s', b)"
  by (simp add: guard_op_def)

fun op_value :: "'a set_op \<Rightarrow> 'a" where
  "op_value (SAdd v) = v"
| "op_value (SRem v) = v"

lemma finite_set_spec: "finite S \<Longrightarrow> finite (set_spec S ops)"
  by (induction S ops rule: set_spec.induct) auto

lemma card_set_spec: "finite S \<Longrightarrow> card (set_spec S ops) \<le> card S + length ops"
proof (induction S ops rule: set_spec.induct)
  case (2 S v ops)
  have "card (set_spec (insert v S) ops) \<le> card (insert v S) + length ops"
    using "2.IH" "2.prems" by simp
  also have "card (insert v S) \<le> Suc (card S)"
    using "2.prems" by (simp add: card_insert_if)
  finally show ?case by simp
next
  case (3 S v ops)
  have "card (set_spec (S - {v}) ops) \<le> card (S - {v}) + length ops"
    using "3.IH" "3.prems" by simp
  also have "card (S - {v}) \<le> card S" using "3.prems" by (simp add: card_Diff1_le)
  finally show ?case by simp
qed simp

locale set_store =
  fixes ok :: "'s \<Rightarrow> bool"
    and els :: "'s \<Rightarrow> 'a set"
    and valid :: "'a \<Rightarrow> bool"
    and capacity :: nat
    and add :: "'a \<Rightarrow> 's \<Rightarrow> 's \<times> bool"
    and rem :: "'a \<Rightarrow> 's \<Rightarrow> 's \<times> bool"
    and mem :: "'s \<Rightarrow> 'a \<Rightarrow> bool"
  assumes els_finite: "ok s \<Longrightarrow> finite (els s)"
    and add_law: "\<lbrakk>ok s; valid v; card (els s) < capacity\<rbrakk> \<Longrightarrow>
      ok (fst (add v s)) \<and> els (fst (add v s)) = insert v (els s) \<and> snd (add v s) = (v \<notin> els s)"
    and rem_law: "\<lbrakk>ok s; valid v; card (els s) \<le> capacity\<rbrakk> \<Longrightarrow>
      ok (fst (rem v s)) \<and> els (fst (rem v s)) = els s - {v} \<and> snd (rem v s) = (v \<in> els s)"
    and mem_law: "\<lbrakk>ok s; valid v\<rbrakk> \<Longrightarrow> mem s v = (v \<in> els s)"
begin

lemma run_law:
  "\<lbrakk>ok s; \<forall>q\<in>set ops. valid (op_value q); card (els s) + length ops \<le> capacity\<rbrakk> \<Longrightarrow>
   ok (fst (store_run add rem s ops)) \<and>
   els (fst (store_run add rem s ops)) = set_spec (els s) ops \<and>
   snd (store_run add rem s ops) = set_answers (els s) ops"
proof (induction ops arbitrary: s)
  case (Cons q ops)
  show ?case
  proof (cases q)
    case (SAdd v)
    then have a: "ok (fst (add v s))" "els (fst (add v s)) = insert v (els s)"
        "snd (add v s) = (v \<notin> els s)"
      using add_law [of s v] Cons.prems by auto
    have "card (els (fst (add v s))) + length ops \<le> capacity"
      using a(2) Cons.prems els_finite [OF Cons.prems(1)] by (simp add: card_insert_if)
    with Cons.IH [OF a(1)] Cons.prems(2) a SAdd show ?thesis
      by (simp add: Let_def case_prod_beta)
  next
    case (SRem v)
    then have a: "ok (fst (rem v s))" "els (fst (rem v s)) = els s - {v}"
        "snd (rem v s) = (v \<in> els s)"
      using rem_law [of s v] Cons.prems by auto
    have "card (els s - {v}) \<le> card (els s)" by (rule card_Diff1_le)
    then have "card (els (fst (rem v s))) + length ops \<le> capacity"
      using a(2) Cons.prems by simp
    with Cons.IH [OF a(1)] Cons.prems(2) a SRem show ?thesis
      by (simp add: Let_def case_prod_beta)
  qed
qed simp

lemma mem_after_add:
  "\<lbrakk>ok s; valid v; valid w; card (els s) < capacity\<rbrakk> \<Longrightarrow>
   mem (fst (add v s)) w = (w = v \<or> mem s w)"
  using add_law [of s v] mem_law [of "fst (add v s)" w] mem_law [of s w] by simp

end

end
