(* ===== verification/Intset.thy ===== *)
theory Intset
  imports Endian SetStore
begin

text \<open>
  Integer sets: \<open>src/intset.c\<close>. The header fields are the 32-bit values the host holds (stored
  through \<open>intrev32ifbe\<close>), the flexible array is its bytes; every access goes through the byte
  reversals of the source, so the host's byte order \<open>be\<close> is an argument. \<open>zrealloc\<close> leaves a
  grown area with unknown bytes: they are the argument \<open>junk\<close>. A write or a move outside of the
  allocated array is \<open>None\<close>.
\<close>

section \<open>Raw memory\<close>

definition bytes_at :: "bytes \<Rightarrow> nat \<Rightarrow> nat \<Rightarrow> bytes" where
  "bytes_at c off n = take n (drop off c)"

definition patch :: "bytes \<Rightarrow> nat \<Rightarrow> bytes \<Rightarrow> bytes" where
  "patch c off bs = take off c @ bs @ drop (off + length bs) c"

text \<open>\<open>None\<close>: the bytes do not lie within the allocated array.\<close>

definition write_at :: "bytes \<Rightarrow> nat \<Rightarrow> bytes \<Rightarrow> bytes option" where
  "write_at c off bs = (if off + length bs \<le> length c then Some (patch c off bs) else None)"

definition memmove :: "bytes \<Rightarrow> nat \<Rightarrow> nat \<Rightarrow> nat \<Rightarrow> bytes option" where
  "memmove c dst src n =
     (if src + n \<le> length c then write_at c dst (bytes_at c src n) else None)"

definition realloc_bytes :: "(nat \<Rightarrow> u8) \<Rightarrow> nat \<Rightarrow> bytes \<Rightarrow> bytes" where
  "realloc_bytes junk n c = take n c @ map junk [length c..<n]"

lemma length_bytes_at: "off + n \<le> length c \<Longrightarrow> length (bytes_at c off n) = n"
  by (simp add: bytes_at_def)

lemma length_patch: "off + length bs \<le> length c \<Longrightarrow> length (patch c off bs) = length c"
  by (simp add: patch_def)

lemma bytes_at_patch_same: "off \<le> length c \<Longrightarrow> bytes_at (patch c off bs) off (length bs) = bs"
  by (simp add: patch_def bytes_at_def)

lemma patch_patch:
  "off \<le> length c \<Longrightarrow> length a = length b \<Longrightarrow> patch (patch c off a) off b = patch c off b"
  by (simp add: patch_def)

lemma length_realloc [simp]: "length (realloc_bytes junk n c) = n"
  by (simp add: realloc_bytes_def min_def)

section \<open>State and operations\<close>

record intset =
  is_encoding :: int
  is_length :: int
  is_contents :: bytes

definition INTSET_ENC_INT16 :: int where "INTSET_ENC_INT16 = 2"
definition INTSET_ENC_INT32 :: int where "INTSET_ENC_INT32 = 4"
definition INTSET_ENC_INT64 :: int where "INTSET_ENC_INT64 = 8"

definition intsetValueEncoding :: "int \<Rightarrow> int" where
  "intsetValueEncoding v =
     (if v < - 2147483648 \<or> v > 2147483647 then INTSET_ENC_INT64
      else if v < - 32768 \<or> v > 32767 then INTSET_ENC_INT32
      else INTSET_ENC_INT16)"

definition intsetGetEncoded :: "bool \<Rightarrow> intset \<Rightarrow> int \<Rightarrow> int \<Rightarrow> int" where
  "intsetGetEncoded be is pos enc =
     (if enc = INTSET_ENC_INT64 then
        mem_sload be (memrev64ifbe be (bytes_at (is_contents is) (nat pos * 8) 8))
      else if enc = INTSET_ENC_INT32 then
        mem_sload be (memrev32ifbe be (bytes_at (is_contents is) (nat pos * 4) 4))
      else
        mem_sload be (memrev16ifbe be (bytes_at (is_contents is) (nat pos * 2) 2)))"

definition intsetGetAt :: "bool \<Rightarrow> intset \<Rightarrow> int \<Rightarrow> int" where
  "intsetGetAt be is pos = intsetGetEncoded be is pos (intrev32ifbe be (is_encoding is))"

text \<open>The assignment in host order, then the reversal of the element just written.\<close>

definition store_rev :: "(bytes \<Rightarrow> bytes) \<Rightarrow> bytes \<Rightarrow> nat \<Rightarrow> bytes \<Rightarrow> bytes option" where
  "store_rev memrev c off bs =
     Option.bind (write_at c off bs) (\<lambda>c. write_at c off (memrev (bytes_at c off (length bs))))"

definition intsetSetAt :: "bool \<Rightarrow> intset \<Rightarrow> int \<Rightarrow> int \<Rightarrow> intset option" where
  "intsetSetAt be is pos v =
     (let encoding = intrev32ifbe be (is_encoding is); p = nat pos; c = is_contents is
      in map_option (\<lambda>c. is\<lparr>is_contents := c\<rparr>)
           (if encoding = INTSET_ENC_INT64 then store_rev (memrev64ifbe be) c (p * 8) (mem_store be 8 v)
            else if encoding = INTSET_ENC_INT32 then store_rev (memrev32ifbe be) c (p * 4) (mem_store be 4 v)
            else store_rev (memrev16ifbe be) c (p * 2) (mem_store be 2 v)))"

definition intsetNew :: "bool \<Rightarrow> intset" where
  "intsetNew be =
     \<lparr>is_encoding = intrev32ifbe be INTSET_ENC_INT16, is_length = 0, is_contents = []\<rparr>"

definition intsetResize :: "bool \<Rightarrow> (nat \<Rightarrow> u8) \<Rightarrow> intset \<Rightarrow> int \<Rightarrow> intset" where
  "intsetResize be junk is len =
     (let size = (len * intrev32ifbe be (is_encoding is)) mod 2 ^ 32
      in is\<lparr>is_contents := realloc_bytes junk (nat size) (is_contents is)\<rparr>)"

text \<open>
  The binary search loop; its result is the final \<open>min\<close>, \<open>mid\<close> and \<open>cur\<close>. These are 32-bit
  ints. \<open>max\<close> starts as the length less one, converted to an int (\<open>to_int32\<close>); from then on
  \<open>0 \<le> min\<close> and \<open>max < 2 ^ 31\<close>, the sum is computed unsigned, and nothing wraps
  (\<open>search_mid_int32\<close>).
\<close>

definition to_int32 :: "int \<Rightarrow> int" where
  "to_int32 x = (x + 2 ^ 31) mod 2 ^ 32 - 2 ^ 31"

lemma to_int32_id: "\<lbrakk>- (2 ^ 31) \<le> x; x < 2 ^ 31\<rbrakk> \<Longrightarrow> to_int32 x = x"
  by (simp add: to_int32_def)

lemma search_mid_int32:
  fixes mn mx :: int
  assumes "0 \<le> mn" "mn \<le> mx" "mx < 2 ^ 31"
  shows "(mn mod 2 ^ 32 + mx mod 2 ^ 32) mod 2 ^ 32 div 2 = (mn + mx) div 2"
    "0 \<le> (mn + mx) div 2" "(mn + mx) div 2 < 2 ^ 31" "- 1 \<le> (mn + mx) div 2 - 1"
  using assms by simp_all

function intsetSearchLoop :: "bool \<Rightarrow> intset \<Rightarrow> int \<Rightarrow> int \<Rightarrow> int \<Rightarrow> int \<Rightarrow> int \<Rightarrow> int \<times> int \<times> int" where
  "intsetSearchLoop be is v mn mx mid cur =
     (if mx \<ge> mn then
        let mid = (mn + mx) div 2; cur = intsetGetAt be is mid
        in if v > cur then intsetSearchLoop be is v (mid + 1) mx mid cur
           else if v < cur then intsetSearchLoop be is v mn (mid - 1) mid cur
           else (mn, mid, cur)
      else (mn, mid, cur))"
  by pat_completeness auto
termination
  by (relation "measure (\<lambda>(be, is, v, mn, mx, mid, cur). nat (mx - mn + 1))") auto

declare intsetSearchLoop.simps [simp del]

definition intsetSearch :: "bool \<Rightarrow> intset \<Rightarrow> int \<Rightarrow> bool \<times> int" where
  "intsetSearch be is v =
     (let mx = to_int32 (intrev32ifbe be (is_length is) - 1)
      in if intrev32ifbe be (is_length is) = 0 then (False, 0)
         else if v > intsetGetAt be is mx then (False, intrev32ifbe be (is_length is))
         else if v < intsetGetAt be is 0 then (False, 0)
         else let (mn, mid, cur) = intsetSearchLoop be is v 0 mx (- 1) (- 1)
              in if v = cur then (True, mid) else (False, mn))"

fun intsetUpgradeLoop :: "bool \<Rightarrow> int \<Rightarrow> int \<Rightarrow> nat \<Rightarrow> intset \<Rightarrow> intset option" where
  "intsetUpgradeLoop be curenc prepend 0 is = Some is"
| "intsetUpgradeLoop be curenc prepend (Suc n) is =
     Option.bind (intsetSetAt be is (int n + prepend) (intsetGetEncoded be is (int n) curenc))
       (intsetUpgradeLoop be curenc prepend n)"

text \<open>The length is held in an int; a negative one would count down through the indices below 0.\<close>

definition intsetUpgradeAndAdd :: "bool \<Rightarrow> (nat \<Rightarrow> u8) \<Rightarrow> intset \<Rightarrow> int \<Rightarrow> intset option" where
  "intsetUpgradeAndAdd be junk is v =
     (let curenc = intrev32ifbe be (is_encoding is);
          newenc = intsetValueEncoding v;
          len = to_int32 (intrev32ifbe be (is_length is));
          prepend = (if v < 0 then 1 else 0);
          is = is\<lparr>is_encoding := intrev32ifbe be newenc\<rparr>;
          is = intsetResize be junk is (intrev32ifbe be (is_length is) + 1)
      in if len < 0 then None
         else
           Option.bind (intsetUpgradeLoop be curenc prepend (nat len) is) (\<lambda>is.
           Option.bind (if prepend = 1 then intsetSetAt be is 0 v
                        else intsetSetAt be is (intrev32ifbe be (is_length is)) v) (\<lambda>is.
           Some (is\<lparr>is_length := intrev32ifbe be (intrev32ifbe be (is_length is) + 1)\<rparr>))))"

definition intsetMoveTail :: "bool \<Rightarrow> intset \<Rightarrow> int \<Rightarrow> int \<Rightarrow> intset option" where
  "intsetMoveTail be is from to =
     (let bytes = (intrev32ifbe be (is_length is) - from) mod 2 ^ 32;
          encoding = intrev32ifbe be (is_encoding is);
          w = (if encoding = INTSET_ENC_INT64 then 8
               else if encoding = INTSET_ENC_INT32 then 4 else 2);
          bytes = (bytes * w) mod 2 ^ 32
      in map_option (\<lambda>c. is\<lparr>is_contents := c\<rparr>)
           (memmove (is_contents is) (nat (to * w)) (nat (from * w)) (nat bytes)))"

definition intsetAdd :: "bool \<Rightarrow> (nat \<Rightarrow> u8) \<Rightarrow> intset \<Rightarrow> int \<Rightarrow> (intset \<times> bool) option" where
  "intsetAdd be junk is v =
     (let valenc = intsetValueEncoding v
      in if valenc > intrev32ifbe be (is_encoding is) then
           map_option (\<lambda>is. (is, True)) (intsetUpgradeAndAdd be junk is v)
         else
           let (found, pos) = intsetSearch be is v
           in if found then Some (is, False)
              else
                let is = intsetResize be junk is (intrev32ifbe be (is_length is) + 1)
                in Option.bind (if pos < intrev32ifbe be (is_length is)
                                then intsetMoveTail be is pos (pos + 1) else Some is) (\<lambda>is.
                   Option.bind (intsetSetAt be is pos v) (\<lambda>is.
                   Some (is\<lparr>is_length := intrev32ifbe be (intrev32ifbe be (is_length is) + 1)\<rparr>, True))))"

definition intsetRemove :: "bool \<Rightarrow> (nat \<Rightarrow> u8) \<Rightarrow> intset \<Rightarrow> int \<Rightarrow> (intset \<times> bool) option" where
  "intsetRemove be junk is v =
     (let valenc = intsetValueEncoding v;
          (found, pos) = intsetSearch be is v
      in if valenc \<le> intrev32ifbe be (is_encoding is) \<and> found then
           let len = intrev32ifbe be (is_length is)
           in Option.bind (if pos < len - 1 then intsetMoveTail be is (pos + 1) pos else Some is) (\<lambda>is.
              let is = intsetResize be junk is (len - 1)
              in Some (is\<lparr>is_length := intrev32ifbe be (len - 1)\<rparr>, True))
         else Some (is, False))"

definition intsetFind :: "bool \<Rightarrow> intset \<Rightarrow> int \<Rightarrow> bool" where
  "intsetFind be is v \<longleftrightarrow>
     intsetValueEncoding v \<le> intrev32ifbe be (is_encoding is) \<and> fst (intsetSearch be is v)"

text \<open>\<open>rnd\<close> is what \<open>rand()\<close> returns.\<close>

definition intsetRandom :: "bool \<Rightarrow> int \<Rightarrow> intset \<Rightarrow> int" where
  "intsetRandom be rnd is = intsetGetAt be is (rnd mod intrev32ifbe be (is_length is))"

definition intsetGet :: "bool \<Rightarrow> intset \<Rightarrow> int \<Rightarrow> int option" where
  "intsetGet be is pos =
     (if pos < intrev32ifbe be (is_length is) then Some (intsetGetAt be is pos) else None)"

definition intsetLen :: "bool \<Rightarrow> intset \<Rightarrow> int" where
  "intsetLen be is = intrev32ifbe be (is_length is)"

definition intsetBlobLen :: "bool \<Rightarrow> intset \<Rightarrow> int" where
  "intsetBlobLen be is =
     8 + (intrev32ifbe be (is_length is) * intrev32ifbe be (is_encoding is)) mod 2 ^ 32"

section \<open>Arrays of encoded integers\<close>

definition enc_list :: "nat \<Rightarrow> int list \<Rightarrow> bytes" where
  "enc_list n vs = concat (map (le_bytes n) vs)"

lemma enc_list_simps [simp]:
  "enc_list n [] = []" "enc_list n (v # vs) = le_bytes n v @ enc_list n vs"
  "enc_list n (us @ vs) = enc_list n us @ enc_list n vs"
  by (simp_all add: enc_list_def)

lemma length_enc_list [simp]: "length (enc_list n vs) = length vs * n"
  by (induction vs) auto

lemma enc_list_split:
  "i < length vs \<Longrightarrow> enc_list n vs =
     enc_list n (take i vs) @ le_bytes n (vs ! i) @ enc_list n (drop (Suc i) vs)"
  by (subst id_take_nth_drop [of i vs]) simp_all

lemma drop_enc_list: "drop (i * n) (enc_list n vs) = enc_list n (drop i vs)"
proof (induction vs arbitrary: i)
  case (Cons v vs)
  then show ?case by (cases i) simp_all
qed simp

lemma take_enc_list: "take (i * n) (enc_list n vs) = enc_list n (take i vs)"
proof (induction vs arbitrary: i)
  case (Cons v vs)
  then show ?case by (cases i) simp_all
qed simp

lemma bytes_at_enc_list: "i < length vs \<Longrightarrow> bytes_at (enc_list n vs) (i * n) n = le_bytes n (vs ! i)"
  by (simp add: bytes_at_def drop_enc_list Cons_nth_drop_Suc [symmetric])

lemma patch_enc_list:
  "i < length vs \<Longrightarrow> patch (enc_list n vs) (i * n) (le_bytes n v) = enc_list n (vs[i := v])"
proof -
  assume i: "i < length vs"
  have "i * n + n = Suc i * n" by simp
  then show ?thesis using i
    by (simp only: patch_def length_le_bytes take_enc_list drop_enc_list)
      (simp add: upd_conv_take_nth_drop)
qed

text \<open>Any run of bytes of the right length is an array of some values in range.\<close>

lemma enc_list_surj:
  assumes "0 < n" "length bs = k * n"
  shows "\<exists>vs. length vs = k \<and> bs = enc_list n vs \<and> (\<forall>v\<in>set vs. fits n v)"
  using assms(2)
proof (induction k arbitrary: bs)
  case (Suc k)
  then have "length (drop n bs) = k * n" by simp
  from Suc.IH [OF this] obtain vs
    where vs: "length vs = k" "drop n bs = enc_list n vs" "\<forall>v\<in>set vs. fits n v" by blast
  have len: "length (take n bs) = n" using Suc.prems by simp
  have "bs = take n bs @ drop n bs" by simp
  also have "\<dots> = enc_list n (le_sval (take n bs) # vs)"
    using vs(2) le_bytes_le_sval [of "take n bs", unfolded len, OF assms(1)]
    by (simp only: enc_list_simps)
  finally show ?case using vs le_sval_fits [of "take n bs"] len
    by (intro exI [of _ "le_sval (take n bs) # vs"]) simp
qed simp

lemma enc_list_inject:
  assumes "0 < n" "\<forall>v\<in>set us. fits n v" "\<forall>v\<in>set vs. fits n v" "enc_list n us = enc_list n vs"
  shows "us = vs"
proof -
  have len: "length us = length vs"
    using arg_cong [OF assms(4), of length] assms(1) by simp
  show ?thesis
  proof (rule nth_equalityI [OF len])
    fix i assume i: "i < length us"
    have "le_bytes n (us ! i) = bytes_at (enc_list n us) (i * n) n"
      using i by (rule bytes_at_enc_list [symmetric])
    also have "\<dots> = bytes_at (enc_list n vs) (i * n) n" by (simp only: assms(4))
    also have "\<dots> = le_bytes n (vs ! i)" using i len by (intro bytes_at_enc_list) simp
    finally have "le_sval (le_bytes n (us ! i)) = le_sval (le_bytes n (vs ! i))" by (rule arg_cong)
    moreover have "fits n (us ! i)" "fits n (vs ! i)" using assms(2,3) i len by simp_all
    ultimately show "us ! i = vs ! i" using le_sval_le_bytes [OF assms(1)] by metis
  qed
qed

section \<open>Representation of a list of values\<close>

text \<open>
  \<open>is_raw be n is vs\<close>: the header holds the element width \<open>n\<close> and the array is the encoding of
  \<open>vs\<close>, with every value in the range of the width.
\<close>

definition is_raw :: "bool \<Rightarrow> nat \<Rightarrow> intset \<Rightarrow> int list \<Rightarrow> bool" where
  "is_raw be n is vs \<longleftrightarrow>
     is_encoding is = intrev32ifbe be (int n) \<and> (n = 2 \<or> n = 4 \<or> n = 8) \<and>
     is_contents is = enc_list n vs \<and> (\<forall>v\<in>set vs. fits n v)"

lemmas enc_defs = INTSET_ENC_INT16_def INTSET_ENC_INT32_def INTSET_ENC_INT64_def

lemma is_raw_encoding: "is_raw be n is vs \<Longrightarrow> intrev32ifbe be (is_encoding is) = int n"
  by (auto simp: is_raw_def)

lemma is_raw_width: "is_raw be n is vs \<Longrightarrow> n = 2 \<or> n = 4 \<or> n = 8"
  by (auto simp: is_raw_def)

lemma sload_order:
  "length bs = 2 \<Longrightarrow> mem_sload be (memrev16ifbe be bs) = le_sval bs"
  "length bs = 4 \<Longrightarrow> mem_sload be (memrev32ifbe be bs) = le_sval bs"
  "length bs = 8 \<Longrightarrow> mem_sload be (memrev64ifbe be bs) = le_sval bs"
  by (simp_all add: mem_sload_def memrevifbe_host_order)

lemma getEncoded_enc_list:
  assumes "is_contents is = enc_list n vs @ rest" "n = 2 \<or> n = 4 \<or> n = 8" "i < length vs"
    "fits n (vs ! i)"
  shows "intsetGetEncoded be is (int i) (int n) = vs ! i"
proof -
  have "i * n + n \<le> length vs * n"
    using assms(3) by (metis Suc_leI add.commute mult_Suc mult_le_mono1)
  then have "bytes_at (is_contents is) (i * n) n = bytes_at (enc_list n vs) (i * n) n"
    using assms(1) by (simp add: bytes_at_def)
  then have "bytes_at (is_contents is) (i * n) n = le_bytes n (vs ! i)"
    using assms(3) by (simp add: bytes_at_enc_list)
  moreover have "le_sval (le_bytes n (vs ! i)) = vs ! i"
    using assms(2,4) by (intro le_sval_le_bytes) auto
  ultimately show ?thesis using assms(2)
    by (elim disjE) (simp_all add: intsetGetEncoded_def enc_defs sload_order)
qed

lemma is_raw_get:
  "is_raw be n is vs \<Longrightarrow> i < length vs \<Longrightarrow> intsetGetAt be is (int i) = vs ! i"
  using getEncoded_enc_list [of "is" n vs "[]" i be]
  by (auto simp: intsetGetAt_def is_raw_def)

lemma store_rev_eq:
  assumes "off + length bs \<le> length c" "length (memrev bs) = length bs"
  shows "store_rev memrev c off bs = Some (patch c off (memrev bs))"
  using assms by (simp add: store_rev_def write_at_def length_patch bytes_at_patch_same patch_patch)

lemma set_at_contents:
  assumes "intrev32ifbe be (is_encoding is) = int n" "n = 2 \<or> n = 4 \<or> n = 8"
    "i * n + n \<le> length (is_contents is)"
  shows "intsetSetAt be is (int i) v =
     Some (is\<lparr>is_contents := patch (is_contents is) (i * n) (le_bytes n v)\<rparr>)"
proof -
  have "host_order be (mem_store be n v) = le_bytes n v" by (simp add: mem_store_def)
  then show ?thesis using assms
    by (elim disjE) (simp_all add: intsetSetAt_def enc_defs memrevifbe_host_order store_rev_eq)
qed

lemma is_raw_set:
  assumes "is_raw be n is vs" "i < length vs" "fits n v"
  shows "\<exists>is'. intsetSetAt be is (int i) v = Some is' \<and> is_raw be n is' (vs[i := v]) \<and>
    is_length is' = is_length is"
proof -
  have "i * n + n \<le> length vs * n"
    using assms(2) by (metis Suc_leI add.commute mult_Suc mult_le_mono1)
  then have "intsetSetAt be is (int i) v =
      Some (is\<lparr>is_contents := patch (is_contents is) (i * n) (le_bytes n v)\<rparr>)"
    using assms by (intro set_at_contents) (auto simp: is_raw_def)
  then show ?thesis
    using assms by (auto simp: is_raw_def patch_enc_list dest: set_update_subset_insert [THEN subsetD])
qed

lemma nat_wrap32: "a < 2 ^ 32 \<Longrightarrow> nat (int a mod 2 ^ 32) = a"
  by (simp add: nat_mod_as_int [symmetric] zmod_int [symmetric] del: of_nat_power)

lemma is_raw_grow:
  assumes "is_raw be n is vs" "(length vs + 1) * n < 2 ^ 32"
  shows "\<exists>x. is_raw be n (intsetResize be junk is (int (length vs) + 1)) (vs @ [x])"
proof -
  let ?c = "realloc_bytes junk ((length vs + 1) * n) (is_contents is)"
  have n: "0 < n" "intrev32ifbe be (is_encoding is) = int n"
    using assms by (auto simp: is_raw_def)
  have "(int (length vs) + 1) * int n = int ((length vs + 1) * n)" by (simp add: algebra_simps)
  then have "nat (((int (length vs) + 1) * int n) mod 2 ^ 32) = (length vs + 1) * n"
    using nat_wrap32 [OF assms(2)] by presburger
  then have r: "intsetResize be junk is (int (length vs) + 1) = is\<lparr>is_contents := ?c\<rparr>"
    using n by (simp add: intsetResize_def)
  have "take (length vs * n) ?c = enc_list n vs"
    using assms(1) by (simp add: realloc_bytes_def is_raw_def)
  moreover obtain xs where xs: "length xs = 1" "drop (length vs * n) ?c = enc_list n xs"
      "\<forall>v\<in>set xs. fits n v"
    using enc_list_surj [of n "drop (length vs * n) ?c" 1] n(1) by auto
  ultimately have "?c = enc_list n (vs @ xs)"
    by (metis append_take_drop_id enc_list_simps(3))
  moreover obtain x where "xs = [x]" using xs(1) by (auto simp: length_Suc_conv)
  ultimately have "is_raw be n (is\<lparr>is_contents := ?c\<rparr>) (vs @ [x])"
    using assms(1) xs(3) by (auto simp: is_raw_def)
  then show ?thesis using r by auto
qed

lemma is_raw_shrink:
  assumes "is_raw be n is vs" "k \<le> length vs" "length vs * n < 2 ^ 32"
  shows "is_raw be n (intsetResize be junk is (int k)) (take k vs)"
proof -
  have "k * n \<le> length vs * n" using assms(2) by simp
  then have "nat ((int k * int n) mod 2 ^ 32) = k * n"
    using nat_wrap32 [OF le_less_trans [OF \<open>k * n \<le> length vs * n\<close> assms(3)]] by simp
  then have "intsetResize be junk is (int k) =
      is\<lparr>is_contents := realloc_bytes junk (k * n) (is_contents is)\<rparr>"
    by (simp add: intsetResize_def is_raw_encoding [OF assms(1)])
  then show ?thesis
    using assms(1) \<open>k * n \<le> length vs * n\<close>
    by (auto simp: is_raw_def realloc_bytes_def take_enc_list simp del: mult_le_cancel2
        dest: in_set_takeD)
qed

lemma is_raw_moveTail:
  assumes raw: "is_raw be n is ws"
    and len: "intrev32ifbe be (is_length is) = int l"
    and bounds: "from \<le> l" "l \<le> length ws" "to + (l - from) \<le> length ws" "length ws * n < 2 ^ 32"
  shows "\<exists>is'. intsetMoveTail be is (int from) (int to) = Some is' \<and>
    is_raw be n is' (take to ws @ take (l - from) (drop from ws) @ drop (to + (l - from)) ws) \<and>
    is_length is' = is_length is"
proof -
  let ?w = "if int n = INTSET_ENC_INT64 then 8 else if int n = INTSET_ENC_INT32 then 4 else 2 :: int"
  have w: "?w = int n" using is_raw_width [OF raw] by (auto simp: enc_defs)
  have n: "0 < n" using is_raw_width [OF raw] by auto
  let ?mid = "take (l - from) (drop from ws)"
  have "(l - from) * n \<le> length ws * n" using bounds by (intro mult_le_mono1) linarith
  then have c32: "(l - from) * n < 2 ^ 32" using bounds(4) by (rule le_less_trans)
  have "l - from \<le> (l - from) * n" using n by simp
  then have "l - from < 2 ^ 32" using c32 by (rule le_less_trans)
  then have "((int l - int from) mod 2 ^ 32 * int n) mod 2 ^ 32 = int ((l - from) * n) mod 2 ^ 32"
    using bounds(1) by (simp add: of_nat_diff)
  then have cnt: "nat (((int l - int from) mod 2 ^ 32 * int n) mod 2 ^ 32) = (l - from) * n"
    using nat_wrap32 [OF c32] by simp
  have off: "nat (int to * int n) = to * n" "nat (int from * int n) = from * n"
    by (simp_all add: nat_mult_distrib)
  have mv: "intsetMoveTail be is (int from) (int to) = map_option (\<lambda>c. is\<lparr>is_contents := c\<rparr>)
      (memmove (is_contents is) (to * n) (from * n) ((l - from) * n))"
    unfolding intsetMoveTail_def Let_def is_raw_encoding [OF raw] len w cnt off by simp
  have "bytes_at (enc_list n ws) (from * n) ((l - from) * n) = enc_list n ?mid"
    by (simp only: bytes_at_def drop_enc_list take_enc_list)
  moreover have "to * n + length (enc_list n ?mid) = (to + (l - from)) * n"
    using bounds by (simp add: algebra_simps)
  moreover have "from * n + (l - from) * n \<le> length (enc_list n ws)"
    "(to + (l - from)) * n \<le> length (enc_list n ws)"
    using bounds by (simp_all add: add_mult_distrib [symmetric])
  ultimately have "memmove (enc_list n ws) (to * n) (from * n) ((l - from) * n) =
      Some (enc_list n (take to ws @ ?mid @ drop (to + (l - from)) ws))"
    by (simp only: memmove_def write_at_def patch_def if_True take_enc_list drop_enc_list enc_list_simps)
  moreover have "\<forall>v\<in>set (take to ws @ ?mid @ drop (to + (l - from)) ws). fits n v"
    using raw by (auto simp: is_raw_def dest: in_set_takeD in_set_dropD)
  ultimately show ?thesis using raw by (simp add: mv is_raw_def)
qed

section \<open>Searching\<close>

definition ins_pos :: "int \<Rightarrow> int list \<Rightarrow> nat" where
  "ins_pos v vs = length (filter (\<lambda>x. x < v) vs)"

lemma sorted_filter_less:
  "sorted vs \<Longrightarrow> i \<le> length vs \<Longrightarrow> \<forall>j<i. vs ! j < v \<Longrightarrow> \<forall>j. i \<le> j \<and> j < length vs \<longrightarrow> v \<le> vs ! j
   \<Longrightarrow> ins_pos v vs = i"
proof -
  assume a: "i \<le> length vs" "\<forall>j<i. vs ! j < v" "\<forall>j. i \<le> j \<and> j < length vs \<longrightarrow> v \<le> vs ! j"
  have "filter (\<lambda>x. x < v) (take i vs) = take i vs"
    using a by (auto simp: filter_id_conv in_set_conv_nth)
  moreover have "filter (\<lambda>x. x < v) (drop i vs) = []"
    using a by (auto simp: filter_empty_conv in_set_conv_nth not_less)
  ultimately have "filter (\<lambda>x. x < v) vs = take i vs"
    by (metis append_Nil2 append_take_drop_id filter_append)
  then show ?thesis using a by (simp add: ins_pos_def)
qed

lemma insort_ins_pos:
  "sorted vs \<Longrightarrow> v \<notin> set vs \<Longrightarrow> insort v vs = take (ins_pos v vs) vs @ v # drop (ins_pos v vs) vs"
proof (induction vs)
  case (Cons x vs)
  show ?case
  proof (cases "x < v")
    case True
    with Cons show ?thesis by (simp add: ins_pos_def)
  next
    case False
    then have "\<forall>y\<in>set (x # vs). \<not> y < v" using Cons.prems by auto
    then have "filter (\<lambda>y. y < v) (x # vs) = []" by (simp add: filter_empty_conv)
    then have "ins_pos v (x # vs) = 0" unfolding ins_pos_def by simp
    moreover have "v \<le> x" using False by simp
    ultimately show ?thesis by simp
  qed
qed (simp add: ins_pos_def)

lemma searchLoop_correct:
  "\<lbrakk>\<And>i. i < length vs \<Longrightarrow> intsetGetAt be is (int i) = vs ! i; sorted_wrt (<) vs;
     0 \<le> mn; mx < int (length vs); mn \<le> mx \<or> (mn = mx + 1 \<and> v \<noteq> cur);
     \<forall>j. int j < mn \<longrightarrow> vs ! j < v; \<forall>j. mx < int j \<and> j < length vs \<longrightarrow> v < vs ! j;
     intsetSearchLoop be is v mn mx mid cur = (mn', mid', cur')\<rbrakk> \<Longrightarrow>
   (if v = cur' then 0 \<le> mid' \<and> mid' < int (length vs) \<and> vs ! nat mid' = v
    else 0 \<le> mn' \<and> mn' \<le> int (length vs) \<and> (\<forall>j. int j < mn' \<longrightarrow> vs ! j < v) \<and>
      (\<forall>j. mn' \<le> int j \<and> j < length vs \<longrightarrow> v < vs ! j))"
proof (induction be "is" v mn mx mid cur rule: intsetSearchLoop.induct)
  case (1 be "is" v mn mx mid cur)
  note prems = "1.prems"
  show ?case
  proof (cases "mn \<le> mx")
    case False
    then have "mn = mx + 1" "v \<noteq> cur" using prems(5) by auto
    moreover have "(mn', mid', cur') = (mn, mid, cur)"
      using prems(8) False by (simp add: intsetSearchLoop.simps)
    ultimately show ?thesis using prems(3,4,6,7) by auto
  next
    case True
    let ?mid = "(mn + mx) div 2"
    have mid: "mn \<le> ?mid" "?mid \<le> mx" "0 \<le> ?mid" "?mid < int (length vs)"
      using True prems(3,4) by auto
    then have nm: "nat ?mid < length vs" by linarith
    then have get: "intsetGetAt be is ?mid = vs ! nat ?mid"
      using prems(1) [of "nat ?mid"] mid by simp
    have mono: "vs ! i < vs ! j" if "i < j" "j < length vs" for i j
      using prems(2) that by (simp add: sorted_wrt_iff_nth_less)
    consider "v > vs ! nat ?mid" | "v < vs ! nat ?mid" | "v = vs ! nat ?mid" by linarith
    then show ?thesis
    proof cases
      case 1
      have a: "\<forall>j. int j < ?mid + 1 \<longrightarrow> vs ! j < v"
      proof (intro allI impI)
        fix j assume "int j < ?mid + 1"
        then have "j = nat ?mid \<or> j < nat ?mid" using mid by linarith
        then show "vs ! j < v" using mono [of j "nat ?mid"] 1 nm by (metis order_less_trans)
      qed
      have lp: "intsetSearchLoop be is v (?mid + 1) mx ?mid (vs ! nat ?mid) = (mn', mid', cur')"
        using prems(8) True 1 get by (subst (asm) intsetSearchLoop.simps) (simp add: Let_def)
      have o: "?mid + 1 \<le> mx \<or> (?mid + 1 = mx + 1 \<and> v \<noteq> vs ! nat ?mid)"
        using mid 1 by linarith
      show ?thesis
        by (rule "1.IH"(1) [OF True refl refl, unfolded get, OF 1 prems(1,2) _ prems(4) o a prems(7) lp])
           (use mid in linarith)+
    next
      case 2
      have a: "\<forall>j. ?mid - 1 < int j \<and> j < length vs \<longrightarrow> v < vs ! j"
      proof (intro allI impI)
        fix j assume j: "?mid - 1 < int j \<and> j < length vs"
        then have "j = nat ?mid \<or> nat ?mid < j" using mid by linarith
        then show "v < vs ! j" using mono [of "nat ?mid" j] 2 j by auto
      qed
      have lp: "intsetSearchLoop be is v mn (?mid - 1) ?mid (vs ! nat ?mid) = (mn', mid', cur')"
        using prems(8) True 2 get by (subst (asm) intsetSearchLoop.simps) (simp add: Let_def)
      have o: "mn \<le> ?mid - 1 \<or> (mn = ?mid - 1 + 1 \<and> v \<noteq> vs ! nat ?mid)"
        using mid 2 by linarith
      show ?thesis
        by (rule "1.IH"(2) [OF True refl refl, unfolded get, OF _ 2 prems(1,2,3) _ o prems(6) a lp])
           (use mid 2 in linarith)+
    next
      case 3
      then have "(mn', mid', cur') = (mn, ?mid, v)"
        using prems(8) True get by (subst (asm) intsetSearchLoop.simps) (auto simp: Let_def)
      then show ?thesis using 3 mid by simp
    qed
  qed
qed

lemma intsetSearch_correct:
  assumes raw: "is_raw be n is vs" and len: "intrev32ifbe be (is_length is) = int (length vs)"
    and vs: "sorted_wrt (<) vs" and i32: "length vs \<le> 2 ^ 31"
  shows "fst (intsetSearch be is v) = (v \<in> set vs) \<and>
    (if v \<in> set vs then 0 \<le> snd (intsetSearch be is v) \<and>
       snd (intsetSearch be is v) < int (length vs) \<and> vs ! nat (snd (intsetSearch be is v)) = v
     else snd (intsetSearch be is v) = int (ins_pos v vs))"
proof -
  have get: "\<And>i. i < length vs \<Longrightarrow> intsetGetAt be is (int i) = vs ! i"
    by (rule is_raw_get [OF raw])
  have mono: "vs ! i < vs ! j" if "i < j" "j < length vs" for i j
    using vs that by (simp add: sorted_wrt_iff_nth_less)
  have pos: "ins_pos v vs = i"
    if "i \<le> length vs" "\<forall>j<i. vs ! j < v" "\<forall>j. i \<le> j \<and> j < length vs \<longrightarrow> v < vs ! j" for i
    using that by (intro sorted_filter_less) (auto intro: strict_sorted_imp_sorted vs)
  have notin: "v \<notin> set vs"
    if "\<forall>j<i. vs ! j < v" "\<forall>j. i \<le> j \<and> j < length vs \<longrightarrow> v < vs ! j" for i
    using that by (metis in_set_conv_nth less_irrefl linorder_not_less)
  show ?thesis
  proof (cases "vs = []")
    case True
    then show ?thesis using len by (simp add: intsetSearch_def ins_pos_def)
  next
    case ne: False
    let ?l = "length vs"
    have l: "0 < ?l" using ne by simp
    have mx: "to_int32 (int ?l - 1) = int ?l - 1"
    proof (rule to_int32_id)
      have "int ?l \<le> int (2 ^ 31)" using i32 by (simp only: of_nat_le_iff)
      then show "int ?l - 1 < 2 ^ 31" by simp
    qed simp
    have last: "intsetGetAt be is (int ?l - 1) = vs ! (?l - 1)"
      using get [of "?l - 1"] l by (simp add: of_nat_diff)
    have first: "intsetGetAt be is 0 = vs ! 0" using get [of 0] l by simp
    consider "v > vs ! (?l - 1)" | "\<not> v > vs ! (?l - 1)" "v < vs ! 0"
      | "\<not> v > vs ! (?l - 1)" "\<not> v < vs ! 0" by blast
    then show ?thesis
    proof cases
      case 1
      have all: "\<forall>j<?l. vs ! j < v"
      proof (intro allI impI)
        fix j assume "j < ?l"
        then have "j = ?l - 1 \<or> j < ?l - 1" by linarith
        then show "vs ! j < v" using 1 mono [of j "?l - 1"] l by auto
      qed
      then have "ins_pos v vs = ?l" "v \<notin> set vs" using pos [of ?l] notin [of ?l] by auto
      then show ?thesis using 1 len last l by (simp add: intsetSearch_def mx)
    next
      case 2
      have all: "\<forall>j. 0 \<le> j \<and> j < ?l \<longrightarrow> v < vs ! j"
      proof (intro allI impI)
        fix j assume "0 \<le> j \<and> j < ?l"
        then show "v < vs ! j" using 2(2) mono [of 0 j] by (cases "j = 0") auto
      qed
      then have "ins_pos v vs = 0" "v \<notin> set vs" using pos [of 0] notin [of 0] by auto
      then show ?thesis using 2 len last first l by (simp add: intsetSearch_def mx)
    next
      case 3
      obtain mn' mid' cur' where loop:
          "intsetSearchLoop be is v 0 (int ?l - 1) (- 1) (- 1) = (mn', mid', cur')"
        by (metis prod_cases3)
      then have s: "intsetSearch be is v = (if v = cur' then (True, mid') else (False, mn'))"
        using 3 len last first l by (simp add: intsetSearch_def mx)
      have r: "if v = cur' then 0 \<le> mid' \<and> mid' < int ?l \<and> vs ! nat mid' = v
          else 0 \<le> mn' \<and> mn' \<le> int ?l \<and> (\<forall>j. int j < mn' \<longrightarrow> vs ! j < v) \<and>
            (\<forall>j. mn' \<le> int j \<and> j < ?l \<longrightarrow> v < vs ! j)"
        by (rule searchLoop_correct [OF get vs _ _ _ _ _ loop]) (use l in auto)
      show ?thesis
      proof (cases "v = cur'")
        case True
        then have "vs ! nat mid' \<in> set vs" using r by (intro nth_mem) auto
        then show ?thesis using True r s by auto
      next
        case False
        then have "0 \<le> mn'" "mn' \<le> int ?l" using r by simp_all
        then have "mn' = int (nat mn')" "nat mn' \<le> ?l" by simp_all
        then obtain i where i: "mn' = int i" "i \<le> ?l" by blast
        then have "ins_pos v vs = i" "v \<notin> set vs"
          using pos [of i] notin [of i] r False by auto
        then show ?thesis using False s i by simp
      qed
    qed
  qed
qed

section \<open>Upgrading the encoding in place\<close>

text \<open>
  The loop reads element \<open>k\<close> at the old width and writes it at the new one, from the last to the
  first: what is still to be read is never overwritten, because the new offset of \<open>k\<close> is at
  least its old one.
\<close>

lemma upgradeLoop_correct:
  assumes n: "n = 2 \<or> n = 4 \<or> n = 8" and N: "N = 2 \<or> N = 4 \<or> N = 8" and nN: "n \<le> N"
    and vs: "\<forall>v\<in>set vs. fits n v" and p: "p = 0 \<or> p = 1"
  shows "\<lbrakk>k \<le> length vs; intrev32ifbe be (is_encoding is) = int N;
    (k + p) * N \<le> length (is_contents is);
    take (k * n) (is_contents is) = enc_list n (take k vs)\<rbrakk> \<Longrightarrow>
   \<exists>c. intsetUpgradeLoop be (int n) (int p) k is = Some (is\<lparr>is_contents := c\<rparr>) \<and>
     length c = length (is_contents is) \<and>
     drop (p * N) c = enc_list N (take k vs) @ drop ((k + p) * N) (is_contents is)"
proof (induction k arbitrary: "is")
  case 0
  show ?case by (intro exI [of _ "is_contents is"]) simp
next
  case (Suc k)
  let ?c = "is_contents is" and ?v = "vs ! k"
  have k: "k < length vs" using Suc.prems by simp
  have len: "Suc k * n \<le> length ?c"
    using Suc.prems(3) nN by (meson le_add1 le_trans mult_le_mono)
  have "?c = enc_list n (take (Suc k) vs) @ drop (Suc k * n) ?c"
    using Suc.prems(4) by (metis append_take_drop_id)
  then have get: "intsetGetEncoded be is (int k) (int n) = ?v"
    using n k vs getEncoded_enc_list [of "is" n "take (Suc k) vs" _ k be] by simp
  have room: "(k + p) * N + N \<le> length ?c" using Suc.prems(3) by simp
  define c' where "c' = patch ?c ((k + p) * N) (le_bytes N ?v)"
  have set: "intsetSetAt be is (int (k + p)) ?v = Some (is\<lparr>is_contents := c'\<rparr>)"
    unfolding c'_def using Suc.prems(2) N room by (intro set_at_contents)
  have lc': "length c' = length ?c" using room by (simp add: c'_def length_patch)
  have off: "k * n \<le> (k + p) * N" using nN by (simp add: mult_le_mono)
  then have "take (k * n) c' = take (k * n) ?c"
    using room by (simp add: c'_def patch_def)
  also have "\<dots> = take (k * n) (take (Suc k * n) ?c)" by (simp add: min_def)
  also have "\<dots> = enc_list n (take k vs)"
    using Suc.prems(4) by (simp only: take_enc_list) (simp add: min_def)
  finally have old: "take (k * n) c' = enc_list n (take k vs)" .
  have new: "drop ((k + p) * N) c' = le_bytes N ?v @ drop ((Suc k + p) * N) ?c"
    using room by (simp add: c'_def patch_def algebra_simps)
  have "\<exists>c. intsetUpgradeLoop be (int n) (int p) k (is\<lparr>is_contents := c'\<rparr>) =
      Some (is\<lparr>is_contents := c'\<rparr>\<lparr>is_contents := c\<rparr>) \<and> length c = length c' \<and>
      drop (p * N) c = enc_list N (take k vs) @ drop ((k + p) * N) c'"
    using Suc.IH [of "is\<lparr>is_contents := c'\<rparr>"] Suc.prems(2) k room lc' old by simp
  then show ?case
    using lc' new get set k by (auto simp: take_Suc_conv_app_nth)
qed

lemma valueEncoding_cases:
  "intsetValueEncoding v = 2 \<or> intsetValueEncoding v = 4 \<or> intsetValueEncoding v = 8"
  by (simp add: intsetValueEncoding_def enc_defs)

lemma valueEncoding_fits: "fits 8 v \<Longrightarrow> fits (nat (intsetValueEncoding v)) v"
  by (auto simp: intsetValueEncoding_def enc_defs fits_def)

lemma valueEncoding_le:
  "n = 2 \<or> n = 4 \<or> n = 8 \<Longrightarrow> fits 8 v \<Longrightarrow> intsetValueEncoding v \<le> int n \<longleftrightarrow> fits n v"
  by (auto simp: intsetValueEncoding_def enc_defs fits_def)

text \<open>A value of a wider encoding lies beyond every value of the narrower one.\<close>

lemma valueEncoding_outside:
  assumes "n = 2 \<or> n = 4 \<or> n = 8" "int n < intsetValueEncoding v" "fits 8 v" "fits n x"
  shows "if v < 0 then v < x else x < v"
  using assms by (auto simp: intsetValueEncoding_def enc_defs fits_def split: if_splits)

lemma enc_list_snoc_surj:
  assumes "0 < n" "length c = (length vs + 1) * n" "take (length vs * n) c = enc_list n vs"
  shows "\<exists>x. fits n x \<and> c = enc_list n (vs @ [x])"
proof -
  obtain xs where xs: "length xs = 1" "drop (length vs * n) c = enc_list n xs" "\<forall>v\<in>set xs. fits n v"
    using enc_list_surj [of n "drop (length vs * n) c" 1] assms by auto
  then obtain x where "xs = [x]" by (auto simp: length_Suc_conv)
  then show ?thesis using xs assms(3) append_take_drop_id [of "length vs * n" c] by auto
qed

lemma enc_list_Cons_surj:
  assumes "0 < n" "length c = (length vs + 1) * n" "drop n c = enc_list n vs"
  shows "\<exists>x. fits n x \<and> c = enc_list n (x # vs)"
proof -
  obtain xs where xs: "length xs = 1" "take n c = enc_list n xs" "\<forall>v\<in>set xs. fits n v"
    using enc_list_surj [of n "take n c" 1] assms by auto
  then obtain x where "xs = [x]" by (auto simp: length_Suc_conv)
  then show ?thesis using xs assms(3) append_take_drop_id [of n c] by auto
qed

lemma is_raw_upgrade:
  assumes raw: "is_raw be n is vs" and len: "is_length is = intrev32ifbe be (int (length vs))"
    and up: "int n < intsetValueEncoding v" and v: "fits 8 v" and small: "length vs < 2 ^ 29 - 1"
  shows "\<exists>is'. intsetUpgradeAndAdd be junk is v = Some is' \<and>
    is_raw be (nat (intsetValueEncoding v)) is' (if v < 0 then v # vs else vs @ [v]) \<and>
    is_length is' = intrev32ifbe be (int (length vs) + 1)"
proof -
  define N where "N = nat (intsetValueEncoding v)"
  define p :: nat where "p = (if v < 0 then 1 else 0)"
  let ?L = "length vs"
  have N: "N = 2 \<or> N = 4 \<or> N = 8" "0 < N" "int N = intsetValueEncoding v"
    using valueEncoding_cases [of v] by (auto simp: N_def)
  have n: "n = 2 \<or> n = 4 \<or> n = 8" and nN: "n \<le> N" using is_raw_width [OF raw] up N(3) by auto
  have fitsN: "fits N v" "\<forall>x\<in>set vs. fits N x"
    using valueEncoding_fits [OF v] raw nN n fits_mono by (auto simp: N_def is_raw_def)
  have enc: "intrev32ifbe be (intrev32ifbe be (int N)) = int N" using N(1) by auto
  have lenL: "intrev32ifbe be (is_length is) = int ?L" using small by (simp add: len)
  define is1 where "is1 = is\<lparr>is_encoding := intrev32ifbe be (int N)\<rparr>"
  define c0 where "c0 = realloc_bytes junk ((?L + 1) * N) (is_contents is)"
  have "(?L + 1) * N \<le> (?L + 1) * 8" using N(1) by (intro mult_le_mono2) auto
  also have "\<dots> < 2 ^ 32" using small by simp
  finally have size: "(?L + 1) * N < 2 ^ 32" .
  have "(int ?L + 1) * int N = int ((?L + 1) * N)" by (simp add: algebra_simps)
  then have "nat (((int ?L + 1) * int N) mod 2 ^ 32) = (?L + 1) * N"
    using nat_wrap32 [OF size] by presburger
  then have res: "intsetResize be junk is1 (int ?L + 1) = is1\<lparr>is_contents := c0\<rparr>"
    by (simp add: intsetResize_def is1_def c0_def enc)
  have "?L * n \<le> (?L + 1) * N" using nN by (simp add: mult_le_mono trans_le_add2)
  then have c0: "take (?L * n) c0 = enc_list n vs" "length c0 = (?L + 1) * N"
    using raw by (simp_all add: c0_def realloc_bytes_def is_raw_def min_def)
  have p01: "p = 0 \<or> p = 1" by (simp add: p_def)
  have vsn: "\<forall>x\<in>set vs. fits n x" using raw by (simp add: is_raw_def)
  have e1: "intrev32ifbe be (is_encoding (is1\<lparr>is_contents := c0\<rparr>)) = int N"
    by (simp add: is1_def enc)
  have "(?L + p) * N \<le> (?L + 1) * N" by (intro mult_le_mono1) (simp add: p_def)
  then obtain c where c: "intsetUpgradeLoop be (int n) (int p) ?L (is1\<lparr>is_contents := c0\<rparr>) =
        Some (is1\<lparr>is_contents := c\<rparr>)" "length c = (?L + 1) * N"
      "drop (p * N) c = enc_list N vs @ drop ((?L + p) * N) c0"
    using upgradeLoop_correct [OF n N(1) nN vsn p01 _ e1, of ?L] c0 by auto
  have cur: "intrev32ifbe be (is_encoding is) = int n" by (rule is_raw_encoding [OF raw])
  define pos where "pos = (if v < 0 then 0 else ?L)"
  have i32: "to_int32 (int ?L) = int ?L"
    using small by (intro to_int32_id) simp_all
  have lens: "intrev32ifbe be (is_length is1) = int ?L" "intrev32ifbe be (is_length (is1\<lparr>is_contents := c\<rparr>)) = int ?L"
    by (simp_all add: is1_def lenL)
  have "intsetUpgradeLoop be (int n) (if v < 0 then 1 else 0) ?L (is1\<lparr>is_contents := c0\<rparr>) =
      Some (is1\<lparr>is_contents := c\<rparr>)"
    using c(1) by (simp add: p_def split: if_splits)
  then have whole: "intsetUpgradeAndAdd be junk is v =
      Option.bind (intsetSetAt be (is1\<lparr>is_contents := c\<rparr>) (int pos) v) (\<lambda>is.
        Some (is\<lparr>is_length := intrev32ifbe be (intrev32ifbe be (is_length is) + 1)\<rparr>))"
    unfolding intsetUpgradeAndAdd_def Let_def N(3) [symmetric] is1_def [symmetric] lenL lens i32 cur
      nat_int res
    by (simp add: lens pos_def)
  obtain x where x: "fits N x" "c = enc_list N (if v < 0 then x # vs else vs @ [x])"
  proof (cases "v < 0")
    case True
    then show ?thesis
      using enc_list_Cons_surj [OF N(2) c(2)] c(3) c0(2) that by (auto simp: p_def)
  next
    case False
    then have "take (?L * N) c = enc_list N vs" using c(3) by (simp add: p_def)
    then show ?thesis using enc_list_snoc_surj [OF N(2) c(2)] False that by auto
  qed
  let ?ws = "if v < 0 then x # vs else vs @ [x]"
  have raw1: "is_raw be N (is1\<lparr>is_contents := c\<rparr>) ?ws"
    using x fitsN N(1) by (auto simp: is_raw_def is1_def)
  have "pos < length ?ws" by (simp add: pos_def)
  from is_raw_set [OF raw1 this fitsN(1)] obtain is2 where
    set: "intsetSetAt be (is1\<lparr>is_contents := c\<rparr>) (int pos) v = Some is2"
      "is_raw be N is2 (?ws[pos := v])" "is_length is2 = is_length (is1\<lparr>is_contents := c\<rparr>)"
    by blast
  have "?ws[pos := v] = (if v < 0 then v # vs else vs @ [v])" by (simp add: pos_def)
  moreover have "is_length (is1\<lparr>is_contents := c\<rparr>) = is_length is" by (simp add: is1_def)
  ultimately show ?thesis
    using set(2,3) unfolding whole N_def [symmetric] set(1) by (simp add: is_raw_def lenL)
qed

section \<open>Abstraction and invariant\<close>

definition intset_elems :: "bool \<Rightarrow> intset \<Rightarrow> int list" where
  "intset_elems be is =
     map (\<lambda>i. intsetGetAt be is (int i)) [0..<nat (intrev32ifbe be (is_length is))]"

definition intset_ok :: "bool \<Rightarrow> intset \<Rightarrow> bool" where
  "intset_ok be is \<longleftrightarrow>
     (let n = intrev32ifbe be (is_encoding is); l = intrev32ifbe be (is_length is)
      in (n = 2 \<or> n = 4 \<or> n = 8) \<and>
         0 \<le> is_encoding is \<and> is_encoding is < 2 ^ 32 \<and>
         0 \<le> is_length is \<and> is_length is < 2 ^ 32 \<and>
         int (length (is_contents is)) = l * n \<and> l * n < 2 ^ 32 \<and>
         sorted_wrt (<) (intset_elems be is))"

definition is_rep :: "bool \<Rightarrow> nat \<Rightarrow> intset \<Rightarrow> int list \<Rightarrow> bool" where
  "is_rep be n is vs \<longleftrightarrow>
     is_raw be n is vs \<and> is_length is = intrev32ifbe be (int (length vs)) \<and>
     length vs * n < 2 ^ 32 \<and> sorted_wrt (<) vs"

lemma intrev32ifbe_range:
  "0 \<le> v \<Longrightarrow> v < 2 ^ 32 \<Longrightarrow> 0 \<le> intrev32ifbe be v \<and> intrev32ifbe be v < 2 ^ 32"
  using le_val_bounds [of "rev (le_bytes 4 v)"] by (simp add: intrev32ifbe_def intrev_value)

text \<open>The elements fit 32 bits of bytes, so their number fits an int.\<close>

lemma is_rep_count:
  assumes "is_rep be n is vs"
  shows "length vs < 2 ^ 31" "length vs < 2 ^ 32"
proof -
  have "2 \<le> n" using assms is_raw_width [of be n "is" vs] by (auto simp: is_rep_def)
  then have "length vs * 2 \<le> length vs * n" by (rule mult_le_mono2)
  also have "length vs * n < 2 ^ 32" using assms by (simp add: is_rep_def)
  finally show "length vs < 2 ^ 31" "length vs < 2 ^ 32" by simp_all
qed

lemma is_rep_len:
  assumes "is_rep be n is vs"
  shows "intrev32ifbe be (is_length is) = int (length vs)"
  using assms is_rep_count(2) [OF assms] by (simp add: is_rep_def)

lemma is_rep_elems:
  assumes "is_rep be n is vs"
  shows "intset_elems be is = vs"
proof (rule nth_equalityI)
  have raw: "is_raw be n is vs" using assms by (simp add: is_rep_def)
  show len: "length (intset_elems be is) = length vs"
    by (simp add: intset_elems_def is_rep_len [OF assms])
  fix i assume "i < length (intset_elems be is)"
  then have "i < length vs" by (simp only: len)
  then show "intset_elems be is ! i = vs ! i"
    by (simp add: intset_elems_def is_rep_len [OF assms] is_raw_get [OF raw])
qed

lemma is_rep_ok: "is_rep be n is vs \<Longrightarrow> intset_ok be is"
proof -
  assume r: "is_rep be n is vs"
  then have "is_raw be n is vs" by (simp add: is_rep_def)
  then have n: "intrev32ifbe be (is_encoding is) = int n" "n = 2 \<or> n = 4 \<or> n = 8"
    using is_raw_encoding is_raw_width by blast+
  have "0 \<le> is_encoding is \<and> is_encoding is < 2 ^ 32"
    using r n(2) intrev32ifbe_range [of "int n" be] by (auto simp: is_rep_def is_raw_def)
  moreover have "0 \<le> is_length is \<and> is_length is < 2 ^ 32"
    using r is_rep_count(2) [OF r] intrev32ifbe_range [of "int (length vs)" be] by (auto simp: is_rep_def)
  moreover have "int (length vs) * int n < 2 ^ 32"
  proof -
    have "int (length vs * n) < int (2 ^ 32)" using r unfolding is_rep_def of_nat_less_iff by blast
    then show ?thesis by simp
  qed
  moreover have "int (length (is_contents is)) = int (length vs) * int n"
    using r by (simp add: is_rep_def is_raw_def)
  ultimately show ?thesis
    using r n is_rep_elems [OF r] is_rep_len [OF r]
    by (auto simp: intset_ok_def Let_def is_rep_def)
qed

lemma ok_is_rep: "intset_ok be is \<Longrightarrow> \<exists>n. is_rep be n is (intset_elems be is)"
proof -
  assume ok: "intset_ok be is"
  define n where "n = nat (intrev32ifbe be (is_encoding is))"
  define l where "l = nat (intrev32ifbe be (is_length is))"
  have n: "intrev32ifbe be (is_encoding is) = int n" "n = 2 \<or> n = 4 \<or> n = 8"
    using ok by (auto simp: intset_ok_def Let_def n_def)
  have enc: "is_encoding is = intrev32ifbe be (int n)"
    using ok n(1) [symmetric] by (simp add: intset_ok_def Let_def)
  have lr: "0 \<le> intrev32ifbe be (is_length is) \<and> intrev32ifbe be (is_length is) < 2 ^ 32"
    using ok by (intro intrev32ifbe_range) (auto simp: intset_ok_def Let_def)
  then have l: "intrev32ifbe be (is_length is) = int l" "l < 2 ^ 32" by (simp_all add: l_def nat_less_iff)
  have len: "is_length is = intrev32ifbe be (int l)"
    using ok l(1) [symmetric] by (simp add: intset_ok_def Let_def)
  have "int (length (is_contents is)) = int (l * n)"
    using ok n(1) l(1) by (auto simp: intset_ok_def Let_def)
  then have "length (is_contents is) = l * n" by (simp only: of_nat_eq_iff)
  moreover have "0 < n" using n(2) by auto
  ultimately obtain vs where vs: "length vs = l" "is_contents is = enc_list n vs"
      "\<forall>v\<in>set vs. fits n v"
    using enc_list_surj by blast
  then have raw: "is_raw be n is vs" using enc n(2) by (simp add: is_raw_def)
  have "intset_elems be is = vs"
    by (rule nth_equalityI) (use vs(1) l in \<open>auto simp: intset_elems_def intro: is_raw_get [OF raw]\<close>)
  moreover have "sorted_wrt (<) (intset_elems be is)"
    using ok by (simp add: intset_ok_def Let_def)
  moreover have "l * n < 2 ^ 32"
  proof -
    have "int (l * n) < int (2 ^ 32)" using ok n(1) l(1) by (auto simp: intset_ok_def Let_def)
    then show ?thesis by (simp only: of_nat_less_iff)
  qed
  ultimately have "is_rep be n is (intset_elems be is)"
    using raw len vs(1) l(2) by (simp add: is_rep_def)
  then show ?thesis ..
qed

lemma sorted_insort_upgrade:
  assumes "sorted_wrt (<) vs" "\<forall>x\<in>set vs. if v < 0 then v < x else x < v"
  shows "insort v vs = (if v < 0 then v # vs else vs @ [v])" "v \<notin> set vs"
proof -
  show "v \<notin> set vs" using assms(2) by auto
  show "insort v vs = (if v < 0 then v # vs else vs @ [v])"
  proof (cases "v < 0")
    case True
    then show ?thesis using assms(2) by (cases vs) auto
  next
    case False
    then have "\<forall>x\<in>set vs. x < v" using assms(2) by simp
    then have "insort v vs = vs @ [v]" by (induction vs) auto
    then show ?thesis using False by simp
  qed
qed

lemma strict_insort: "sorted_wrt (<) vs \<Longrightarrow> v \<notin> set vs \<Longrightarrow> sorted_wrt (<) (insort v (vs :: int list))"
  by (simp add: strict_sorted_iff sorted_insort distinct_insort)

lemma ins_pos_le: "ins_pos v vs \<le> length vs"
  by (simp add: ins_pos_def)

lemma intsetResize_length [simp]: "is_length (intsetResize be junk is k) = is_length is"
  by (simp add: intsetResize_def Let_def)

text \<open>Making room for one element and writing it.\<close>

lemma is_raw_insert_at:
  assumes raw: "is_raw be n is vs" and len: "intrev32ifbe be (is_length is) = int (length vs)"
    and pos: "p \<le> length vs" and v: "fits n v" and small: "length vs < 2 ^ 29 - 1"
    and is1: "is1 = intsetResize be junk is (int (length vs) + 1)"
  shows "\<exists>is2 is3.
    (if int p < int (length vs) then intsetMoveTail be is1 (int p) (int p + 1) else Some is1) = Some is2 \<and>
    intsetSetAt be is2 (int p) v = Some is3 \<and>
    is_raw be n is3 (take p vs @ v # drop p vs) \<and> is_length is3 = is_length is"
proof -
  let ?L = "length vs"
  have "n \<le> 8" using is_raw_width [OF raw] by auto
  then have "(?L + 1) * n \<le> (?L + 1) * 8" by (intro mult_le_mono2)
  then have size: "(?L + 1) * n < 2 ^ 32" using small by simp
  obtain x where x: "is_raw be n is1 (vs @ [x])"
    using is_raw_grow [OF raw size] is1 by auto
  have l1: "intrev32ifbe be (is_length is1) = int ?L" using len is1 by simp
  have pn: "int p + 1 = int (p + 1)" by simp
  have "\<exists>y is2. (if int p < int ?L then intsetMoveTail be is1 (int p) (int p + 1) else Some is1) = Some is2 \<and>
      is_raw be n is2 (take p vs @ y # drop p vs) \<and> is_length is2 = is_length is1"
  proof (cases "p < ?L")
    case True
    have "take (p + 1) (vs @ [x]) @ take (?L - p) (drop p (vs @ [x])) @
        drop (p + 1 + (?L - p)) (vs @ [x]) = take p vs @ vs ! p # drop p vs"
      using True by (simp add: take_Suc_conv_app_nth)
    then show ?thesis
      using is_raw_moveTail [OF x l1, of p "p + 1"] True size unfolding pn
      by (intro exI [of _ "vs ! p"]) simp
  next
    case False
    then show ?thesis using x pos by (intro exI [of _ x] exI [of _ is1]) simp
  qed
  then obtain y is2 where m: "(if int p < int ?L then intsetMoveTail be is1 (int p) (int p + 1) else Some is1) = Some is2"
    and y: "is_raw be n is2 (take p vs @ y # drop p vs)" "is_length is2 = is_length is1"
    by blast
  have "(take p vs @ y # drop p vs)[p := v] = take p vs @ v # drop p vs"
    using pos by (simp add: list_update_append)
  moreover have "p < length (take p vs @ y # drop p vs)" using pos by simp
  ultimately show ?thesis
    using is_raw_set [OF y(1) _ v, of p] y(2) is1 m by auto
qed

lemma is_rep_add:
  assumes r: "is_rep be n is vs" and v: "fits 8 v" and small: "length vs < 2 ^ 29 - 1"
  shows "\<exists>is'. intsetAdd be junk is v = Some (is', v \<notin> set vs) \<and>
    is_rep be (nat (max (int n) (intsetValueEncoding v))) is' (if v \<in> set vs then vs else insort v vs)"
proof -
  have raw: "is_raw be n is vs" and len: "is_length is = intrev32ifbe be (int (length vs))"
    and srt: "sorted_wrt (<) vs" using r by (simp_all add: is_rep_def)
  have width: "n = 2 \<or> n = 4 \<or> n = 8" by (rule is_raw_width [OF raw])
  have enc: "intrev32ifbe be (is_encoding is) = int n" by (rule is_raw_encoding [OF raw])
  have l: "intrev32ifbe be (is_length is) = int (length vs)" by (rule is_rep_len [OF r])
  have room: "(length vs + 1) * N < 2 ^ 32" if "N = 2 \<or> N = 4 \<or> N = 8" for N
  proof -
    have "N \<le> 8" using that by auto
    then have "(length vs + 1) * N \<le> (length vs + 1) * 8" by (rule mult_le_mono2)
    then show ?thesis using small by simp
  qed
  show ?thesis
  proof (cases "int n < intsetValueEncoding v")
    case True
    have "\<forall>x\<in>set vs. if v < 0 then v < x else x < v"
      using valueEncoding_outside [OF width True v] raw by (auto simp: is_raw_def)
    note ins = sorted_insort_upgrade [OF srt this]
    have m: "nat (max (int n) (intsetValueEncoding v)) = nat (intsetValueEncoding v)"
      using True by simp
    obtain is' where up: "intsetUpgradeAndAdd be junk is v = Some is'"
      "is_raw be (nat (intsetValueEncoding v)) is' (if v < 0 then v # vs else vs @ [v])"
      "is_length is' = intrev32ifbe be (int (length vs) + 1)"
      using is_raw_upgrade [OF raw len True v small, of junk] by blast
    have "(length vs + 1) * nat (intsetValueEncoding v) < 2 ^ 32"
      using room [of "nat (intsetValueEncoding v)"] valueEncoding_cases [of v] by auto
    then have "is_rep be (nat (intsetValueEncoding v)) is' (insort v vs)"
      using up ins strict_insort [OF srt ins(2)] by (simp add: is_rep_def add.commute)
    then show ?thesis using True ins(2) m enc up(1) by (simp add: intsetAdd_def)
  next
    case False
    then have fit: "fits n v" and m: "nat (max (int n) (intsetValueEncoding v)) = n"
      using valueEncoding_le [OF width v] by simp_all
    have "length vs \<le> 2 ^ 31" using small by simp
    note search = intsetSearch_correct [OF raw l srt this, of v]
    show ?thesis
    proof (cases "v \<in> set vs")
      case True
      then show ?thesis using False search m r enc
        by (simp add: intsetAdd_def case_prod_beta)
    next
      case notin: False
      let ?p = "ins_pos v vs"
      let ?is1 = "intsetResize be junk is (int (length vs) + 1)"
      obtain is2 is3 where st:
        "(if int ?p < int (length vs) then intsetMoveTail be ?is1 (int ?p) (int ?p + 1) else Some ?is1) = Some is2"
        "intsetSetAt be is2 (int ?p) v = Some is3"
        "is_raw be n is3 (insort v vs)" "is_length is3 = is_length is"
        using is_raw_insert_at [OF raw l ins_pos_le fit small refl, of v junk]
          insort_ins_pos [OF strict_sorted_imp_sorted [OF srt] notin] by auto
      have p: "\<not> fst (intsetSearch be is v)" "snd (intsetSearch be is v) = int ?p"
        using search notin by simp_all
      have "intsetAdd be junk is v =
          Some (is3\<lparr>is_length := intrev32ifbe be (intrev32ifbe be (is_length is3) + 1)\<rparr>, True)"
        using False p enc l st(1,2) by (simp add: intsetAdd_def case_prod_beta Let_def)
      moreover have "(length vs + 1) * n < 2 ^ 32" by (rule room [OF width])
      ultimately show ?thesis
        using notin m strict_insort [OF srt notin] st(3,4) l
        by (simp add: is_rep_def is_raw_def add.commute)
    qed
  qed
qed

lemma remove1_nth: "distinct vs \<Longrightarrow> i < length vs \<Longrightarrow> remove1 (vs ! i) vs = take i vs @ drop (Suc i) vs"
proof (induction vs arbitrary: i)
  case (Cons x vs)
  then show ?case by (cases i) auto
qed simp

lemma is_rep_remove:
  assumes r: "is_rep be n is vs" and v: "fits 8 v" and small: "length vs < 2 ^ 29"
  shows "\<exists>is'. intsetRemove be junk is v = Some (is', v \<in> set vs) \<and> is_rep be n is' (remove1 v vs)"
proof -
  have raw: "is_raw be n is vs" and srt: "sorted_wrt (<) vs"
    using r by (simp_all add: is_rep_def)
  have width: "n = 2 \<or> n = 4 \<or> n = 8" by (rule is_raw_width [OF raw])
  have enc: "intrev32ifbe be (is_encoding is) = int n" by (rule is_raw_encoding [OF raw])
  have l: "intrev32ifbe be (is_length is) = int (length vs)" by (rule is_rep_len [OF r])
  have "length vs \<le> 2 ^ 31" using small by simp
  note search = intsetSearch_correct [OF raw l srt this, of v]
  show ?thesis
  proof (cases "v \<in> set vs")
    case False
    then show ?thesis using search r
      by (simp add: intsetRemove_def case_prod_beta Let_def remove1_idem)
  next
    case True
    let ?L = "length vs"
    have "0 \<le> snd (intsetSearch be is v)" "snd (intsetSearch be is v) < int ?L"
      using search True by simp_all
    then have "snd (intsetSearch be is v) = int (nat (snd (intsetSearch be is v)))"
      "nat (snd (intsetSearch be is v)) < ?L" by simp_all
    then obtain i where i: "snd (intsetSearch be is v) = int i" "i < ?L" by blast
    have vi: "vs ! i = v" using search True i(1) by simp
    have le: "intsetValueEncoding v \<le> int n"
      using valueEncoding_le [OF width v] raw True by (auto simp: is_raw_def)
    have "n \<le> 8" using width by auto
    then have "?L * n \<le> ?L * 8" by (intro mult_le_mono2)
    moreover have "?L * 8 < 2 ^ 32" using small by simp
    ultimately have size: "?L * n < 2 ^ 32" by (rule le_less_trans)
    have "remove1 v vs = take i vs @ drop (Suc i) vs"
      using remove1_nth [of vs i] vi i(2) srt by (simp add: strict_sorted_iff)
    moreover define ws where "ws = (if int i < int ?L - 1
        then take i vs @ take (?L - (i + 1)) (drop (i + 1) vs) @ drop (i + (?L - (i + 1))) vs else vs)"
    moreover have "take (?L - 1) ws = take i vs @ drop (Suc i) vs"
    proof (cases "int i < int ?L - 1")
      case True
      then show ?thesis by (simp add: ws_def)
    next
      case False
      then have "i = ?L - 1" using i(2) by linarith
      then show ?thesis using i(2) by (simp add: ws_def)
    qed
    ultimately have rem: "remove1 v vs = take (?L - 1) ws" by simp
    have i1: "int i + 1 = int (i + 1)" by simp
    have "\<exists>is1. (if int i < int ?L - 1 then intsetMoveTail be is (int i + 1) (int i) else Some is) = Some is1 \<and>
        is_raw be n is1 ws \<and> is_length is1 = is_length is"
      using is_raw_moveTail [OF raw l, of "i + 1" i] size i(2) raw
      unfolding ws_def i1 by (cases "int i < int ?L - 1") auto
    then obtain is1 where is1:
      "(if int i < int ?L - 1 then intsetMoveTail be is (int i + 1) (int i) else Some is) = Some is1"
      and raw1: "is_raw be n is1 ws" and len1: "is_length is1 = is_length is" by blast
    have lws: "length ws = ?L" using i(2) by (auto simp: ws_def)
    have L1: "int ?L - 1 = int (?L - 1)" using i(2) by simp
    have "is_raw be n (intsetResize be junk is1 (int ?L - 1)) (remove1 v vs)"
      unfolding rem L1 using lws size by (intro is_raw_shrink [OF raw1]) simp_all
    moreover have "intsetRemove be junk is v =
        Some ((intsetResize be junk is1 (int ?L - 1))\<lparr>is_length := intrev32ifbe be (int ?L - 1)\<rparr>, True)"
      using True search le enc l i(1) is1
      by (simp add: intsetRemove_def case_prod_beta Let_def)
    moreover have "sorted_wrt (<) (remove1 v vs)"
      using srt by (simp add: strict_sorted_iff sorted_remove1)
    moreover have "int ?L - 1 = int (length (remove1 v vs))"
      using True i(2) by (simp add: length_remove1)
    moreover have "length (remove1 v vs) * n \<le> ?L * n"
      by (intro mult_le_mono1) (simp add: length_remove1)
    then have "length (remove1 v vs) * n < 2 ^ 32" using size by (rule le_less_trans)
    ultimately show ?thesis using True by (simp add: is_rep_def is_raw_def del: of_nat_diff)
  qed
qed

lemma is_rep_find:
  assumes r: "is_rep be n is vs" and v: "fits 8 v"
  shows "intsetFind be is v = (v \<in> set vs)"
proof -
  have raw: "is_raw be n is vs" and srt: "sorted_wrt (<) vs"
    using r by (simp_all add: is_rep_def)
  have "v \<in> set vs \<Longrightarrow> intsetValueEncoding v \<le> int n"
    using valueEncoding_le [OF is_raw_width [OF raw] v] raw by (auto simp: is_raw_def)
  then show ?thesis
    using intsetSearch_correct [OF raw is_rep_len [OF r] srt less_imp_le [OF is_rep_count(1) [OF r]], of v]
      is_raw_encoding [OF raw]
    by (auto simp: intsetFind_def)
qed

lemma is_rep_new: "is_rep be 2 (intsetNew be) []"
  by (simp add: is_rep_def is_raw_def intsetNew_def enc_defs intrev32ifbe_def intrev_value)

section \<open>The integer set provides the set interface\<close>

text \<open>A write outside of the array stops the program: the state after it is \<open>None\<close>.\<close>

definition live_ok :: "bool \<Rightarrow> intset option \<Rightarrow> bool" where
  "live_ok be s = (case s of None \<Rightarrow> False | Some is \<Rightarrow> intset_ok be is)"

definition live_elems :: "bool \<Rightarrow> intset option \<Rightarrow> int list" where
  "live_elems be s = (case s of None \<Rightarrow> [] | Some is \<Rightarrow> intset_elems be is)"

definition live_find :: "bool \<Rightarrow> intset option \<Rightarrow> int \<Rightarrow> bool" where
  "live_find be s v = (case s of None \<Rightarrow> False | Some is \<Rightarrow> intsetFind be is v)"

lemma live_simps [simp]:
  "live_ok be (Some is) = intset_ok be is" "live_elems be (Some is) = intset_elems be is"
  "live_find be (Some is) v = intsetFind be is v"
  by (simp_all add: live_ok_def live_elems_def live_find_def)

lemma live_ok_Some: "live_ok be s \<Longrightarrow> \<exists>is. s = Some is \<and> intset_ok be is"
  by (cases s) (simp_all add: live_ok_def)

lemma intset_add_law:
  assumes "intset_ok be is" "fits 8 v" "card (set (intset_elems be is)) < 2 ^ 29 - 1"
  shows "\<exists>is'. intsetAdd be junk is v = Some (is', v \<notin> set (intset_elems be is)) \<and> intset_ok be is' \<and>
    set (intset_elems be is') = insert v (set (intset_elems be is))"
proof -
  obtain n where r: "is_rep be n is (intset_elems be is)" using ok_is_rep [OF assms(1)] by blast
  have "length (intset_elems be is) < 2 ^ 29 - 1"
    using assms(3) r by (simp add: is_rep_def strict_sorted_iff distinct_card)
  from is_rep_add [OF r assms(2) this, of junk] show ?thesis
    using is_rep_ok is_rep_elems by (auto simp: set_insort_key insert_absorb split: if_splits)
qed

lemma intset_remove_law:
  assumes "intset_ok be is" "fits 8 v" "card (set (intset_elems be is)) \<le> 2 ^ 29 - 1"
  shows "\<exists>is'. intsetRemove be junk is v = Some (is', v \<in> set (intset_elems be is)) \<and> intset_ok be is' \<and>
    set (intset_elems be is') = set (intset_elems be is) - {v}"
proof -
  obtain n where r: "is_rep be n is (intset_elems be is)" using ok_is_rep [OF assms(1)] by blast
  then have d: "distinct (intset_elems be is)" by (simp add: is_rep_def strict_sorted_iff)
  then have "length (intset_elems be is) < 2 ^ 29" using assms(3) by (simp add: distinct_card)
  from is_rep_remove [OF r assms(2) this, of junk] show ?thesis
    using is_rep_ok is_rep_elems d by fastforce
qed

interpretation intset: set_store "live_ok be" "\<lambda>s. set (live_elems be s)" "fits 8"
  "2 ^ 29 - 1" "guard_op (intsetAdd be junk)" "guard_op (intsetRemove be junk)" "live_find be"
  for be junk
proof (unfold_locales, goal_cases)
  case (2 s v)
  then obtain i where i: "s = Some i" "intset_ok be i" using live_ok_Some by blast
  have "card (set (intset_elems be i)) < 2 ^ 29 - 1" using 2(3) i(1) by simp
  from intset_add_law [OF i(2) 2(2) this, of junk] obtain i' where
    "intsetAdd be junk i v = Some (i', v \<notin> set (intset_elems be i))" "intset_ok be i'"
    "set (intset_elems be i') = insert v (set (intset_elems be i))" by blast
  then show ?case by (simp add: i(1) guard_op_Some)
next
  case (3 s v)
  then obtain i where i: "s = Some i" "intset_ok be i" using live_ok_Some by blast
  have "card (set (intset_elems be i)) \<le> 2 ^ 29 - 1" using 3(3) i(1) by simp
  from intset_remove_law [OF i(2) 3(2) this, of junk] obtain i' where
    "intsetRemove be junk i v = Some (i', v \<in> set (intset_elems be i))" "intset_ok be i'"
    "set (intset_elems be i') = set (intset_elems be i) - {v}" by blast
  then show ?case by (simp add: i(1) guard_op_Some)
next
  case (4 s v)
  then obtain i where i: "s = Some i" "intset_ok be i" using live_ok_Some by blast
  obtain n where "is_rep be n i (intset_elems be i)" using ok_is_rep [OF i(2)] by blast
  from is_rep_find [OF this 4(2)] show ?case by (simp add: i(1))
qed simp

section \<open>The serialised form\<close>

text \<open>The object's memory, as it is written to an RDB file: header and array.\<close>

definition intset_blob :: "bool \<Rightarrow> intset \<Rightarrow> bytes" where
  "intset_blob be is = mem_store be 4 (is_encoding is) @ mem_store be 4 (is_length is) @ is_contents is"

lemma mem_store_intrev32ifbe: "mem_store be 4 (intrev32ifbe be v) = le_bytes 4 v"
  by (simp add: mem_store_def intrev32ifbe_def host_order_def intrev_value le_bytes_le_val_n)

lemma is_rep_blob:
  "is_rep be n is vs \<Longrightarrow> intset_blob be is = le_bytes 4 (int n) @ le_bytes 4 (int (length vs)) @ enc_list n vs"
  by (auto simp: is_rep_def is_raw_def intset_blob_def mem_store_intrev32ifbe)

text \<open>The width and the sorted contents after a sequence of operations.\<close>

fun ops_width :: "nat \<Rightarrow> int set_op list \<Rightarrow> nat" where
  "ops_width n [] = n"
| "ops_width n (SAdd v # ops) = ops_width (nat (max (int n) (intsetValueEncoding v))) ops"
| "ops_width n (SRem v # ops) = ops_width n ops"

fun ops_elems :: "int list \<Rightarrow> int set_op list \<Rightarrow> int list" where
  "ops_elems vs [] = vs"
| "ops_elems vs (SAdd v # ops) = ops_elems (if v \<in> set vs then vs else insort v vs) ops"
| "ops_elems vs (SRem v # ops) = ops_elems (remove1 v vs) ops"

lemma is_rep_run:
  "\<lbrakk>is_rep be n is vs; \<forall>q\<in>set ops. fits 8 (op_value q); length vs + length ops < 2 ^ 29\<rbrakk> \<Longrightarrow>
   \<exists>is'. fst (store_run (guard_op (intsetAdd be junk)) (guard_op (intsetRemove be junk)) (Some is) ops) = Some is' \<and>
     is_rep be (ops_width n ops) is' (ops_elems vs ops)"
proof (induction ops arbitrary: n "is" vs)
  case (Cons q ops)
  show ?case
  proof (cases q)
    case (SAdd v)
    let ?vs = "if v \<in> set vs then vs else insort v vs"
    obtain is' where "intsetAdd be junk is v = Some (is', v \<notin> set vs)"
      "is_rep be (nat (max (int n) (intsetValueEncoding v))) is' ?vs"
      using is_rep_add [OF Cons.prems(1), of v junk] Cons.prems(2,3) SAdd by auto
    moreover have "length ?vs + length ops < 2 ^ 29" using Cons.prems(3) by simp
    ultimately show ?thesis
      using Cons.IH [of "nat (max (int n) (intsetValueEncoding v))" is' ?vs] Cons.prems(2) SAdd
      by (simp add: case_prod_beta Let_def guard_op_Some)
  next
    case (SRem v)
    obtain is' where "intsetRemove be junk is v = Some (is', v \<in> set vs)"
      "is_rep be n is' (remove1 v vs)"
      using is_rep_remove [OF Cons.prems(1), of v junk] Cons.prems(2,3) SRem by auto
    moreover have "length (remove1 v vs) + length ops < 2 ^ 29"
      using Cons.prems(3) length_remove1 [of v vs] by (simp split: if_splits)
    ultimately show ?thesis
      using Cons.IH [of n is' "remove1 v vs"] Cons.prems(2) SRem
      by (simp add: case_prod_beta Let_def guard_op_Some)
  qed
qed simp

section \<open>Properties\<close>

text \<open>
  C3: an integer set built by any sequence of additions and removals never writes outside of its
  allocation, keeps its invariant (strictly increasing, one width, array and header in agreement),
  holds exactly the abstract set and gives the abstract answers, up to \<open>2 ^ 29 - 1\<close> operations, on
  either host and whatever \<open>zrealloc\<close> leaves in fresh memory.
\<close>

theorem intset_refines_set:
  assumes "\<forall>q\<in>set ops. fits 8 (op_value q)" "length ops < 2 ^ 29"
  shows "\<exists>is. store_run (guard_op (intsetAdd be junk)) (guard_op (intsetRemove be junk))
      (Some (intsetNew be)) ops = (Some is, set_answers {} ops) \<and>
    intset_ok be is \<and> set (intset_elems be is) = set_spec {} ops \<and>
    intsetLen be is = int (card (set_spec {} ops))"
proof -
  let ?r = "store_run (guard_op (intsetAdd be junk)) (guard_op (intsetRemove be junk)) (Some (intsetNew be)) ops"
  have new: "live_ok be (Some (intsetNew be))" "live_elems be (Some (intsetNew be)) = []"
    using is_rep_ok [OF is_rep_new] is_rep_elems [OF is_rep_new] by auto
  have run: "live_ok be (fst ?r)" "set (live_elems be (fst ?r)) = set_spec {} ops"
      "snd ?r = set_answers {} ops"
    using intset.run_law [OF new(1) assms(1), of junk] new(2) assms(2) by auto
  obtain i where i: "fst ?r = Some i" "intset_ok be i" using live_ok_Some [OF run(1)] by blast
  obtain n where rep: "is_rep be n i (intset_elems be i)"
    using ok_is_rep [OF i(2)] by blast
  have els: "set (intset_elems be i) = set_spec {} ops" using run(2) i(1) by simp
  then have "intsetLen be i = int (card (set_spec {} ops))"
    using is_rep_len [OF rep] by (metis distinct_card intsetLen_def is_rep_def rep strict_sorted_iff)
  moreover have "?r = (Some i, set_answers {} ops)" using i(1) run(3) by (simp add: prod_eq_iff)
  ultimately show ?thesis using i(2) els by blast
qed

theorem intset_refines_set_witness:
  "\<exists>is. store_run (guard_op (intsetAdd True (\<lambda>_. 1))) (guard_op (intsetRemove True (\<lambda>_. 1)))
      (Some (intsetNew True)) [SAdd 7, SAdd (- 40000), SRem 7] = (Some is, [True, True, True]) \<and>
    intset_ok True is \<and> set (intset_elems True is) = {- 40000} \<and> intsetLen True is = 1"
  using intset_refines_set [of "[SAdd 7, SAdd (- 40000), SRem 7]" True "\<lambda>_. 1"]
  by (simp add: fits_def insert_Diff_if)

text \<open>
  C24: the serialised integer set does not depend on the host: a big-endian and a little-endian
  host that run the same operations hold the same bytes.
\<close>

theorem intset_blob_host_independent:
  assumes "\<forall>q\<in>set ops. fits 8 (op_value q)" "length ops < 2 ^ 29"
  shows "\<exists>is is'.
    fst (store_run (guard_op (intsetAdd True junk)) (guard_op (intsetRemove True junk))
      (Some (intsetNew True)) ops) = Some is \<and>
    fst (store_run (guard_op (intsetAdd False junk')) (guard_op (intsetRemove False junk'))
      (Some (intsetNew False)) ops) = Some is' \<and>
    intset_blob True is = intset_blob False is'"
proof -
  have l: "length ([] :: int list) + length ops < 2 ^ 29" using assms(2) by simp
  from is_rep_run [OF is_rep_new assms(1) l, of True junk]
    is_rep_run [OF is_rep_new assms(1) l, of False junk']
  show ?thesis using is_rep_blob by fastforce
qed

theorem intset_blob_host_independent_witness:
  "\<exists>is is'.
    fst (store_run (guard_op (intsetAdd True (\<lambda>_. 0))) (guard_op (intsetRemove True (\<lambda>_. 0)))
      (Some (intsetNew True)) [SAdd 258, SAdd 70000]) = Some is \<and>
    fst (store_run (guard_op (intsetAdd False (\<lambda>_. 9))) (guard_op (intsetRemove False (\<lambda>_. 9)))
      (Some (intsetNew False)) [SAdd 258, SAdd 70000]) = Some is' \<and>
    intset_blob True is = intset_blob False is'"
  by (rule intset_blob_host_independent) (simp_all add: fits_def)

text \<open>
  C23: in a set that satisfies the invariant, whose array is then shorter than \<open>2 ^ 32\<close> bytes and
  whose length fits the ints of the search, \<open>intsetFind\<close> is membership, \<open>intsetGet\<close> enumerates the
  elements in increasing order with the out-of-range answer beyond them, and \<open>intsetBlobLen\<close> is
  the number of bytes of the object.
\<close>

theorem intset_find_get:
  assumes "intset_ok be is" "fits 8 v"
  shows "intsetFind be is v = (v \<in> set (intset_elems be is)) \<and>
    intsetGet be is (int i) =
      (if i < length (intset_elems be is) then Some (intset_elems be is ! i) else None) \<and>
    sorted_wrt (<) (intset_elems be is) \<and>
    intsetBlobLen be is = int (length (intset_blob be is))"
proof -
  obtain n where rep: "is_rep be n is (intset_elems be is)" using ok_is_rep [OF assms(1)] by blast
  then have raw: "is_raw be n is (intset_elems be is)" and srt: "sorted_wrt (<) (intset_elems be is)"
    and "length (intset_elems be is) * n < 2 ^ 32" by (simp_all add: is_rep_def)
  from this(3) have "int (length (intset_elems be is) * n) < int (2 ^ 32)" by (simp only: of_nat_less_iff)
  then have sz: "int (length (intset_elems be is)) * int n < 2 ^ 32" by simp
  have "intsetGet be is (int i) =
      (if i < length (intset_elems be is) then Some (intset_elems be is ! i) else None)"
    using is_raw_get [OF raw, of i] by (simp add: intsetGet_def is_rep_len [OF rep])
  moreover have "int (length (intset_blob be is)) = 8 + int (length (intset_elems be is)) * int n"
    by (simp add: is_rep_blob [OF rep])
  ultimately show ?thesis
    using is_rep_find [OF rep assms(2)] srt sz
    by (simp add: intsetBlobLen_def is_rep_len [OF rep] is_raw_encoding [OF raw])
qed

theorem intset_find_get_witness:
  "\<exists>is. intsetAdd False (\<lambda>_. 0) (intsetNew False) 5 = Some (is, True) \<and>
     intsetFind False is 5 \<and> intsetGet False is (int 1) = None"
proof -
  have f: "fits 8 5" by (simp add: fits_def)
  obtain i where i: "intsetAdd False (\<lambda>_. 0) (intsetNew False) 5 = Some (i, True)"
    "is_rep False (nat (max (int 2) (intsetValueEncoding 5))) i [5]"
    using is_rep_add [OF is_rep_new f, of False "\<lambda>_. 0"] by auto
  show ?thesis
    using intset_find_get [OF is_rep_ok [OF i(2)] f, of 1] is_rep_elems [OF i(2)] i(1) by simp
qed

text \<open>
  The byte count of \<open>intsetResize\<close> is computed in 32 bits: growing a 64-bit integer set to
  \<open>2 ^ 29\<close> elements asks for a size of zero, so the array the next write uses is not there.
\<close>

theorem intsetResize_wraps:
  assumes "intrev32ifbe be (is_encoding is) = INTSET_ENC_INT64"
  shows "is_contents (intsetResize be junk is (2 ^ 29)) = []"
  using assms by (simp add: intsetResize_def enc_defs realloc_bytes_def)

theorem intsetResize_wraps_witness:
  "is_contents (intsetResize False (\<lambda>_. 0)
     \<lparr>is_encoding = 8, is_length = 2 ^ 29 - 1, is_contents = [1, 2, 3]\<rparr> (2 ^ 29)) = []"
  by (rule intsetResize_wraps) (simp add: enc_defs intrev32ifbe_def)

end
