(* ===== verification/Siphash.thy ===== *)
theory Siphash
  imports Endian
begin

text \<open>
  The keyed hash of every dictionary: \<open>siphash\<close> and \<open>siphash_nocase\<close> of \<open>src/siphash.c\<close>
  (SipHash 1-2), with the two builds of the file: CPUs that load unaligned little-endian words
  (\<open>UNALIGNED_LE_CPU\<close>) and the portable code, whose result goes through memory and so depends on
  the byte order of the host.
\<close>

section \<open>Bytes and words\<close>

datatype cpu = UNALIGNED_LE_CPU | Portable bool

definition siptlw :: "int \<Rightarrow> int" where
  "siptlw c = (if 65 \<le> c \<and> c \<le> 90 then c + (97 - 65) else c)"

definition ROTL :: "u64 \<Rightarrow> nat \<Rightarrow> u64" where
  "ROTL x b = push_bit b x OR drop_bit (64 - b) x"

definition U32TO8_LE :: "u32 \<Rightarrow> bytes" where
  "U32TO8_LE v = [ucast v, ucast (drop_bit 8 v), ucast (drop_bit 16 v), ucast (drop_bit 24 v)]"

definition U64TO8_LE :: "u64 \<Rightarrow> bytes" where
  "U64TO8_LE v = U32TO8_LE (ucast v) @ U32TO8_LE (ucast (drop_bit 32 v))"

text \<open>Eight bytes, each read by \<open>rd\<close>, combined in little-endian order.\<close>

definition combine8 :: "(u8 \<Rightarrow> u64) \<Rightarrow> bytes \<Rightarrow> u64" where
  "combine8 rd p =
     rd (p ! 0) OR push_bit 8 (rd (p ! 1)) OR push_bit 16 (rd (p ! 2)) OR
     push_bit 24 (rd (p ! 3)) OR push_bit 32 (rd (p ! 4)) OR push_bit 40 (rd (p ! 5)) OR
     push_bit 48 (rd (p ! 6)) OR push_bit 56 (rd (p ! 7))"

definition rd_byte :: "u8 \<Rightarrow> u64" where
  "rd_byte c = ucast c"

definition rd_nocase :: "u8 \<Rightarrow> u64" where
  "rd_nocase c = word_of_int (siptlw (uint c))"

definition U8TO64_LE :: "cpu \<Rightarrow> bytes \<Rightarrow> u64" where
  "U8TO64_LE cpu p =
     (case cpu of
        UNALIGNED_LE_CPU \<Rightarrow> word_of_int (mem_load False (take 8 p))
      | Portable be \<Rightarrow> combine8 rd_byte p)"

definition U8TO64_LE_NOCASE :: "bytes \<Rightarrow> u64" where
  "U8TO64_LE_NOCASE p = combine8 rd_nocase p"

section \<open>The hash\<close>

record sip =
  v0 :: u64
  v1 :: u64
  v2 :: u64
  v3 :: u64

definition SIPROUND :: "sip \<Rightarrow> sip" where
  "SIPROUND s =
     (let s = s\<lparr>v0 := v0 s + v1 s\<rparr>; s = s\<lparr>v1 := ROTL (v1 s) 13\<rparr>;
          s = s\<lparr>v1 := v1 s XOR v0 s\<rparr>; s = s\<lparr>v0 := ROTL (v0 s) 32\<rparr>;
          s = s\<lparr>v2 := v2 s + v3 s\<rparr>; s = s\<lparr>v3 := ROTL (v3 s) 16\<rparr>;
          s = s\<lparr>v3 := v3 s XOR v2 s\<rparr>; s = s\<lparr>v0 := v0 s + v3 s\<rparr>;
          s = s\<lparr>v3 := ROTL (v3 s) 21\<rparr>; s = s\<lparr>v3 := v3 s XOR v0 s\<rparr>;
          s = s\<lparr>v2 := v2 s + v1 s\<rparr>; s = s\<lparr>v1 := ROTL (v1 s) 17\<rparr>;
          s = s\<lparr>v1 := v1 s XOR v2 s\<rparr>
      in s\<lparr>v2 := ROTL (v2 s) 32\<rparr>)"

definition sip_init :: "cpu \<Rightarrow> bytes \<Rightarrow> sip" where
  "sip_init cpu k =
     (let k0 = U8TO64_LE cpu k; k1 = U8TO64_LE cpu (drop 8 k)
      in \<lparr>v0 = 0x736f6d6570736575 XOR k0, v1 = 0x646f72616e646f6d XOR k1,
          v2 = 0x6c7967656e657261 XOR k0, v3 = 0x7465646279746573 XOR k1\<rparr>)"

text \<open>The loop over the full words of the input, and the bytes that are left.\<close>

fun sip_words :: "(bytes \<Rightarrow> u64) \<Rightarrow> bytes \<Rightarrow> sip \<Rightarrow> sip \<times> bytes" where
  "sip_words load inp s =
     (if length inp \<ge> 8 then
        let m = load inp;
            s = s\<lparr>v3 := v3 s XOR m\<rparr>;
            s = SIPROUND s;
            s = s\<lparr>v0 := v0 s XOR m\<rparr>
        in sip_words load (drop 8 inp) s
      else (s, inp))"

declare sip_words.simps [simp del]

text \<open>The \<open>switch\<close> whose cases fall through: byte \<open>j\<close> is shifted by \<open>8 * j\<close>.\<close>

fun sip_left :: "(u8 \<Rightarrow> u64) \<Rightarrow> nat \<Rightarrow> bytes \<Rightarrow> u64 \<Rightarrow> u64" where
  "sip_left rd 0 inp b = b"
| "sip_left rd (Suc j) inp b = sip_left rd j inp (b OR push_bit (8 * j) (rd (inp ! j)))"

definition sip_finish :: "sip \<Rightarrow> u64 \<Rightarrow> u64" where
  "sip_finish s b =
     (let s = s\<lparr>v3 := v3 s XOR b\<rparr>;
          s = SIPROUND s;
          s = s\<lparr>v0 := v0 s XOR b\<rparr>;
          s = s\<lparr>v2 := v2 s XOR 0xff\<rparr>;
          s = SIPROUND s;
          s = SIPROUND s
      in v0 s XOR v1 s XOR v2 s XOR v3 s)"

text \<open>The portable code stores the result byte by byte and returns the word in that memory.\<close>

definition sip_result :: "cpu \<Rightarrow> u64 \<Rightarrow> u64" where
  "sip_result cpu b =
     (case cpu of
        UNALIGNED_LE_CPU \<Rightarrow> b
      | Portable be \<Rightarrow> word_of_int (mem_load be (U64TO8_LE b)))"

definition siphash :: "cpu \<Rightarrow> bytes \<Rightarrow> bytes \<Rightarrow> u64" where
  "siphash cpu inp k =
     (let left = length inp mod 8;
          b = push_bit 56 (of_nat (length inp));
          (s, rest) = sip_words (U8TO64_LE cpu) inp (sip_init cpu k);
          b = sip_left rd_byte left rest b
      in sip_result cpu (sip_finish s b))"

definition siphash_nocase :: "cpu \<Rightarrow> bytes \<Rightarrow> bytes \<Rightarrow> u64" where
  "siphash_nocase cpu inp k =
     (let left = length inp mod 8;
          b = push_bit 56 (of_nat (length inp));
          (s, rest) = sip_words U8TO64_LE_NOCASE inp (sip_init cpu k);
          b = sip_left rd_nocase left rest b
      in sip_result cpu (sip_finish s b))"

section \<open>The loads agree\<close>

definition sip_lower :: "u8 \<Rightarrow> u8" where
  "sip_lower c = word_of_int (siptlw (uint c))"

lemma uint_sip_lower: "uint (sip_lower c) = siptlw (uint c)"
proof -
  have "0 \<le> uint c" "uint c < 256" using uint_bounded [of c] by simp_all
  then show ?thesis by (simp add: sip_lower_def siptlw_def byte_simps)
qed

lemma rd_nocase_lower: "rd_nocase c = rd_byte (sip_lower c)"
  by (metis rd_byte_def rd_nocase_def uint_sip_lower unsigned_ucast_eq word_of_int_uint
      ucast_eq)

lemma combine8_nocase:
  assumes "8 \<le> length p"
  shows "combine8 rd_nocase p = combine8 rd_byte (map sip_lower p)"
proof -
  have "p \<noteq> []" using assms by auto
  then show ?thesis using assms by (simp add: combine8_def rd_nocase_lower)
qed

text \<open>One byte put below the others: the sum is a disjunction.\<close>

lemma le_val_or: "le_val (b # bs) = uint b OR push_bit 8 (le_val bs)"
proof -
  have "uint b AND push_bit 8 (le_val bs) = 0"
    by (rule bit_eqI) (auto simp: bit_simps dest: bit_imp_le_length)
  then have "uint b + push_bit 8 (le_val bs) = uint b OR push_bit 8 (le_val bs)"
    by (rule disjunctive_add_eq_or)
  then show ?thesis by (simp add: push_bit_eq_mult)
qed

lemma word_le_val:
  "(word_of_int (le_val (b # bs)) :: u64) = rd_byte b OR push_bit 8 (word_of_int (le_val bs))"
  unfolding le_val_or rd_byte_def
  by (rule bit_word_eqI) (auto simp: bit_simps)

lemma combine8_le_val:
  assumes "8 \<le> length p"
  shows "combine8 rd_byte p = word_of_int (le_val (take 8 p))"
proof -
  have "take 8 p = [p ! 0, p ! 1, p ! 2, p ! 3, p ! 4, p ! 5, p ! 6, p ! 7]"
    using assms by (intro nth_equalityI) (auto simp: less_Suc_eq eval_nat_numeral nth_Cons')
  then have "(word_of_int (le_val (take 8 p)) :: u64) =
      rd_byte (p ! 0) OR push_bit 8 (rd_byte (p ! 1) OR push_bit 8 (rd_byte (p ! 2) OR
      push_bit 8 (rd_byte (p ! 3) OR push_bit 8 (rd_byte (p ! 4) OR push_bit 8 (rd_byte (p ! 5) OR
      push_bit 8 (rd_byte (p ! 6) OR push_bit 8 (rd_byte (p ! 7))))))))"
    by (simp only: word_le_val) simp
  then show ?thesis by (simp add: combine8_def push_bit_or or.assoc)
qed

lemma U8TO64_LE_eq: "8 \<le> length p \<Longrightarrow> U8TO64_LE cpu p = combine8 rd_byte p"
  by (cases cpu) (simp_all add: U8TO64_LE_def combine8_le_val mem_load_def host_order_def)

lemma U64TO8_LE_bytes: "U64TO8_LE v = le_bytes 8 (uint v)"
proof -
  have b: "(ucast (drop_bit n v) :: u8) = word_of_int (uint v div 2 ^ n)" for n
    by (rule bit_word_eqI) (auto simp: bit_simps simp flip: drop_bit_eq_div)
  have lo: "(ucast (drop_bit n (ucast v :: u32)) :: u8) = word_of_int (uint v div 2 ^ n)"
    if "n \<le> 24" for n
    using that by (intro bit_word_eqI) (auto simp: bit_simps simp flip: drop_bit_eq_div)
  have hi: "(ucast (drop_bit n (ucast (drop_bit 32 v) :: u32)) :: u8) =
      word_of_int (uint v div 2 ^ (n + 32))" if "n \<le> 24" for n
    using that by (intro bit_word_eqI) (auto simp: bit_simps ac_simps simp flip: drop_bit_eq_div)
  have eight: "(8 :: nat) = Suc (Suc (Suc (Suc (Suc (Suc (Suc (Suc 0)))))))" by simp
  have "le_bytes 8 (uint v) = [word_of_int (uint v div 2 ^ 0), word_of_int (uint v div 2 ^ 8),
      word_of_int (uint v div 2 ^ 16), word_of_int (uint v div 2 ^ 24),
      word_of_int (uint v div 2 ^ 32), word_of_int (uint v div 2 ^ 40),
      word_of_int (uint v div 2 ^ 48), word_of_int (uint v div 2 ^ 56)]"
    unfolding eight le_bytes.simps by (simp flip: zdiv_zmult2_eq)
  then show ?thesis
    using lo [of 0] lo [of 8] lo [of 16] lo [of 24] hi [of 0] hi [of 8] hi [of 16] hi [of 24]
    by (simp add: U64TO8_LE_def U32TO8_LE_def)
qed

lemma sip_words_map:
  assumes "\<And>p. 8 \<le> length p \<Longrightarrow> load p = load' (map f p)"
  shows "sip_words load' (map f inp) s =
    (fst (sip_words load inp s), map f (snd (sip_words load inp s)))"
  using assms
proof (induction load inp s rule: sip_words.induct)
  case (1 load inp s)
  show ?case
  proof (cases "8 \<le> length inp")
    case True
    then show ?thesis using 1
      by (simp add: sip_words.simps [of load inp s] sip_words.simps [of load' "map f inp" s]
          Let_def drop_map)
  next
    case False
    then show ?thesis
      by (simp add: sip_words.simps [of load inp s] sip_words.simps [of load' "map f inp" s])
  qed
qed

lemma sip_words_left: "length (snd (sip_words load inp s)) = length inp mod 8"
proof (induction load inp s rule: sip_words.induct)
  case (1 load inp s)
  then show ?case
    by (cases "8 \<le> length inp") (simp_all add: sip_words.simps [of load inp s] Let_def le_mod_geq)
qed

lemma sip_left_map:
  assumes "\<And>c. rd c = rd' (f c)"
  shows "j \<le> length inp \<Longrightarrow> sip_left rd' j (map f inp) b = sip_left rd j inp b"
  by (induction j arbitrary: b) (simp_all add: assms)

section \<open>Properties\<close>

lemma mem_store_load: "length bs = n \<Longrightarrow> mem_store be n (mem_load be bs) = bs"
  using le_bytes_le_val [of bs] le_bytes_le_val [of "rev bs"]
  by (auto simp: mem_store_def mem_load_def host_order_def)

lemma mem_load_bounds: "length bs = n \<Longrightarrow> 0 \<le> mem_load be bs \<and> mem_load be bs < 256 ^ n"
  using le_val_bounds [of bs] le_val_bounds [of "rev bs"]
  by (auto simp: mem_load_def host_order_def)

text \<open>
  C21: the case-insensitive hash is the hash of the lower-cased input, in every build: two
  keys that differ only in case fall in the same bucket of the command table.
\<close>
theorem siphash_nocase_lower:
  "siphash_nocase cpu inp k = siphash cpu (map sip_lower inp) k"
proof -
  have "U8TO64_LE_NOCASE p = U8TO64_LE cpu (map sip_lower p)" if "8 \<le> length p" for p
    using that by (simp add: U8TO64_LE_NOCASE_def U8TO64_LE_eq combine8_nocase)
  note words = sip_words_map [of U8TO64_LE_NOCASE "U8TO64_LE cpu" sip_lower inp, OF this]
  show ?thesis
    using sip_left_map [of rd_nocase rd_byte sip_lower, OF rd_nocase_lower]
    by (simp add: siphash_def siphash_nocase_def words sip_words_left case_prod_beta Let_def)
qed

text \<open>
  C22: the bytes of the hash in memory are the same on every machine: the portable build, on a
  host of either byte order, stores what the build for unaligned little-endian CPUs computes.
  So on a little-endian host the two builds return the same number.
\<close>
theorem siphash_portable:
  assumes "length k = 16"
  shows "mem_store be 8 (uint (siphash (Portable be) inp k)) =
    le_bytes 8 (uint (siphash UNALIGNED_LE_CPU inp k))"
proof -
  have init: "sip_init (Portable be) k = sip_init UNALIGNED_LE_CPU k"
    using assms by (simp add: sip_init_def U8TO64_LE_eq)
  have words: "sip_words (U8TO64_LE (Portable be)) inp s = sip_words (U8TO64_LE UNALIGNED_LE_CPU) inp s"
    for s
    using sip_words_map [of "U8TO64_LE UNALIGNED_LE_CPU" "U8TO64_LE (Portable be)" "\<lambda>x. x" inp s]
    by (simp add: U8TO64_LE_eq)
  define b where "b = siphash UNALIGNED_LE_CPU inp k"
  have "siphash (Portable be) inp k = word_of_int (mem_load be (U64TO8_LE b))"
    by (simp add: b_def siphash_def init words sip_result_def Let_def case_prod_beta)
  then have "uint (siphash (Portable be) inp k) = mem_load be (U64TO8_LE b)"
    using mem_load_bounds [of "U64TO8_LE b" 8 be] by (simp add: U64TO8_LE_bytes uint_word_of_int)
  then show ?thesis
    unfolding b_def [symmetric] by (simp add: U64TO8_LE_bytes mem_store_load)
qed

theorem siphash_portable_witness:
  "mem_store True 8 (uint (siphash (Portable True) [1, 2, 3] (replicate 16 0))) =
    le_bytes 8 (uint (siphash UNALIGNED_LE_CPU [1, 2, 3] (replicate 16 0)))"
  by (rule siphash_portable) simp

end
