(* ===== verification/Dict.thy ===== *)
theory Dict
  imports RedisPrelude "HOL-Library.Multiset"
begin

text \<open>
  The hash tables of \<open>src/dict.c\<close>: chained buckets, two tables with incremental rehashing, and
  the growth policy. A chain is the list of its entries, an entry the pair of its key and value;
  a pointer to an entry is its place (table, bucket, position). Keys that the dictionary's
  \<open>keyCompare\<close> identifies are one value of the type \<open>'k\<close>; \<open>hash\<close> is its \<open>hashFunction\<close>.
  \<open>unsigned long\<close> has 64 bits.
\<close>

section \<open>Data\<close>

type_synonym ('k, 'v) chain = "('k \<times> 'v) list"

record ('k, 'v) dictht =
  ht_table :: "('k, 'v) chain list"
  ht_size :: nat
  ht_sizemask :: nat
  ht_used :: nat

record ('k, 'v) dict =
  dict_ht0 :: "('k, 'v) dictht"
  dict_ht1 :: "('k, 'v) dictht"
  rehashidx :: int
  iterators :: nat

definition DICT_HT_INITIAL_SIZE :: nat where "DICT_HT_INITIAL_SIZE = 4"
definition dict_force_resize_ratio :: nat where "dict_force_resize_ratio = 5"
abbreviation LONG_MAX :: nat where "LONG_MAX \<equiv> 9223372036854775807"

definition dictReset :: "('k, 'v) dictht" where
  "dictReset = \<lparr>ht_table = [], ht_size = 0, ht_sizemask = 0, ht_used = 0\<rparr>"

definition dictCreate :: "('k, 'v) dict" where
  "dictCreate = \<lparr>dict_ht0 = dictReset, dict_ht1 = dictReset, rehashidx = - 1, iterators = 0\<rparr>"

definition dictIsRehashing :: "('k, 'v) dict \<Rightarrow> bool" where
  "dictIsRehashing d \<longleftrightarrow> rehashidx d \<noteq> - 1"

definition dictSize :: "('k, 'v) dict \<Rightarrow> nat" where
  "dictSize d = ht_used (dict_ht0 d) + ht_used (dict_ht1 d)"

definition dict_ht :: "nat \<Rightarrow> ('k, 'v) dict \<Rightarrow> ('k, 'v) dictht" where
  "dict_ht t d = (if t = 0 then dict_ht0 d else dict_ht1 d)"

definition set_ht :: "nat \<Rightarrow> ('k, 'v) dictht \<Rightarrow> ('k, 'v) dict \<Rightarrow> ('k, 'v) dict" where
  "set_ht t h d = (if t = 0 then d\<lparr>dict_ht0 := h\<rparr> else d\<lparr>dict_ht1 := h\<rparr>)"

definition ht_index :: "('k \<Rightarrow> u64) \<Rightarrow> ('k, 'v) dictht \<Rightarrow> 'k \<Rightarrow> nat" where
  "ht_index hash ht k = unat (hash k AND of_nat (ht_sizemask ht))"

section \<open>Growing\<close>

function nextPowerLoop :: "nat \<Rightarrow> nat \<Rightarrow> nat" where
  "nextPowerLoop sz i = (if i = 0 \<or> i \<ge> sz then i else nextPowerLoop sz (i * 2))"
  by pat_completeness auto
termination by (relation "measure (\<lambda>(sz, i). sz - i)") auto

declare nextPowerLoop.simps [simp del]

definition dictNextPower :: "nat \<Rightarrow> nat" where
  "dictNextPower sz =
     (if sz \<ge> LONG_MAX then LONG_MAX + 1 else nextPowerLoop sz DICT_HT_INITIAL_SIZE)"

text \<open>
  The flag of the result is \<open>DICT_OK\<close>. The allocation is modelled by its number of buckets; the
  size in bytes that the code computes would wrap from \<open>2 ^ 61\<close> buckets on, which is more than
  the address space holds.
\<close>

definition dictExpand :: "('k, 'v) dict \<Rightarrow> nat \<Rightarrow> ('k, 'v) dict \<times> bool" where
  "dictExpand d sz =
     (if dictIsRehashing d \<or> ht_used (dict_ht0 d) > sz then (d, False)
      else
        let realsize = dictNextPower sz
        in if realsize = ht_size (dict_ht0 d) then (d, False)
           else
             let n = \<lparr>ht_table = replicate realsize [], ht_size = realsize,
                      ht_sizemask = realsize - 1, ht_used = 0\<rparr>
             in if ht_table (dict_ht0 d) = [] then (d\<lparr>dict_ht0 := n\<rparr>, True)
                else (d\<lparr>dict_ht1 := n, rehashidx := 0\<rparr>, True))"

definition dictResize :: "bool \<Rightarrow> ('k, 'v) dict \<Rightarrow> ('k, 'v) dict \<times> bool" where
  "dictResize can_resize d =
     (if \<not> can_resize \<or> dictIsRehashing d then (d, False)
      else
        let minimal = ht_used (dict_ht0 d);
            minimal = (if minimal < DICT_HT_INITIAL_SIZE then DICT_HT_INITIAL_SIZE else minimal)
        in dictExpand d minimal)"

definition dictExpandIfNeeded :: "bool \<Rightarrow> ('k, 'v) dict \<Rightarrow> ('k, 'v) dict \<times> bool" where
  "dictExpandIfNeeded can_resize d =
     (if dictIsRehashing d then (d, True)
      else if ht_size (dict_ht0 d) = 0 then dictExpand d DICT_HT_INITIAL_SIZE
      else if ht_used (dict_ht0 d) \<ge> ht_size (dict_ht0 d) \<and>
              (can_resize \<or>
               ht_used (dict_ht0 d) div ht_size (dict_ht0 d) > dict_force_resize_ratio)
           then dictExpand d (ht_used (dict_ht0 d) * 2 mod 2 ^ 64)
      else (d, True))"

section \<open>Incremental rehashing\<close>

text \<open>
  \<open>n\<close> steps of rehashing. \<open>skip_empty\<close> is the inner loop over empty buckets: \<open>None\<close> when the
  budget of empty visits is used up. \<open>rehash_chain\<close> moves the entries of one bucket.
\<close>

fun skip_empty :: "nat \<Rightarrow> ('k, 'v) dict \<Rightarrow> ('k, 'v) dict \<times> nat option" where
  "skip_empty 0 d = (d, None)"
| "skip_empty (Suc empty_visits) d =
     (if ht_table (dict_ht0 d) ! nat (rehashidx d) = [] then
        let d = d\<lparr>rehashidx := rehashidx d + 1\<rparr>
        in if empty_visits = 0 then (d, None) else skip_empty empty_visits d
      else (d, Some (Suc empty_visits)))"

fun rehash_chain :: "('k \<Rightarrow> u64) \<Rightarrow> ('k, 'v) chain \<Rightarrow> ('k, 'v) dict \<Rightarrow> ('k, 'v) dict" where
  "rehash_chain hash [] d = d"
| "rehash_chain hash (de # nextde) d =
     (let t0 = dict_ht0 d; t1 = dict_ht1 d;
          h = ht_index hash t1 (fst de);
          t1 = t1\<lparr>ht_table := (ht_table t1)[h := de # ht_table t1 ! h]\<rparr>;
          t0 = t0\<lparr>ht_used := ht_used t0 - 1\<rparr>;
          t1 = t1\<lparr>ht_used := ht_used t1 + 1\<rparr>
      in rehash_chain hash nextde (d\<lparr>dict_ht0 := t0, dict_ht1 := t1\<rparr>))"

definition rehash_bucket :: "('k \<Rightarrow> u64) \<Rightarrow> ('k, 'v) dict \<Rightarrow> ('k, 'v) dict" where
  "rehash_bucket hash d =
     (let i = nat (rehashidx d);
          d = rehash_chain hash (ht_table (dict_ht0 d) ! i) d;
          t0 = dict_ht0 d
      in d\<lparr>dict_ht0 := t0\<lparr>ht_table := (ht_table t0)[i := []]\<rparr>, rehashidx := rehashidx d + 1\<rparr>)"

definition rehash_finish :: "('k, 'v) dict \<Rightarrow> ('k, 'v) dict \<times> bool" where
  "rehash_finish d =
     (if ht_used (dict_ht0 d) = 0
      then (d\<lparr>dict_ht0 := dict_ht1 d, dict_ht1 := dictReset, rehashidx := - 1\<rparr>, False)
      else (d, True))"

fun rehash_loop :: "('k \<Rightarrow> u64) \<Rightarrow> nat \<Rightarrow> nat \<Rightarrow> ('k, 'v) dict \<Rightarrow> ('k, 'v) dict \<times> bool" where
  "rehash_loop hash 0 empty_visits d = rehash_finish d"
| "rehash_loop hash (Suc n) empty_visits d =
     (if ht_used (dict_ht0 d) = 0 then rehash_finish d
      else
        case skip_empty empty_visits d of
          (d, None) \<Rightarrow> (d, True)
        | (d, Some empty_visits) \<Rightarrow> rehash_loop hash n empty_visits (rehash_bucket hash d))"

text \<open>
  In the code \<open>n\<close> and the number of empty buckets to visit are ints; the callers pass 1 and 100,
  so that \<open>n * 10\<close> does not overflow.
\<close>

definition dictRehash :: "('k \<Rightarrow> u64) \<Rightarrow> ('k, 'v) dict \<Rightarrow> nat \<Rightarrow> ('k, 'v) dict \<times> bool" where
  "dictRehash hash d n =
     (if \<not> dictIsRehashing d then (d, False) else rehash_loop hash n (n * 10) d)"

definition dictRehashStep :: "('k \<Rightarrow> u64) \<Rightarrow> ('k, 'v) dict \<Rightarrow> ('k, 'v) dict" where
  "dictRehashStep hash d = (if iterators d = 0 then fst (dictRehash hash d 1) else d)"

section \<open>Lookup, insertion, deletion\<close>

type_synonym loc = "nat \<times> nat \<times> nat"

fun chain_find :: "'k \<Rightarrow> ('k, 'v) chain \<Rightarrow> nat option" where
  "chain_find k [] = None"
| "chain_find k (he # next) =
     (if fst he = k then Some 0 else map_option Suc (chain_find k next))"

text \<open>The search over one or two tables.\<close>

definition ht_search :: "('k \<Rightarrow> u64) \<Rightarrow> ('k, 'v) dict \<Rightarrow> 'k \<Rightarrow> nat \<Rightarrow> loc option" where
  "ht_search hash d k t =
     (let ht = dict_ht t d; idx = ht_index hash ht k
      in map_option (\<lambda>j. (t, idx, j)) (chain_find k (ht_table ht ! idx)))"

definition dict_search :: "('k \<Rightarrow> u64) \<Rightarrow> ('k, 'v) dict \<Rightarrow> 'k \<Rightarrow> loc option" where
  "dict_search hash d k =
     (case ht_search hash d k 0 of
        Some l \<Rightarrow> Some l
      | None \<Rightarrow> if \<not> dictIsRehashing d then None else ht_search hash d k 1)"

definition entry_at :: "('k, 'v) dict \<Rightarrow> loc \<Rightarrow> 'k \<times> 'v" where
  "entry_at d l = (case l of (t, i, j) \<Rightarrow> ht_table (dict_ht t d) ! i ! j)"

definition dictFind :: "('k \<Rightarrow> u64) \<Rightarrow> ('k, 'v) dict \<Rightarrow> 'k \<Rightarrow> ('k, 'v) dict \<times> loc option" where
  "dictFind hash d k =
     (if ht_used (dict_ht0 d) + ht_used (dict_ht1 d) = 0 then (d, None)
      else
        let d = (if dictIsRehashing d then dictRehashStep hash d else d)
        in (d, dict_search hash d k))"

definition dictFetchValue :: "('k \<Rightarrow> u64) \<Rightarrow> ('k, 'v) dict \<Rightarrow> 'k \<Rightarrow> ('k, 'v) dict \<times> 'v option" where
  "dictFetchValue hash d k =
     (let (d, he) = dictFind hash d k in (d, map_option (\<lambda>l. snd (entry_at d l)) he))"

text \<open>\<open>dictSetVal\<close> on the entry at a place.\<close>

definition dictSetVal :: "('k, 'v) dict \<Rightarrow> loc \<Rightarrow> 'v \<Rightarrow> ('k, 'v) dict" where
  "dictSetVal d l v =
     (case l of (t, i, j) \<Rightarrow>
        let ht = dict_ht t d; chain = ht_table ht ! i
        in set_ht t (ht\<lparr>ht_table := (ht_table ht)[i := chain[j := (fst (chain ! j), v)]]\<rparr>) d)"

text \<open>
  \<open>_dictKeyIndex\<close>: the bucket for a new key, or \<open>-1\<close> with the existing entry, or \<open>-1\<close> with no
  entry when the table could not be expanded.
\<close>

datatype key_index = Index nat | KeyExists loc | ExpandFailed

definition dictKeyIndex ::
  "('k \<Rightarrow> u64) \<Rightarrow> bool \<Rightarrow> ('k, 'v) dict \<Rightarrow> 'k \<Rightarrow> ('k, 'v) dict \<times> key_index" where
  "dictKeyIndex hash can_resize d k =
     (let (d, ok) = dictExpandIfNeeded can_resize d
      in if \<not> ok then (d, ExpandFailed)
         else
           case dict_search hash d k of
             Some l \<Rightarrow> (d, KeyExists l)
           | None \<Rightarrow> (d, Index (ht_index hash (dict_ht (if dictIsRehashing d then 1 else 0) d) k)))"

text \<open>The new entry's value is not set by \<open>dictAddRaw\<close>: it is \<open>junk\<close> until \<open>dictSetVal\<close>.\<close>

datatype add_result = Added loc | NotAdded "loc option"

definition dictAddRaw ::
  "('k \<Rightarrow> u64) \<Rightarrow> bool \<Rightarrow> 'v \<Rightarrow> ('k, 'v) dict \<Rightarrow> 'k \<Rightarrow> ('k, 'v) dict \<times> add_result" where
  "dictAddRaw hash can_resize junk d k =
     (let d = (if dictIsRehashing d then dictRehashStep hash d else d)
      in case dictKeyIndex hash can_resize d k of
           (d, ExpandFailed) \<Rightarrow> (d, NotAdded None)
         | (d, KeyExists l) \<Rightarrow> (d, NotAdded (Some l))
         | (d, Index index) \<Rightarrow>
             let t = (if dictIsRehashing d then 1 else 0); ht = dict_ht t d;
                 ht = ht\<lparr>ht_table := (ht_table ht)[index := (k, junk) # ht_table ht ! index]\<rparr>;
                 ht = ht\<lparr>ht_used := ht_used ht + 1\<rparr>
             in (set_ht t ht d, Added (t, index, 0)))"

definition dictAdd ::
  "('k \<Rightarrow> u64) \<Rightarrow> bool \<Rightarrow> 'v \<Rightarrow> ('k, 'v) dict \<Rightarrow> 'k \<Rightarrow> 'v \<Rightarrow> ('k, 'v) dict \<times> bool" where
  "dictAdd hash can_resize junk d k v =
     (case dictAddRaw hash can_resize junk d k of
        (d, NotAdded e) \<Rightarrow> (d, False)
      | (d, Added l) \<Rightarrow> (dictSetVal d l v, True))"

text \<open>\<open>None\<close>: the code dereferences the \<open>NULL\<close> left in \<open>existing\<close>.\<close>

definition dictReplace ::
  "('k \<Rightarrow> u64) \<Rightarrow> bool \<Rightarrow> 'v \<Rightarrow> ('k, 'v) dict \<Rightarrow> 'k \<Rightarrow> 'v \<Rightarrow> (('k, 'v) dict \<times> bool) option" where
  "dictReplace hash can_resize junk d k v =
     (case dictAddRaw hash can_resize junk d k of
        (d, Added l) \<Rightarrow> Some (dictSetVal d l v, True)
      | (d, NotAdded (Some l)) \<Rightarrow> Some (dictSetVal d l v, False)
      | (d, NotAdded None) \<Rightarrow> None)"

definition dictAddOrFind ::
  "('k \<Rightarrow> u64) \<Rightarrow> bool \<Rightarrow> 'v \<Rightarrow> ('k, 'v) dict \<Rightarrow> 'k \<Rightarrow> ('k, 'v) dict \<times> loc option" where
  "dictAddOrFind hash can_resize junk d k =
     (case dictAddRaw hash can_resize junk d k of
        (d, Added l) \<Rightarrow> (d, Some l)
      | (d, NotAdded e) \<Rightarrow> (d, e))"

definition dictGenericDelete ::
  "('k \<Rightarrow> u64) \<Rightarrow> ('k, 'v) dict \<Rightarrow> 'k \<Rightarrow> ('k, 'v) dict \<times> ('k \<times> 'v) option" where
  "dictGenericDelete hash d k =
     (if ht_used (dict_ht0 d) = 0 \<and> ht_used (dict_ht1 d) = 0 then (d, None)
      else
        let d = (if dictIsRehashing d then dictRehashStep hash d else d)
        in case dict_search hash d k of
             None \<Rightarrow> (d, None)
           | Some (t, idx, j) \<Rightarrow>
               let ht = dict_ht t d; chain = ht_table ht ! idx; he = chain ! j;
                   chain = take j chain @ drop (Suc j) chain;
                   ht = ht\<lparr>ht_table := (ht_table ht)[idx := chain]\<rparr>;
                   ht = ht\<lparr>ht_used := ht_used ht - 1\<rparr>
               in (set_ht t ht d, Some he))"

definition dictDelete :: "('k \<Rightarrow> u64) \<Rightarrow> ('k, 'v) dict \<Rightarrow> 'k \<Rightarrow> ('k, 'v) dict \<times> bool" where
  "dictDelete hash d k = (let (d, he) = dictGenericDelete hash d k in (d, he \<noteq> None))"

definition dictUnlink ::
  "('k \<Rightarrow> u64) \<Rightarrow> ('k, 'v) dict \<Rightarrow> 'k \<Rightarrow> ('k, 'v) dict \<times> ('k \<times> 'v) option" where
  "dictUnlink hash d k = dictGenericDelete hash d k"

definition dictEmpty :: "('k, 'v) dict \<Rightarrow> ('k, 'v) dict" where
  "dictEmpty d = d\<lparr>dict_ht0 := dictReset, dict_ht1 := dictReset, rehashidx := - 1, iterators := 0\<rparr>"

section \<open>Invariant\<close>

definition table_ok :: "('k \<Rightarrow> u64) \<Rightarrow> ('k, 'v) dictht \<Rightarrow> bool" where
  "table_ok hash ht \<longleftrightarrow>
     (\<exists>n. 2 \<le> n \<and> n \<le> 63 \<and> ht_size ht = 2 ^ n) \<and>
     ht_sizemask ht = ht_size ht - 1 \<and> length (ht_table ht) = ht_size ht \<and>
     (\<forall>i<ht_size ht. \<forall>e\<in>set (ht_table ht ! i). ht_index hash ht (fst e) = i)"

definition ht_entries :: "('k, 'v) dictht \<Rightarrow> ('k, 'v) chain" where
  "ht_entries ht = concat (ht_table ht)"

definition ht_ok :: "('k \<Rightarrow> u64) \<Rightarrow> ('k, 'v) dictht \<Rightarrow> bool" where
  "ht_ok hash ht \<longleftrightarrow>
     ht = dictReset \<or> (table_ok hash ht \<and> ht_used ht = length (ht_entries ht))"

definition dict_entries :: "('k, 'v) dict \<Rightarrow> ('k, 'v) chain" where
  "dict_entries d = ht_entries (dict_ht0 d) @ ht_entries (dict_ht1 d)"

text \<open>
  While rehashing, both tables exist and the buckets of the first one below \<open>rehashidx\<close> are
  empty; otherwise the second table is reset. A key occurs once.
\<close>

definition rehash_ok :: "('k, 'v) dict \<Rightarrow> bool" where
  "rehash_ok d \<longleftrightarrow>
     (if rehashidx d = - 1 then dict_ht1 d = dictReset
      else 0 \<le> rehashidx d \<and> nat (rehashidx d) \<le> ht_size (dict_ht0 d) \<and>
        dict_ht0 d \<noteq> dictReset \<and> dict_ht1 d \<noteq> dictReset \<and>
        (\<forall>i<nat (rehashidx d). ht_table (dict_ht0 d) ! i = []))"

definition dict_ok :: "('k \<Rightarrow> u64) \<Rightarrow> ('k, 'v) dict \<Rightarrow> bool" where
  "dict_ok hash d \<longleftrightarrow>
     ht_ok hash (dict_ht0 d) \<and> ht_ok hash (dict_ht1 d) \<and> rehash_ok d \<and>
     distinct (map fst (dict_entries d))"

text \<open>The map a dictionary stands for.\<close>

definition dict_map :: "('k, 'v) dict \<Rightarrow> 'k \<Rightarrow> 'v option" where
  "dict_map d = map_of (dict_entries d)"

section \<open>Indexes and buckets\<close>

lemma unat_and_pow2:
  assumes "n \<le> 63"
  shows "unat ((w :: u64) AND of_nat (2 ^ n - 1)) = unat w mod 2 ^ n"
proof -
  have "of_nat (2 ^ n - 1) = (mask n :: u64)" by (metis mask_nat_def of_nat_mask_eq)
  then have "w AND of_nat (2 ^ n - 1) = take_bit n w" by (simp only: take_bit_eq_mask)
  then show ?thesis by (simp only: unsigned_take_bit_eq take_bit_eq_mod [where ?'a = nat])
qed

lemma table_ok_index:
  "table_ok hash ht \<Longrightarrow> ht_index hash ht k = unat (hash k) mod ht_size ht"
proof -
  assume ok: "table_ok hash ht"
  then obtain n where "n \<le> 63" "ht_size ht = 2 ^ n" by (auto simp: table_ok_def)
  moreover have "ht_sizemask ht = ht_size ht - 1" using ok by (simp add: table_ok_def)
  ultimately show ?thesis by (simp only: ht_index_def unat_and_pow2)
qed

lemma table_ok_index_less: "table_ok hash ht \<Longrightarrow> ht_index hash ht k < length (ht_table ht)"
  by (simp add: table_ok_index) (auto simp: table_ok_def)

lemma mset_concat_update:
  "i < length t \<Longrightarrow> mset (concat (t[i := c])) + mset (t ! i) = mset (concat t) + mset c"
proof (induction t arbitrary: i)
  case (Cons x t)
  then show ?case by (cases i) (simp_all add: ac_simps)
qed simp

lemma mset_concat_push:
  "i < length t \<Longrightarrow> mset (concat (t[i := e # t ! i])) = add_mset e (mset (concat t))"
  using mset_concat_update [of i t "e # t ! i"] by simp

lemma length_concat_push:
  "i < length t \<Longrightarrow> length (concat (t[i := e # t ! i])) = Suc (length (concat t))"
  using mset_concat_push [of i t e] by (metis size_mset size_add_mset)

lemma table_ok_update:
  assumes "table_ok hash ht" "\<forall>e\<in>set c. ht_index hash ht (fst e) = i"
  shows "table_ok hash (ht\<lparr>ht_table := (ht_table ht)[i := c]\<rparr>)"
proof -
  let ?ht = "ht\<lparr>ht_table := (ht_table ht)[i := c]\<rparr>"
  have ix: "ht_index hash ?ht k = ht_index hash ht k" for k by (simp add: ht_index_def)
  have "ht_index hash ?ht (fst x) = j"
    if "j < ht_size ht" "x \<in> set (ht_table ?ht ! j)" for j x
    using that assms unfolding ix
    by (cases "j = i") (auto simp: table_ok_def simp del: One_nat_def)
  then show ?thesis using assms(1) by (simp add: table_ok_def)
qed

lemma table_ok_bucket:
  "\<lbrakk>table_ok hash ht; i < length (ht_table ht); e \<in> set (ht_table ht ! i)\<rbrakk> \<Longrightarrow>
   ht_index hash ht (fst e) = i"
  by (simp add: table_ok_def)

lemma table_ok_push:
  assumes "table_ok hash ht" "i = ht_index hash ht (fst e)"
  shows "table_ok hash (ht\<lparr>ht_table := (ht_table ht)[i := e # ht_table ht ! i]\<rparr>)"
  using assms table_ok_index_less [OF assms(1)] table_ok_bucket [OF assms(1)]
  by (intro table_ok_update) auto

lemma table_ok_used [simp]:
  "table_ok hash (ht\<lparr>ht_used := n\<rparr>) = table_ok hash ht"
  "table_ok hash (ht\<lparr>ht_used := n, ht_table := t\<rparr>) = table_ok hash (ht\<lparr>ht_table := t\<rparr>)"
  by (simp_all add: table_ok_def ht_index_def)

lemma table_ok_not_reset: "table_ok hash ht \<Longrightarrow> ht \<noteq> dictReset"
  by (auto simp: table_ok_def dictReset_def)

lemma ht_ok_table: "\<lbrakk>ht_ok hash ht; ht \<noteq> dictReset\<rbrakk> \<Longrightarrow> table_ok hash ht \<and> ht_used ht = length (ht_entries ht)"
  by (simp add: ht_ok_def)

lemma ht_entries_reset [simp]: "ht_entries dictReset = []"
  by (simp add: ht_entries_def dictReset_def)

lemma ht_ok_used: "ht_ok hash ht \<Longrightarrow> ht_used ht = length (ht_entries ht)"
  by (auto simp: ht_ok_def dictReset_def ht_entries_def)

lemma dict_entries_mset:
  "mset (dict_entries d) = mset (ht_entries (dict_ht0 d)) + mset (ht_entries (dict_ht1 d))"
  by (simp add: dict_entries_def)

text \<open>The map depends on the entries as a multiset only.\<close>

lemma map_of_mset:
  assumes "mset xs = mset ys" "distinct (map fst xs)"
  shows "map_of xs = map_of ys \<and> distinct (map fst ys)"
proof -
  have "mset (map fst xs) = mset (map fst ys)" using assms(1) by simp
  then have d: "distinct (map fst ys)" using assms(2) by (metis mset_eq_imp_distinct_iff)
  have "set xs = set ys" using assms(1) by (metis set_mset_mset)
  then show ?thesis using d assms(2) map_of_inject_set by blast
qed

section \<open>Rehashing keeps the map\<close>

lemma rehash_chain_frame:
  "rehashidx (rehash_chain hash c d) = rehashidx d"
  "iterators (rehash_chain hash c d) = iterators d"
  "dict_ht0 (rehash_chain hash c d) =
    (dict_ht0 d)\<lparr>ht_used := ht_used (dict_ht0 d) - length c\<rparr>"
  by (induction hash c d rule: rehash_chain.induct) (simp_all add: Let_def)

lemma rehash_chain_ht1:
  "\<lbrakk>table_ok hash (dict_ht1 d); ht_used (dict_ht1 d) = length (ht_entries (dict_ht1 d))\<rbrakk> \<Longrightarrow>
   table_ok hash (dict_ht1 (rehash_chain hash c d)) \<and>
   ht_used (dict_ht1 (rehash_chain hash c d)) =
     length (ht_entries (dict_ht1 (rehash_chain hash c d))) \<and>
   mset (ht_entries (dict_ht1 (rehash_chain hash c d))) =
     mset (ht_entries (dict_ht1 d)) + mset c"
proof (induction hash c d rule: rehash_chain.induct)
  case (2 hash de nextde d)
  note less = table_ok_index_less [OF "2.prems"(1), of "fst de"]
  show ?case
    using "2.IH" [OF refl refl refl refl refl refl] "2.prems" less
      table_ok_push [OF "2.prems"(1) refl, of de]
    by (simp add: Let_def ht_entries_def mset_concat_push length_concat_push)
qed simp

lemma dict_ok_rehashing:
  assumes "dict_ok hash d" "dictIsRehashing d"
  shows "table_ok hash (dict_ht0 d)" "table_ok hash (dict_ht1 d)"
    "ht_used (dict_ht0 d) = length (ht_entries (dict_ht0 d))"
    "ht_used (dict_ht1 d) = length (ht_entries (dict_ht1 d))"
    "0 \<le> rehashidx d" "nat (rehashidx d) \<le> ht_size (dict_ht0 d)"
    "\<And>i. i < nat (rehashidx d) \<Longrightarrow> ht_table (dict_ht0 d) ! i = []"
  using assms ht_ok_table [of hash "dict_ht0 d"] ht_ok_table [of hash "dict_ht1 d"]
  by (auto simp: dict_ok_def rehash_ok_def dictIsRehashing_def)

text \<open>The assertion of \<open>dictRehash\<close>: as long as the first table has entries, \<open>rehashidx\<close> is
  below its size.\<close>

lemma rehashidx_in_range:
  assumes "dict_ok hash d" "dictIsRehashing d" "ht_used (dict_ht0 d) \<noteq> 0"
  shows "nat (rehashidx d) < ht_size (dict_ht0 d)"
proof (rule ccontr)
  note r = dict_ok_rehashing [OF assms(1,2)]
  assume "\<not> nat (rehashidx d) < ht_size (dict_ht0 d)"
  then have "\<forall>c\<in>set (ht_table (dict_ht0 d)). c = []"
    using r(1,6,7) by (auto simp: in_set_conv_nth table_ok_def)
  then show False using assms(3) r(3) by (simp add: ht_entries_def)
qed

lemma dict_okI_same:
  assumes "dict_ok hash d" "mset (dict_entries d') = mset (dict_entries d)"
    "ht_ok hash (dict_ht0 d')" "ht_ok hash (dict_ht1 d')" "rehash_ok d'"
  shows "dict_ok hash d'"
  using assms map_of_mset [of "dict_entries d" "dict_entries d'"] by (simp add: dict_ok_def)

lemma rehash_bucket_ok:
  assumes ok: "dict_ok hash d" and re: "dictIsRehashing d"
    and idx: "nat (rehashidx d) < ht_size (dict_ht0 d)"
  shows "dict_ok hash (rehash_bucket hash d) \<and>
    mset (dict_entries (rehash_bucket hash d)) = mset (dict_entries d) \<and>
    rehashidx (rehash_bucket hash d) = rehashidx d + 1"
proof -
  note r = dict_ok_rehashing [OF ok re]
  let ?i = "nat (rehashidx d)" and ?t0 = "ht_table (dict_ht0 d)" and ?d' = "rehash_bucket hash d"
  define d1 where "d1 = rehash_chain hash (?t0 ! ?i) d"
  note fr = rehash_chain_frame [of hash "?t0 ! ?i" d, folded d1_def]
  note h1 = rehash_chain_ht1 [OF r(2,4), of "?t0 ! ?i", folded d1_def]
  have i: "?i < length ?t0" using idx r(1) by (simp add: table_ok_def)
  have d': "?d' = d1\<lparr>dict_ht0 := (dict_ht0 d1)\<lparr>ht_table := ?t0[?i := []]\<rparr>, rehashidx := rehashidx d + 1\<rparr>"
    using fr by (simp add: rehash_bucket_def Let_def d1_def)
  have ms: "mset (concat (?t0[?i := []])) + mset (?t0 ! ?i) = mset (concat ?t0)"
    using mset_concat_update [OF i, of "[]"] by simp
  then have "size (mset (concat (?t0[?i := []])) + mset (?t0 ! ?i)) = length (concat ?t0)"
    by (simp only: size_mset)
  then have len: "length (concat (?t0[?i := []])) = length (concat ?t0) - length (?t0 ! ?i)" by simp
  have "table_ok hash (dict_ht0 ?d')"
    using table_ok_update [OF r(1), of "[]" ?i] fr unfolding d'
    by simp
  moreover have "ht_used (dict_ht0 ?d') = length (ht_entries (dict_ht0 ?d'))"
    using len fr r(3) by (simp add: d' ht_entries_def)
  ultimately have 0: "ht_ok hash (dict_ht0 ?d')" "dict_ht0 ?d' \<noteq> dictReset"
    using table_ok_not_reset by (auto simp: ht_ok_def)
  have 1: "ht_ok hash (dict_ht1 ?d')" "dict_ht1 ?d' \<noteq> dictReset"
    using h1 table_ok_not_reset by (auto simp: ht_ok_def d')
  have "mset (dict_entries ?d') = mset (dict_entries d)"
    using h1 ms by (simp add: dict_entries_mset d' ht_entries_def ac_simps)
  moreover have "rehash_ok ?d'"
    using 0 1 r(5,7) idx i fr
    by (auto simp: rehash_ok_def d' nth_list_update less_Suc_eq nat_add_distrib)
  ultimately show ?thesis using dict_okI_same [OF ok _ 0(1) 1(1)] by (simp add: d')
qed

lemma skip_empty_ok:
  "\<lbrakk>dict_ok hash d; dictIsRehashing d; ht_used (dict_ht0 d) \<noteq> 0; skip_empty ev d = (d', r)\<rbrakk> \<Longrightarrow>
   dict_ok hash d' \<and> dictIsRehashing d' \<and> ht_used (dict_ht0 d') \<noteq> 0 \<and>
   dict_entries d' = dict_entries d \<and> iterators d' = iterators d \<and> rehashidx d \<le> rehashidx d'"
proof (induction ev d rule: skip_empty.induct)
  case (2 ev d)
  let ?d1 = "d\<lparr>rehashidx := rehashidx d + 1\<rparr>"
  show ?case
  proof (cases "ht_table (dict_ht0 d) ! nat (rehashidx d) = []")
    case True
    note r = dict_ok_rehashing [OF "2.prems"(1,2)]
    have "nat (rehashidx d) < ht_size (dict_ht0 d)" by (rule rehashidx_in_range [OF "2.prems"(1-3)])
    then have "rehash_ok ?d1"
      using "2.prems"(1,2) r(5,7) True
      by (auto simp: dict_ok_def rehash_ok_def dictIsRehashing_def nat_add_distrib less_Suc_eq)
    then have "dict_ok hash ?d1"
      using "2.prems"(1) by (simp add: dict_ok_def dict_entries_def)
    moreover have "dictIsRehashing ?d1" using r(5) by (simp add: dictIsRehashing_def)
    ultimately show ?thesis
      using "2.IH" [OF True refl] "2.prems"(3,4) True
      by (cases "ev = 0") (auto simp: dict_entries_def Let_def)
  qed (use 2 in simp)
qed simp

lemma rehash_finish_ok:
  assumes "dict_ok hash d" "dictIsRehashing d" "rehash_finish d = (d', b)"
  shows "dict_ok hash d' \<and> mset (dict_entries d') = mset (dict_entries d) \<and>
    iterators d' = iterators d \<and> dictIsRehashing d' = b"
proof (cases "ht_used (dict_ht0 d) = 0")
  case True
  then have "ht_entries (dict_ht0 d) = []" using dict_ok_rehashing(3) [OF assms(1,2)] by simp
  then show ?thesis using True assms
    by (auto simp: rehash_finish_def dict_ok_def rehash_ok_def dict_entries_def dictIsRehashing_def
        ht_ok_def)
qed (use assms in \<open>auto simp: rehash_finish_def\<close>)

lemma rehash_loop_ok:
  "\<lbrakk>dict_ok hash d; dictIsRehashing d; rehash_loop hash n ev d = (d', b)\<rbrakk> \<Longrightarrow>
   dict_ok hash d' \<and> mset (dict_entries d') = mset (dict_entries d) \<and>
   iterators d' = iterators d \<and> dictIsRehashing d' = b"
proof (induction hash n ev d rule: rehash_loop.induct)
  case (1 hash ev d)
  then show ?case using rehash_finish_ok by simp
next
  case (2 hash n ev d)
  show ?case
  proof (cases "ht_used (dict_ht0 d) = 0")
    case True
    then show ?thesis using 2 rehash_finish_ok by simp
  next
    case False
    obtain d1 r where sk: "skip_empty ev d = (d1, r)" by fastforce
    note s = skip_empty_ok [OF "2.prems"(1,2) False sk]
    show ?thesis
    proof (cases r)
      case None
      then show ?thesis using s sk False "2.prems"(3) by auto
    next
      case (Some ev')
      have lt: "nat (rehashidx d1) < ht_size (dict_ht0 d1)" using s rehashidx_in_range by blast
      have b: "dict_ok hash (rehash_bucket hash d1)"
          "mset (dict_entries (rehash_bucket hash d1)) = mset (dict_entries d1)"
          "rehashidx (rehash_bucket hash d1) = rehashidx d1 + 1"
        using s rehash_bucket_ok [OF _ _ lt] by simp_all
      have "dictIsRehashing (rehash_bucket hash d1)"
        using b(3) s dict_ok_rehashing(5) [of hash d1] by (simp add: dictIsRehashing_def)
      moreover have "iterators (rehash_bucket hash d1) = iterators d1"
        by (simp add: rehash_bucket_def Let_def rehash_chain_frame)
      ultimately show ?thesis
        using "2.IH" [OF False sk [symmetric] Some b(1)] b s sk Some False "2.prems"(3) by simp
    qed
  qed
qed

lemma dictRehash_ok:
  assumes "dict_ok hash d" "dictRehash hash d n = (d', b)"
  shows "dict_ok hash d' \<and> mset (dict_entries d') = mset (dict_entries d) \<and>
    iterators d' = iterators d \<and> dictIsRehashing d' = b"
  using assms rehash_loop_ok [OF assms(1), of n "n * 10" d' b]
  by (cases "dictIsRehashing d") (auto simp: dictRehash_def)

lemma dictRehashStep_ok:
  assumes "dict_ok hash d"
  shows "dict_ok hash (dictRehashStep hash d)"
    "mset (dict_entries (dictRehashStep hash d)) = mset (dict_entries d)"
    "iterators (dictRehashStep hash d) = iterators d"
  using dictRehash_ok [OF assms prod.collapse [symmetric], of 1] assms
  by (simp_all add: dictRehashStep_def)

lemma dict_map_mset:
  "\<lbrakk>dict_ok hash d; mset (dict_entries d') = mset (dict_entries d)\<rbrakk> \<Longrightarrow> dict_map d' = dict_map d"
  using map_of_mset [of "dict_entries d" "dict_entries d'"] by (simp add: dict_ok_def dict_map_def)

lemma dictSize_entries: "dict_ok hash d \<Longrightarrow> dictSize d = length (dict_entries d)"
  using ht_ok_used [of hash "dict_ht0 d"] ht_ok_used [of hash "dict_ht1 d"]
  by (simp add: dictSize_def dict_ok_def dict_entries_def)

end
