(* ===== verification/MapStore.thy ===== *)
theory MapStore
  imports RedisPrelude
begin

text \<open>
  The interface of a key-value store, as the keyspace and the hash objects use one: insertion of
  a new key, insertion or replacement, deletion, lookup, and background work (\<open>tick\<close>) that
  must not show. The locale states what a provider promises; the refinement of whole sequences
  of operations is proved once from it. Provider: the hash tables of \<open>src/dict.c\<close>.
\<close>

datatype ('k, 'v, 'b) map_op = MAdd 'k 'v | MReplace 'k 'v | MDelete 'k | MFetch 'k | MTick 'b

datatype 'v map_answer = Flag bool | Fetched "'v option" | Silent

fun map_spec_step :: "('k, 'v, 'b) map_op \<Rightarrow> ('k \<Rightarrow> 'v option) \<Rightarrow>
    ('k \<Rightarrow> 'v option) \<times> 'v map_answer" where
  "map_spec_step (MAdd k v) m = (if m k = None then (m(k \<mapsto> v), Flag True) else (m, Flag False))"
| "map_spec_step (MReplace k v) m = (m(k \<mapsto> v), Flag (m k = None))"
| "map_spec_step (MDelete k) m = (m(k := None), Flag (m k \<noteq> None))"
| "map_spec_step (MFetch k) m = (m, Fetched (m k))"
| "map_spec_step (MTick b) m = (m, Silent)"

fun map_spec :: "('k, 'v, 'b) map_op list \<Rightarrow> ('k \<Rightarrow> 'v option) \<Rightarrow>
    ('k \<Rightarrow> 'v option) \<times> 'v map_answer list" where
  "map_spec [] m = (m, [])"
| "map_spec (q # qs) m =
     (let (m, a) = map_spec_step q m; (m, as) = map_spec qs m in (m, a # as))"

text \<open>The same sequence on a provider; \<open>None\<close> when an operation crashes.\<close>

fun map_run :: "(('k, 'v, 'b) map_op \<Rightarrow> 's \<Rightarrow> ('s \<times> 'v map_answer) option) \<Rightarrow>
    ('k, 'v, 'b) map_op list \<Rightarrow> 's \<Rightarrow> ('s \<times> 'v map_answer list) option" where
  "map_run step [] s = Some (s, [])"
| "map_run step (q # qs) s =
     (case step q s of
        None \<Rightarrow> None
      | Some (s, a) \<Rightarrow>
          (case map_run step qs s of None \<Rightarrow> None | Some (s, as) \<Rightarrow> Some (s, a # as)))"

lemma finite_dom_spec_step:
  "finite (dom m) \<Longrightarrow> finite (dom (fst (map_spec_step q m)))"
  by (cases q) auto

lemma card_dom_spec_step:
  assumes "finite (dom m)"
  shows "card (dom (fst (map_spec_step q m))) \<le> Suc (card (dom m))"
proof (cases q)
  case (MDelete k)
  then show ?thesis
    using card_Diff1_le [of "dom m" k] by (simp add: dom_fun_upd le_SucI)
qed (use assms in \<open>auto simp: card_insert_if dom_fun_upd\<close>)

locale map_store =
  fixes ok :: "'s \<Rightarrow> bool"
    and abs :: "'s \<Rightarrow> 'k \<Rightarrow> 'v option"
    and capacity :: nat
    and step :: "('k, 'v, 'b) map_op \<Rightarrow> 's \<Rightarrow> ('s \<times> 'v map_answer) option"
  assumes abs_finite: "ok s \<Longrightarrow> finite (dom (abs s))"
    and step_law: "\<lbrakk>ok s; card (dom (abs s)) < capacity\<rbrakk> \<Longrightarrow>
      \<exists>s'. step q s = Some (s', snd (map_spec_step q (abs s))) \<and> ok s' \<and>
        abs s' = fst (map_spec_step q (abs s))"
begin

lemma run_law:
  "\<lbrakk>ok s; card (dom (abs s)) + length qs \<le> capacity\<rbrakk> \<Longrightarrow>
   \<exists>s'. map_run step qs s = Some (s', snd (map_spec qs (abs s))) \<and> ok s' \<and>
     abs s' = fst (map_spec qs (abs s))"
proof (induction qs arbitrary: s)
  case (Cons q qs)
  then have "card (dom (abs s)) < capacity" by simp
  from step_law [OF Cons.prems(1) this, of q] obtain s1 where
    s1: "step q s = Some (s1, snd (map_spec_step q (abs s)))" "ok s1"
      "abs s1 = fst (map_spec_step q (abs s))"
    by blast
  have "card (dom (abs s1)) + length qs \<le> capacity"
    using card_dom_spec_step [OF abs_finite [OF Cons.prems(1)], of q] s1(3) Cons.prems(2) by simp
  from Cons.IH [OF s1(2) this] s1 show ?case
    by (auto simp: Let_def case_prod_beta)
qed simp

lemma fetch_after_replace:
  assumes "ok s" "card (dom (abs s)) + 2 \<le> capacity"
  shows "\<exists>s' b. map_run step [MReplace k v, MFetch k'] s =
    Some (s', [Flag b, Fetched (if k' = k then Some v else abs s k')])"
  using run_law [OF assms(1), of "[MReplace k v, MFetch k']"] assms(2) by auto

end

end
