(* ===== verification/DictMap.thy ===== *)
theory DictMap
  imports Dict MapStore
begin

text \<open>
  The dictionary refines a map: lookup, insertion, replacement and deletion of \<open>src/dict.c\<close>
  act on \<open>dict_map\<close> as the map operations do, at every moment of an incremental rehash.
\<close>

section \<open>Searching\<close>

lemma chain_find_None: "chain_find k c = None \<longleftrightarrow> k \<notin> fst ` set c"
  by (induction k c rule: chain_find.induct) auto

lemma chain_find_Some: "chain_find k c = Some j \<Longrightarrow> j < length c \<and> fst (c ! j) = k"
  by (induction k c arbitrary: j rule: chain_find.induct) (auto split: if_splits)

lemma chain_find_map_of: "map_of c k = map_option (\<lambda>j. snd (c ! j)) (chain_find k c)"
  by (induction k c rule: chain_find.induct) (auto simp: option.map_comp o_def)

lemma map_of_concat_bucket:
  "\<lbrakk>i < length t; \<And>j. j < length t \<Longrightarrow> j \<noteq> i \<Longrightarrow> k \<notin> fst ` set (t ! j)\<rbrakk> \<Longrightarrow>
   map_of (concat t) k = map_of (t ! i) k"
proof (induction t arbitrary: i)
  case (Cons c t)
  show ?case
  proof (cases i)
    case 0
    have "k \<notin> fst ` set (t ! j)" if "j < length t" for j
      using Cons.prems(2) [of "Suc j"] that 0 by simp
    then have "k \<notin> fst ` set (concat t)" by (auto simp: in_set_conv_nth) (metis fst_conv image_eqI nth_mem)
    then have "map_of (concat t) k = None" by (simp only: map_of_eq_None_iff simp_thms)
    then show ?thesis using 0 by (simp add: map_add_def split: option.split)
  next
    case (Suc i')
    have "k \<notin> fst ` set c" using Cons.prems(2) [of 0] Suc by simp
    then have "map_of c k = None" by (simp add: map_of_eq_None_iff)
    moreover have "map_of (concat t) k = map_of (t ! i') k"
    proof (rule Cons.IH)
      show "i' < length t" using Cons.prems(1) Suc by simp
      show "k \<notin> fst ` set (t ! j)" if "j < length t" "j \<noteq> i'" for j
        using Cons.prems(2) [of "Suc j"] that Suc by simp
    qed
    ultimately show ?thesis using Suc by (simp add: map_add_def split: option.split)
  qed
qed simp

lemma map_of_ht:
  assumes "table_ok hash ht"
  shows "map_of (ht_entries ht) k = map_of (ht_table ht ! ht_index hash ht k) k"
  unfolding ht_entries_def
  using assms by (intro map_of_concat_bucket table_ok_index_less) (auto dest: table_ok_bucket)

definition loc_ok :: "('k \<Rightarrow> u64) \<Rightarrow> ('k, 'v) dict \<Rightarrow> loc \<Rightarrow> bool" where
  "loc_ok hash d l \<longleftrightarrow>
     (case l of (t, i, j) \<Rightarrow> t < 2 \<and> table_ok hash (dict_ht t d) \<and>
        i < length (ht_table (dict_ht t d)) \<and> j < length (ht_table (dict_ht t d) ! i))"

lemma ht_search_correct:
  assumes "table_ok hash (dict_ht t d)" "t < 2"
  shows "case ht_search hash d k t of
      None \<Rightarrow> map_of (ht_entries (dict_ht t d)) k = None
    | Some l \<Rightarrow> loc_ok hash d l \<and> fst (entry_at d l) = k \<and>
        map_of (ht_entries (dict_ht t d)) k = Some (snd (entry_at d l))"
proof -
  let ?c = "ht_table (dict_ht t d) ! ht_index hash (dict_ht t d) k"
  have m: "map_of (ht_entries (dict_ht t d)) k = map_option (\<lambda>j. snd (?c ! j)) (chain_find k ?c)"
    unfolding map_of_ht [OF assms(1)] by (rule chain_find_map_of)
  show ?thesis
    using assms table_ok_index_less [OF assms(1), of k] chain_find_Some [of k ?c]
    unfolding m by (auto simp: ht_search_def Let_def loc_ok_def entry_at_def split: option.split)
qed

lemma dict_search_correct:
  assumes ok: "dict_ok hash d" and ht0: "dict_ht0 d \<noteq> dictReset"
  shows "case dict_search hash d k of
      None \<Rightarrow> dict_map d k = None
    | Some l \<Rightarrow> loc_ok hash d l \<and> fst (entry_at d l) = k \<and>
        dict_map d k = Some (snd (entry_at d l))"
proof -
  have t0: "table_ok hash (dict_ht 0 d)"
    using ok ht0 ht_ok_table by (auto simp: dict_ok_def dict_ht_def)
  note s0 = ht_search_correct [OF t0, of k]
  show ?thesis
  proof (cases "dictIsRehashing d")
    case False
    then have "dict_ht1 d = dictReset"
      using ok by (simp add: dict_ok_def rehash_ok_def dictIsRehashing_def)
    then show ?thesis using s0 False
      by (auto simp: dict_search_def dict_map_def dict_entries_def dict_ht_def split: option.splits)
  next
    case True
    have t1: "table_ok hash (dict_ht 1 d)"
      using dict_ok_rehashing(2) [OF ok True] by (simp add: dict_ht_def)
    have "k \<notin> fst ` set (ht_entries (dict_ht1 d))" if "k \<in> fst ` set (ht_entries (dict_ht0 d))"
      using ok that by (auto simp: dict_ok_def dict_entries_def)
    then have "dict_map d k = (case map_of (ht_entries (dict_ht 0 d)) k of
        None \<Rightarrow> map_of (ht_entries (dict_ht 1 d)) k | Some v \<Rightarrow> Some v)"
      by (auto simp: dict_map_def dict_entries_def dict_ht_def map_add_def map_of_eq_None_iff
          split: option.split) (metis fst_conv image_eqI map_of_SomeD option.simps(3) weak_map_of_SomeI)
    then show ?thesis using s0 ht_search_correct [OF t1, of k] True
      by (auto simp: dict_search_def split: option.splits)
  qed
qed

section \<open>Replacing one chain\<close>

definition put_chain :: "nat \<Rightarrow> nat \<Rightarrow> ('k, 'v) chain \<Rightarrow> nat \<Rightarrow> ('k, 'v) dict \<Rightarrow> ('k, 'v) dict" where
  "put_chain t i c u d =
     set_ht t ((dict_ht t d)\<lparr>ht_table := (ht_table (dict_ht t d))[i := c], ht_used := u\<rparr>) d"

lemma dict_ht_put:
  "dict_ht t (put_chain t i c u d) =
    (dict_ht t d)\<lparr>ht_table := (ht_table (dict_ht t d))[i := c], ht_used := u\<rparr>"
  by (simp add: put_chain_def dict_ht_def set_ht_def)

lemma put_chain_ok:
  assumes ok: "dict_ok hash d" and tab: "table_ok hash (dict_ht t d)" "t < 2"
    and i: "i < length (ht_table (dict_ht t d))"
    and idx: "\<forall>e\<in>set c. ht_index hash (dict_ht t d) (fst e) = i"
    and u: "u + length (ht_table (dict_ht t d) ! i) = ht_used (dict_ht t d) + length c"
    and re: "t = 0 \<Longrightarrow> dictIsRehashing d \<Longrightarrow> ht_table (dict_ht t d) ! i \<noteq> []"
    and dist: "distinct (map fst (dict_entries (put_chain t i c u d)))"
  shows "dict_ok hash (put_chain t i c u d)"
proof -
  let ?ht = "dict_ht t d"
  let ?ht' = "?ht\<lparr>ht_table := (ht_table ?ht)[i := c], ht_used := u\<rparr>"
  have ms: "mset (concat ((ht_table ?ht)[i := c])) + mset (ht_table ?ht ! i) =
      mset (concat (ht_table ?ht)) + mset c"
    by (rule mset_concat_update [OF i])
  then have "size (mset (concat ((ht_table ?ht)[i := c])) + mset (ht_table ?ht ! i)) =
      size (mset (concat (ht_table ?ht)) + mset c)" by (rule arg_cong)
  then have len: "length (concat ((ht_table ?ht)[i := c])) + length (ht_table ?ht ! i) =
      length (concat (ht_table ?ht)) + length c" by (simp only: size_union size_mset)
  have "ht_ok hash ?ht"
    using ok by (simp add: dict_ht_def dict_ok_def)
  then have used: "ht_used ?ht = length (concat (ht_table ?ht))"
    using ht_ok_used [of hash ?ht] by (simp add: ht_entries_def)
  have u': "u = length (concat ((ht_table ?ht)[i := c]))" using len used u by linarith
  have tab': "table_ok hash ?ht'" using table_ok_update [OF tab(1) idx] by simp
  then have ht': "ht_ok hash ?ht'" using u' by (simp add: ht_ok_def ht_entries_def)
  have ht'2: "?ht' \<noteq> dictReset" by (rule table_ok_not_reset [OF tab'])
  have ne: "?ht \<noteq> dictReset" using tab(1) by (rule table_ok_not_reset)
  show ?thesis
  proof (cases "t = 0")
    case True
    have "rehash_ok (put_chain t i c u d)"
    proof (cases "dictIsRehashing d")
      case re': True
      then have "\<not> i < nat (rehashidx d)"
        using re True dict_ok_rehashing(7) [OF ok re'] by (auto simp: dict_ht_def)
      then show ?thesis
        using ok re' True ht'2 by (auto simp: put_chain_def set_ht_def rehash_ok_def dict_ok_def
            dictIsRehashing_def dict_ht_def)
    next
      case False
      then show ?thesis using ok True
        by (simp add: put_chain_def set_ht_def rehash_ok_def dict_ok_def dictIsRehashing_def)
    qed
    then show ?thesis using ok ht' dist True
      by (simp add: dict_ok_def put_chain_def set_ht_def)
  next
    case False
    then have "rehashidx d \<noteq> - 1"
      using ok ne by (auto simp: dict_ok_def rehash_ok_def dict_ht_def)
    then have "rehash_ok (put_chain t i c u d)"
      using ok False ht'2 by (auto simp: put_chain_def set_ht_def rehash_ok_def dict_ok_def)
    then show ?thesis using ok ht' dist False
      by (simp add: dict_ok_def put_chain_def set_ht_def)
  qed
qed

lemma put_chain_entries:
  assumes "i < length (ht_table (dict_ht t d))"
  shows "mset (dict_entries (put_chain t i c u d)) + mset (ht_table (dict_ht t d) ! i) =
    mset (dict_entries d) + mset c"
  using mset_concat_update [OF assms, of c]
  by (auto simp: dict_entries_mset put_chain_def set_ht_def dict_ht_def ht_entries_def
      union_assoc union_commute union_lcomm split: if_splits)

lemma mset_split_nth:
  "j < length c \<Longrightarrow> mset c = add_mset (c ! j) (mset (take j c @ drop (Suc j) c))"
  by (subst id_take_nth_drop [of j c]) simp_all

lemma map_of_insert:
  assumes "mset ys = add_mset (k, v) (mset xs)" "distinct (map fst xs)" "k \<notin> fst ` set xs"
  shows "distinct (map fst ys)" "map_of ys = (map_of xs)(k \<mapsto> v)"
  using map_of_mset [of "(k, v) # xs" ys] assms by auto

lemma map_of_remove:
  assumes "mset xs = add_mset (k, v) (mset ys)" "distinct (map fst xs)"
  shows "distinct (map fst ys)" "map_of ys = (map_of xs)(k := None)" "k \<notin> fst ` set ys"
proof -
  have m: "mset ((k, v) # ys) = mset xs" using assms(1) by simp
  from map_of_mset [OF m [symmetric] assms(2)]
  have d: "distinct (map fst ((k, v) # ys))" and e: "map_of xs = (map_of ys)(k \<mapsto> v)" by auto
  then show "distinct (map fst ys)" "k \<notin> fst ` set ys" by auto
  then have "map_of ys k = None" by (simp add: map_of_eq_None_iff)
  then show "map_of ys = (map_of xs)(k := None)" unfolding e by auto
qed

section \<open>Places: setting a value and unlinking an entry\<close>

lemma loc_ok_index:
  "loc_ok hash d (t, i, j) \<Longrightarrow> e \<in> set (ht_table (dict_ht t d) ! i) \<Longrightarrow>
   ht_index hash (dict_ht t d) (fst e) = i"
  by (auto simp: loc_ok_def dest: table_ok_bucket)

lemma dictSetVal_put:
  "dictSetVal d (t, i, j) v =
     put_chain t i ((ht_table (dict_ht t d) ! i)[j := (fst (entry_at d (t, i, j)), v)])
       (ht_used (dict_ht t d)) d"
  by (simp add: dictSetVal_def put_chain_def entry_at_def Let_def)

lemma dictSetVal_ok:
  assumes ok: "dict_ok hash d" and l: "loc_ok hash d l" and k: "fst (entry_at d l) = k"
  shows "dict_ok hash (dictSetVal d l v) \<and> dict_map (dictSetVal d l v) = (dict_map d)(k \<mapsto> v)"
proof -
  obtain t i j where tij: "l = (t, i, j)" by (cases l) auto
  let ?c = "ht_table (dict_ht t d) ! i" and ?d' = "dictSetVal d l v"
  let ?c' = "?c[j := (k, v)]"
  have d': "?d' = put_chain t i ?c' (ht_used (dict_ht t d)) d"
    using dictSetVal_put [of d t i j v] k tij by simp
  have b: "t < 2" "table_ok hash (dict_ht t d)" "i < length (ht_table (dict_ht t d))" "j < length ?c"
    using l by (simp_all add: loc_ok_def tij)
  have e: "?c ! j = (k, snd (?c ! j))" using k by (simp add: tij entry_at_def prod_eq_iff)
  define zs where "zs = take j ?c @ drop (Suc j) ?c"
  have c: "mset ?c = add_mset (k, snd (?c ! j)) (mset zs)"
    using mset_split_nth [OF b(4)] e unfolding zs_def by simp
  have c': "mset ?c' = add_mset (k, v) (mset zs)"
    using mset_split_nth [of j ?c'] b(4) unfolding zs_def by simp
  have "add_mset (k, snd (?c ! j)) (mset (dict_entries ?d')) = add_mset (k, v) (mset (dict_entries d))"
    using put_chain_entries [OF b(3), of ?c' "ht_used (dict_ht t d)"] c c' unfolding d'
    by (simp add: add_mset_commute)
  moreover have mem: "(k, snd (?c ! j)) \<in> set (dict_entries d)"
  proof -
    have "?c ! j \<in> set (ht_entries (dict_ht t d))"
      using nth_mem [OF b(4)] nth_mem [OF b(3)] by (auto simp: ht_entries_def simp del: nth_mem)
    then show ?thesis using e by (auto simp: dict_entries_def dict_ht_def split: if_splits)
  qed
  define rest where "rest = remove1 (k, snd (?c ! j)) (dict_entries d)"
  have r: "mset (dict_entries d) = add_mset (k, snd (?c ! j)) (mset rest)"
    using mem by (simp add: rest_def)
  ultimately have r': "mset (dict_entries ?d') = add_mset (k, v) (mset rest)"
    by (simp add: add_mset_commute)
  have dist: "distinct (map fst (dict_entries d))" using ok by (simp add: dict_ok_def)
  note rem = map_of_remove [OF r dist]
  note ins = map_of_insert [OF r' rem(1,3)]
  have "dict_ok hash ?d'"
    unfolding d'
  proof (rule put_chain_ok [OF ok b(2,1,3)])
    show "\<forall>e\<in>set ?c'. ht_index hash (dict_ht t d) (fst e) = i"
    proof
      fix x assume "x \<in> set ?c'"
      then have "x \<in> set ?c \<or> x = (k, v)" using set_update_subset_insert by fastforce
      then show "ht_index hash (dict_ht t d) (fst x) = i"
        using loc_ok_index [of hash d t i j] l nth_mem [OF b(4)] e tij by (metis fst_conv)
    qed
    show "?c \<noteq> []" using b(4) by auto
    show "distinct (map fst (dict_entries (put_chain t i ?c' (ht_used (dict_ht t d)) d)))"
      using ins(1) by (simp add: d')
  qed simp
  then show ?thesis using ins(2) rem(2) by (auto simp: dict_map_def)
qed

lemma unlink_ok:
  assumes ok: "dict_ok hash d" and l: "loc_ok hash d (t, i, j)"
    and k: "fst (entry_at d (t, i, j)) = k"
    and c': "c' = take j (ht_table (dict_ht t d) ! i) @ drop (Suc j) (ht_table (dict_ht t d) ! i)"
  shows "dict_ok hash (put_chain t i c' (ht_used (dict_ht t d) - 1) d) \<and>
    dict_map (put_chain t i c' (ht_used (dict_ht t d) - 1) d) = (dict_map d)(k := None)"
proof -
  let ?c = "ht_table (dict_ht t d) ! i" and ?u = "ht_used (dict_ht t d) - 1"
  let ?d' = "put_chain t i c' ?u d"
  have b: "t < 2" "table_ok hash (dict_ht t d)" "i < length (ht_table (dict_ht t d))" "j < length ?c"
    using l by (simp_all add: loc_ok_def)
  have e: "?c ! j = (k, snd (?c ! j))" using k by (simp add: entry_at_def prod_eq_iff)
  have c: "mset ?c = add_mset (k, snd (?c ! j)) (mset c')"
    using mset_split_nth [OF b(4)] e unfolding c' by simp
  then have ms: "mset (dict_entries d) = add_mset (k, snd (?c ! j)) (mset (dict_entries ?d'))"
    using put_chain_entries [OF b(3), of c' ?u] by simp
  have dist: "distinct (map fst (dict_entries d))" using ok by (simp add: dict_ok_def)
  note rem = map_of_remove [OF ms dist]
  have "?c \<in> set (ht_table (dict_ht t d))" using b(3) by simp
  then obtain xs ys where "ht_table (dict_ht t d) = xs @ ?c # ys" by (meson split_list)
  then have "ht_entries (dict_ht t d) = concat xs @ ?c @ concat ys"
    unfolding ht_entries_def by (metis concat.simps(2) concat_append)
  then have "length ?c \<le> length (ht_entries (dict_ht t d))" by simp
  moreover have "ht_used (dict_ht t d) = length (ht_entries (dict_ht t d))"
    using ok ht_ok_used [of hash "dict_ht t d"] by (simp add: dict_ok_def dict_ht_def)
  ultimately have pos: "ht_used (dict_ht t d) > 0" using b(4) by linarith
  have "dict_ok hash ?d'"
  proof (rule put_chain_ok [OF ok b(2,1,3)])
    show "\<forall>e\<in>set c'. ht_index hash (dict_ht t d) (fst e) = i"
      using loc_ok_index [OF l] unfolding c' by (auto dest: in_set_takeD in_set_dropD)
    show "ht_used (dict_ht t d) - 1 + length ?c = ht_used (dict_ht t d) + length c'"
      using b(4) pos by (simp add: c')
    show "?c \<noteq> []" using b(4) by auto
  qed (rule rem(1))
  then show ?thesis using rem(2) by (simp add: dict_map_def)
qed

section \<open>Growing\<close>

lemma nextPowerLoop_pow2:
  "\<lbrakk>sz < LONG_MAX; n \<le> 63; 2 ^ (n - 1) < sz \<or> n = 2; 2 \<le> n\<rbrakk> \<Longrightarrow>
   \<exists>m. nextPowerLoop sz (2 ^ n) = 2 ^ m \<and> 2 \<le> m \<and> m \<le> 63 \<and> sz \<le> 2 ^ m \<and>
     (2 ^ (m - 1) < sz \<or> m = 2)"
proof (induction "63 - n" arbitrary: n)
  case 0
  then have "n = 63" by simp
  then have "nextPowerLoop sz (2 ^ n) = 2 ^ n" "sz \<le> 2 ^ n"
    using 0 by (simp_all add: nextPowerLoop.simps)
  then show ?case using 0 by blast
next
  case (Suc x)
  show ?case
  proof (cases "2 ^ n \<ge> sz")
    case True
    then have "nextPowerLoop sz (2 ^ n) = 2 ^ n" by (simp add: nextPowerLoop.simps)
    then show ?thesis using True Suc.prems by blast
  next
    case False
    then have "nextPowerLoop sz (2 ^ n) = nextPowerLoop sz (2 ^ Suc n)"
      by (subst nextPowerLoop.simps) (simp add: mult.commute)
    moreover have "x = 63 - Suc n" "Suc n \<le> 63" using Suc by simp_all
    ultimately show ?thesis using Suc.hyps(1) [of "Suc n"] Suc.prems False by simp
  qed
qed

lemma dictNextPower_least:
  assumes "sz < LONG_MAX"
  shows "\<exists>m. dictNextPower sz = 2 ^ m \<and> 2 \<le> m \<and> m \<le> 63 \<and> sz \<le> 2 ^ m \<and>
    (2 ^ (m - 1) < sz \<or> m = 2)"
  using nextPowerLoop_pow2 [OF assms, of 2] assms
  by (simp add: dictNextPower_def DICT_HT_INITIAL_SIZE_def)

lemma dictNextPower_pow2: "\<exists>m. dictNextPower sz = 2 ^ m \<and> 2 \<le> m \<and> m \<le> 63"
proof (cases "sz < LONG_MAX")
  case False
  then have "dictNextPower sz = 2 ^ 63" by (simp add: dictNextPower_def)
  then show ?thesis by (intro exI [of _ 63]) simp
qed (use dictNextPower_least in blast)

lemma new_table_ok:
  "table_ok hash \<lparr>ht_table = replicate (dictNextPower sz) [], ht_size = dictNextPower sz,
     ht_sizemask = dictNextPower sz - 1, ht_used = 0\<rparr>"
  using dictNextPower_pow2 [of sz] by (auto simp: table_ok_def)

lemma concat_replicate_Nil [simp]: "concat (replicate n []) = []"
  by (induction n) simp_all

lemma dictExpand_ok:
  assumes ok: "dict_ok hash d" and e: "dictExpand d sz = (d', b)"
  shows "dict_ok hash d' \<and> dict_entries d' = dict_entries d \<and> iterators d' = iterators d \<and>
    (b \<longrightarrow> dict_ht0 d' \<noteq> dictReset)"
proof (cases "dictIsRehashing d \<or> ht_used (dict_ht0 d) > sz \<or> dictNextPower sz = ht_size (dict_ht0 d)")
  case True
  then have "d' = d \<and> \<not> b" using e by (auto simp: dictExpand_def Let_def split: if_splits)
  then show ?thesis using ok by simp
next
  case False
  define n where "n = (\<lparr>ht_table = replicate (dictNextPower sz) [], ht_size = dictNextPower sz,
     ht_sizemask = dictNextPower sz - 1, ht_used = 0\<rparr> :: ('a, 'b) dictht)"
  have n: "ht_ok hash n" "n \<noteq> dictReset" "ht_entries n = []"
    using new_table_ok [of hash sz] table_ok_not_reset [OF new_table_ok [of hash sz]]
    by (auto simp: n_def ht_ok_def ht_entries_def)
  have nr: "rehashidx d = - 1" and h1: "dict_ht1 d = dictReset"
    using ok False by (auto simp: dict_ok_def rehash_ok_def dictIsRehashing_def)
  show ?thesis
  proof (cases "ht_table (dict_ht0 d) = []")
    case True
    then have "dict_ht0 d = dictReset"
      using ok by (auto simp: dict_ok_def ht_ok_def table_ok_def)
    moreover have "d' = d\<lparr>dict_ht0 := n\<rparr> \<and> b"
      using e False True by (auto simp: dictExpand_def Let_def n_def)
    ultimately show ?thesis using ok n nr h1
      by (simp add: dict_ok_def rehash_ok_def dict_entries_def)
  next
    case ne: False
    then have "dict_ht0 d \<noteq> dictReset" by (auto simp: dictReset_def)
    moreover have "d' = d\<lparr>dict_ht1 := n, rehashidx := 0\<rparr> \<and> b"
      using e False ne by (auto simp: dictExpand_def Let_def n_def)
    ultimately show ?thesis using ok n nr h1
      by (simp add: dict_ok_def rehash_ok_def dict_entries_def)
  qed
qed

lemma dictResize_ok:
  assumes "dict_ok hash d" "dictResize can_resize d = (d', b)"
  shows "dict_ok hash d' \<and> dict_entries d' = dict_entries d"
  using assms dictExpand_ok [OF assms(1)]
  by (auto simp: dictResize_def Let_def split: if_splits)

lemma dictExpandIfNeeded_ok:
  assumes ok: "dict_ok hash d" and e: "dictExpandIfNeeded can_resize d = (d', b)"
    and small: "dictSize d < 2 ^ 62"
  shows "dict_ok hash d' \<and> dict_entries d' = dict_entries d \<and> b \<and> dict_ht0 d' \<noteq> dictReset"
proof -
  let ?u = "ht_used (dict_ht0 d)" and ?s = "ht_size (dict_ht0 d)"
  have used: "?u < 2 ^ 62" using small by (simp add: dictSize_def)
  then have u64: "?u * 2 mod 2 ^ 64 = ?u * 2" "?u * 2 < LONG_MAX" by simp_all
  obtain m where m: "dictNextPower (?u * 2) = 2 ^ m" "?u * 2 \<le> 2 ^ m"
    using dictNextPower_least [OF u64(2)] by blast
  have four: "dictNextPower 4 = 4"
    by (simp add: dictNextPower_def nextPowerLoop.simps DICT_HT_INITIAL_SIZE_def)
  have z: "?s = 0 \<longleftrightarrow> dict_ht0 d = dictReset"
    using ok by (auto simp: dict_ok_def ht_ok_def table_ok_def dictReset_def)
  show ?thesis
  proof (cases "dictIsRehashing d")
    case True
    then show ?thesis using e ok
      by (auto simp: dictExpandIfNeeded_def dict_ok_def rehash_ok_def dictIsRehashing_def)
  next
    case nr: False
    show ?thesis
    proof (cases "?s = 0")
      case True
      then have "?u = 0" using z by (simp add: dictReset_def)
      then have "b" using e nr True four
        by (auto simp: dictExpandIfNeeded_def dictExpand_def Let_def DICT_HT_INITIAL_SIZE_def
            split: if_splits)
      then show ?thesis using dictExpand_ok [OF ok] e nr True
        by (auto simp: dictExpandIfNeeded_def)
    next
      case s: False
      show ?thesis
      proof (cases "?u \<ge> ?s \<and> (can_resize \<or> ?u div ?s > dict_force_resize_ratio)")
        case True
        then have x: "dictExpand d (?u * 2) = (d', b)"
          using e nr s u64(1) by (simp add: dictExpandIfNeeded_def)
        have "dictNextPower (?u * 2) \<noteq> ?s" using m True s by auto
        then have b using x nr by (auto simp: dictExpand_def Let_def split: if_splits)
        then show ?thesis using dictExpand_ok [OF ok x] by simp
      next
        case False
        then have "d' = d \<and> b" using e nr s by (auto simp: dictExpandIfNeeded_def)
        then show ?thesis using ok s z by simp
      qed
    qed
  qed
qed

section \<open>The operations\<close>

lemma dict_empty_map:
  assumes "dict_ok hash d" "dictSize d = 0"
  shows "dict_map d k = None"
  using dictSize_entries [OF assms(1)] assms(2) by (simp add: dict_map_def)

lemma dict_nonempty_ht0:
  assumes "dict_ok hash d" "dictSize d \<noteq> 0"
  shows "dict_ht0 d \<noteq> dictReset"
  using assms by (auto simp: dict_ok_def rehash_ok_def dictSize_def dictReset_def split: if_splits)

text \<open>The state in which an operation searches: after the optional rehashing step.\<close>

lemma rehash_first_ok:
  assumes "dict_ok hash d"
  shows "dict_ok hash (if dictIsRehashing d then dictRehashStep hash d else d)"
    "dict_map (if dictIsRehashing d then dictRehashStep hash d else d) = dict_map d"
    "dictSize (if dictIsRehashing d then dictRehashStep hash d else d) = dictSize d"
proof -
  note s = dictRehashStep_ok [OF assms]
  show "dict_ok hash (if dictIsRehashing d then dictRehashStep hash d else d)"
    using s(1) assms by simp
  show "dict_map (if dictIsRehashing d then dictRehashStep hash d else d) = dict_map d"
    using dict_map_mset [OF assms s(2)] by simp
  have "length (dict_entries (dictRehashStep hash d)) = length (dict_entries d)"
    using s(2) by (metis size_mset)
  then show "dictSize (if dictIsRehashing d then dictRehashStep hash d else d) = dictSize d"
    using dictSize_entries [OF s(1)] dictSize_entries [OF assms] by simp
qed

lemma dictFind_correct:
  assumes ok: "dict_ok hash d" and f: "dictFind hash d k = (d', he)"
  shows "dict_ok hash d' \<and> dict_map d' = dict_map d \<and>
    dict_map d k = map_option (\<lambda>l. snd (entry_at d' l)) he"
proof (cases "dictSize d = 0")
  case True
  then have "d' = d \<and> he = None" using f by (simp add: dictFind_def dictSize_def)
  then show ?thesis using dict_empty_map [OF ok True] ok by simp
next
  case False
  let ?d = "if dictIsRehashing d then dictRehashStep hash d else d"
  note r = rehash_first_ok [OF ok]
  have "d' = ?d" "he = dict_search hash ?d k"
    using f False by (auto simp: dictFind_def dictSize_def Let_def)
  then show ?thesis
    using dict_search_correct [OF r(1) dict_nonempty_ht0 [OF r(1)], of k] r False
    by (auto split: option.splits)
qed

lemma dictAddRaw_correct:
  assumes ok: "dict_ok hash d" and small: "dictSize d < 2 ^ 62"
    and a: "dictAddRaw hash can_resize junk d k = (d', r)"
  shows "dict_ok hash d' \<and>
    (case r of
       Added l \<Rightarrow> dict_map d k = None \<and> dict_map d' = (dict_map d)(k \<mapsto> junk) \<and>
         loc_ok hash d' l \<and> fst (entry_at d' l) = k
     | NotAdded (Some l) \<Rightarrow> dict_map d k \<noteq> None \<and> dict_map d' = dict_map d \<and>
         loc_ok hash d' l \<and> fst (entry_at d' l) = k
     | NotAdded None \<Rightarrow> False)"
proof -
  define d1 where "d1 = (if dictIsRehashing d then dictRehashStep hash d else d)"
  note r = rehash_first_ok [OF ok, folded d1_def]
  obtain d2 b where ex: "dictExpandIfNeeded can_resize d1 = (d2, b)" by fastforce
  have small1: "dictSize d1 < 2 ^ 62" using r(3) small by simp
  note x = dictExpandIfNeeded_ok [OF r(1) ex small1]
  have m2: "dict_map d2 = dict_map d" using x r(2) by (simp add: dict_map_def)
  have ok2: "dict_ok hash d2" and h2: "dict_ht0 d2 \<noteq> dictReset" and b: b using x by simp_all
  note s = dict_search_correct [OF ok2 h2, of k]
  show ?thesis
  proof (cases "dict_search hash d2 k")
    case (Some l)
    then have "d' = d2" "r = NotAdded (Some l)"
      using a ex b by (auto simp: dictAddRaw_def dictKeyIndex_def d1_def [symmetric])
    then show ?thesis using s Some ok2 m2 by simp
  next
    case None
    define t where "t = (if dictIsRehashing d2 then 1 else 0 :: nat)"
    define i where "i = ht_index hash (dict_ht t d2) k"
    define c where "c = (k, junk) # ht_table (dict_ht t d2) ! i"
    have new: "d' = put_chain t i c (ht_used (dict_ht t d2) + 1) d2" "r = Added (t, i, 0)"
      using a ex b None
      by (auto simp: dictAddRaw_def dictKeyIndex_def d1_def [symmetric] t_def i_def c_def
          put_chain_def Let_def)
    have tab: "table_ok hash (dict_ht t d2)"
      using ok2 h2 ht_ok_table dict_ok_rehashing(2) [OF ok2]
      by (auto simp: t_def dict_ht_def dict_ok_def)
    have i: "i < length (ht_table (dict_ht t d2))" unfolding i_def by (rule table_ok_index_less [OF tab])
    have ms: "mset (dict_entries d') = add_mset (k, junk) (mset (dict_entries d2))"
      using put_chain_entries [OF i, of c "ht_used (dict_ht t d2) + 1"] by (simp add: new c_def)
    have "k \<notin> fst ` set (dict_entries d2)"
      using s None by (simp add: dict_map_def map_of_eq_None_iff)
    moreover have "distinct (map fst (dict_entries d2))" using ok2 by (simp add: dict_ok_def)
    ultimately have ins: "distinct (map fst (dict_entries d'))" "dict_map d' = (dict_map d2)(k \<mapsto> junk)"
      using map_of_insert [OF ms] by (simp_all add: dict_map_def)
    have t2: "t < 2" by (simp add: t_def)
    have idx: "\<forall>e\<in>set c. ht_index hash (dict_ht t d2) (fst e) = i"
      using table_ok_bucket [OF tab i] by (auto simp: c_def i_def)
    have "dict_ok hash d'" unfolding new
    proof (rule put_chain_ok [OF ok2 tab t2 i idx])
      show "distinct (map fst (dict_entries (put_chain t i c (ht_used (dict_ht t d2) + 1) d2)))"
        using ins(1) new by simp
    qed (simp_all add: c_def t_def)
    moreover have "table_ok hash (dict_ht t d')" 
      using table_ok_update [OF tab idx] by (simp add: new dict_ht_put)
    moreover have "ht_table (dict_ht t d') ! i = c" "i < length (ht_table (dict_ht t d'))"
      using i by (simp_all add: new dict_ht_put)
    ultimately show ?thesis using ins(2) m2 s None new t2
      by (simp add: loc_ok_def entry_at_def c_def)
  qed
qed

lemma dictAdd_correct:
  assumes "dict_ok hash d" "dictSize d < 2 ^ 62" "dictAdd hash can_resize junk d k v = (d', b)"
  shows "dict_ok hash d' \<and> b = (dict_map d k = None) \<and>
    dict_map d' = (if b then (dict_map d)(k \<mapsto> v) else dict_map d)"
proof -
  obtain d1 r where a: "dictAddRaw hash can_resize junk d k = (d1, r)" by fastforce
  note c = dictAddRaw_correct [OF assms(1,2) a]
  show ?thesis
  proof (cases r)
    case (Added l)
    then show ?thesis using c dictSetVal_ok [of hash d1 l k v] assms(3) a
      by (auto simp: dictAdd_def)
  next
    case (NotAdded e)
    then show ?thesis using c assms(3) a by (auto simp: dictAdd_def split: option.splits)
  qed
qed

lemma dictReplace_correct:
  assumes "dict_ok hash d" "dictSize d < 2 ^ 62"
  shows "\<exists>d'. dictReplace hash can_resize junk d k v = Some (d', dict_map d k = None) \<and>
    dict_ok hash d' \<and> dict_map d' = (dict_map d)(k \<mapsto> v)"
proof -
  obtain d1 r where a: "dictAddRaw hash can_resize junk d k = (d1, r)" by fastforce
  note c = dictAddRaw_correct [OF assms a]
  show ?thesis
  proof (cases r)
    case (Added l)
    then show ?thesis using c dictSetVal_ok [of hash d1 l k v] a by (auto simp: dictReplace_def)
  next
    case (NotAdded e)
    then obtain l where "e = Some l" using c by (cases e) auto
    then show ?thesis using NotAdded c dictSetVal_ok [of hash d1 l k v] a
      by (auto simp: dictReplace_def)
  qed
qed

lemma dictGenericDelete_correct:
  assumes ok: "dict_ok hash d" and del: "dictGenericDelete hash d k = (d', he)"
  shows "dict_ok hash d' \<and> dict_map d' = (dict_map d)(k := None) \<and>
    dict_map d k = map_option snd he \<and> (he \<noteq> None \<longrightarrow> fst (the he) = k)"
proof (cases "dictSize d = 0")
  case True
  then have "d' = d \<and> he = None" using del by (simp add: dictGenericDelete_def dictSize_def)
  then show ?thesis using dict_empty_map [OF ok True] ok by auto
next
  case False
  define d1 where "d1 = (if dictIsRehashing d then dictRehashStep hash d else d)"
  note r = rehash_first_ok [OF ok, folded d1_def]
  have h: "dict_ht0 d1 \<noteq> dictReset" using dict_nonempty_ht0 [OF r(1)] r(3) False by simp
  note s = dict_search_correct [OF r(1) h, of k]
  have nz: "\<not> (ht_used (dict_ht0 d) = 0 \<and> ht_used (dict_ht1 d) = 0)"
    using False by (simp add: dictSize_def)
  show ?thesis
  proof (cases "dict_search hash d1 k")
    case None
    then have "d' = d1 \<and> he = None"
      using del nz by (auto simp: dictGenericDelete_def d1_def [symmetric] Let_def)
    then show ?thesis using s None r by auto
  next
    case (Some l)
    obtain t i j where l: "l = (t, i, j)" by (cases l) auto
    let ?c = "ht_table (dict_ht t d1) ! i"
    have new: "d' = put_chain t i (take j ?c @ drop (Suc j) ?c) (ht_used (dict_ht t d1) - 1) d1"
        "he = Some (entry_at d1 l)"
      using del nz Some l
      by (auto simp: dictGenericDelete_def d1_def [symmetric] Let_def put_chain_def entry_at_def)
    have f: "loc_ok hash d1 l" "fst (entry_at d1 l) = k" "dict_map d1 k = Some (snd (entry_at d1 l))"
      using s Some by simp_all
    note u = unlink_ok [OF r(1) f(1) [unfolded l] f(2) [unfolded l] refl]
    show ?thesis using u f r new by (simp add: l)
  qed
qed

section \<open>The dictionary as a map store\<close>

text \<open>
  Between the operations of its users a dictionary is rehashed and resized by the cron job, the
  global \<open>dict_can_resize\<close> is switched when a child process starts or ends, and safe iterators
  come and go (they suspend the rehashing steps of the operations).
\<close>

datatype dict_bg = BgRehash nat | BgResize | BgEnableResize | BgDisableResize |
  BgIterStart | BgIterEnd

type_synonym ('k, 'v) dict_state = "('k, 'v) dict \<times> bool"

fun dict_bg_step :: "('k \<Rightarrow> u64) \<Rightarrow> dict_bg \<Rightarrow> ('k, 'v) dict_state \<Rightarrow> ('k, 'v) dict_state" where
  "dict_bg_step hash (BgRehash n) (d, can_resize) = (fst (dictRehash hash d n), can_resize)"
| "dict_bg_step hash BgResize (d, can_resize) = (fst (dictResize can_resize d), can_resize)"
| "dict_bg_step hash BgEnableResize (d, can_resize) = (d, True)"
| "dict_bg_step hash BgDisableResize (d, can_resize) = (d, False)"
| "dict_bg_step hash BgIterStart (d, can_resize) = (d\<lparr>iterators := iterators d + 1\<rparr>, can_resize)"
| "dict_bg_step hash BgIterEnd (d, can_resize) = (d\<lparr>iterators := iterators d - 1\<rparr>, can_resize)"

fun dict_step :: "('k \<Rightarrow> u64) \<Rightarrow> 'v \<Rightarrow> ('k, 'v, dict_bg) map_op \<Rightarrow> ('k, 'v) dict_state \<Rightarrow>
    (('k, 'v) dict_state \<times> 'v map_answer) option" where
  "dict_step hash junk (MAdd k v) (d, cr) =
     (let (d, b) = dictAdd hash cr junk d k v in Some ((d, cr), Flag b))"
| "dict_step hash junk (MReplace k v) (d, cr) =
     map_option (\<lambda>(d, b). ((d, cr), Flag b)) (dictReplace hash cr junk d k v)"
| "dict_step hash junk (MDelete k) (d, cr) =
     (let (d, b) = dictDelete hash d k in Some ((d, cr), Flag b))"
| "dict_step hash junk (MFetch k) (d, cr) =
     (let (d, v) = dictFetchValue hash d k in Some ((d, cr), Fetched v))"
| "dict_step hash junk (MTick b) s = Some (dict_bg_step hash b s, Silent)"

lemma dictCreate_ok: "dict_ok hash dictCreate" "dict_map dictCreate = (\<lambda>_. None)"
  by (auto simp: dict_ok_def ht_ok_def rehash_ok_def dictCreate_def dict_entries_def dict_map_def)

lemma dict_ok_iterators [simp]: "dict_ok hash (d\<lparr>iterators := n\<rparr>) = dict_ok hash d"
  by (simp add: dict_ok_def rehash_ok_def dict_entries_def)

lemma dict_map_iterators [simp]: "dict_map (d\<lparr>iterators := n\<rparr>) = dict_map d"
  by (simp add: dict_map_def dict_entries_def)

lemma dict_dom:
  assumes "dict_ok hash d"
  shows "finite (dom (dict_map d))" "card (dom (dict_map d)) = dictSize d"
proof -
  have "dom (dict_map d) = set (map fst (dict_entries d))"
    by (simp add: dict_map_def dom_map_of_conv_image_fst)
  moreover have "distinct (map fst (dict_entries d))" using assms by (simp add: dict_ok_def)
  ultimately show "finite (dom (dict_map d))" "card (dom (dict_map d)) = dictSize d"
    using dictSize_entries [OF assms] distinct_card by (metis List.finite_set, metis length_map)
qed

lemma dict_bg_step_ok:
  assumes "dict_ok hash d" "dict_bg_step hash b (d, cr) = (d', cr')"
  shows "dict_ok hash d' \<and> dict_map d' = dict_map d"
proof (cases b)
  case (BgRehash n)
  obtain d1 c where r: "dictRehash hash d n = (d1, c)" by fastforce
  note f = dictRehash_ok [OF assms(1) r]
  have "dict_map d1 = dict_map d" using f dict_map_mset [OF assms(1)] by blast
  then show ?thesis using f r assms(2) BgRehash by simp
next
  case BgResize
  obtain d1 c where r: "dictResize cr d = (d1, c)" by fastforce
  show ?thesis
    using dictResize_ok [OF assms(1) r] r assms(2) BgResize by (simp add: dict_map_def)
qed (use assms in auto)

lemma dict_step_law:
  assumes ok: "dict_ok hash d" and small: "card (dom (dict_map d)) < 2 ^ 62"
  shows "\<exists>d' cr'. dict_step hash junk q (d, cr) =
      Some ((d', cr'), snd (map_spec_step q (dict_map d))) \<and>
    dict_ok hash d' \<and> dict_map d' = fst (map_spec_step q (dict_map d))"
proof -
  have small': "dictSize d < 2 ^ 62" using small dict_dom(2) [OF ok] by simp
  show ?thesis
  proof (cases q)
    case (MAdd k v)
    obtain d1 b where a: "dictAdd hash cr junk d k v = (d1, b)" by fastforce
    then show ?thesis using dictAdd_correct [OF ok small' a] MAdd by simp
  next
    case (MReplace k v)
    obtain d1 where "dictReplace hash cr junk d k v = Some (d1, dict_map d k = None)"
        "dict_ok hash d1" "dict_map d1 = (dict_map d)(k \<mapsto> v)"
      using dictReplace_correct [OF ok small'] by blast
    then show ?thesis using MReplace by simp
  next
    case (MDelete k)
    obtain d1 he where a: "dictGenericDelete hash d k = (d1, he)" by fastforce
    then show ?thesis using dictGenericDelete_correct [OF ok a] MDelete
      by (simp add: dictDelete_def)
  next
    case (MFetch k)
    obtain d1 he where a: "dictFind hash d k = (d1, he)" by fastforce
    then show ?thesis using dictFind_correct [OF ok a] MFetch by (simp add: dictFetchValue_def)
  next
    case (MTick b)
    obtain d1 cr1 where a: "dict_bg_step hash b (d, cr) = (d1, cr1)" by fastforce
    then show ?thesis using dict_bg_step_ok [OF ok a] MTick by simp
  qed
qed

interpretation dict: map_store "\<lambda>s. dict_ok hash (fst s)" "\<lambda>s. dict_map (fst s)" "2 ^ 62"
    "dict_step hash junk" for hash :: "'k \<Rightarrow> u64" and junk :: 'v
proof unfold_locales
  fix s :: "('k, 'v) dict_state" and q
  assume "dict_ok hash (fst s)" "card (dom (dict_map (fst s))) < 2 ^ 62"
  then show "\<exists>s'. dict_step hash junk q s = Some (s', snd (map_spec_step q (dict_map (fst s)))) \<and>
      dict_ok hash (fst s') \<and> dict_map (fst s') = fst (map_spec_step q (dict_map (fst s)))"
    using dict_step_law [of hash "fst s" junk q "snd s"] by auto
qed (rule dict_dom(1))

section \<open>Progress of the rehash\<close>

lemma skip_empty_idx:
  "skip_empty ev d = (d', r) \<Longrightarrow> dict_ht0 d' = dict_ht0 d \<and>
   (r = None \<and> 0 < ev \<longrightarrow> rehashidx d < rehashidx d') \<and> rehashidx d \<le> rehashidx d'"
proof (induction ev d rule: skip_empty.induct)
  case (2 ev d)
  then show ?case by (cases "ev = 0") (auto simp: Let_def split: if_splits)
qed simp

lemma dictRehash_progress:
  assumes "dictRehash hash d 1 = (d', True)" "dictIsRehashing d"
  shows "rehashidx d < rehashidx d' \<and> ht_size (dict_ht0 d') = ht_size (dict_ht0 d)"
proof -
  obtain d1 r where sk: "skip_empty 10 d = (d1, r)" by fastforce
  note s = skip_empty_idx [OF sk]
  have l: "rehash_loop hash 1 10 d = (d', True)" using assms by (simp add: dictRehash_def)
  then have u: "ht_used (dict_ht0 d) \<noteq> 0" by (auto simp: rehash_finish_def split: if_splits)
  show ?thesis
  proof (cases r)
    case None
    then show ?thesis using l u sk s by simp
  next
    case (Some ev)
    then have "rehash_finish (rehash_bucket hash d1) = (d', True)" using l u sk by simp
    then have "d' = rehash_bucket hash d1" by (auto simp: rehash_finish_def split: if_splits)
    then show ?thesis using s by (simp add: rehash_bucket_def Let_def rehash_chain_frame)
  qed
qed

definition rehash_left :: "('k, 'v) dict \<Rightarrow> nat" where
  "rehash_left d =
     (if dictIsRehashing d then ht_size (dict_ht0 d) + 1 - nat (rehashidx d) else 0)"

lemma dictRehashStep_progress:
  assumes ok: "dict_ok hash d" and it: "iterators d = 0" and re: "dictIsRehashing d"
  shows "rehash_left (dictRehashStep hash d) < rehash_left d"
proof -
  obtain d' b where r: "dictRehash hash d 1 = (d', b)" by fastforce
  have s: "dictRehashStep hash d = d'" using r it by (simp add: dictRehashStep_def)
  have o: "dict_ok hash d'" "dictIsRehashing d' = b" using dictRehash_ok [OF ok r] by simp_all
  note a = dict_ok_rehashing(5,6) [OF ok re]
  show ?thesis
  proof (cases b)
    case True
    then have "rehashidx d < rehashidx d'" "ht_size (dict_ht0 d') = ht_size (dict_ht0 d)"
      using dictRehash_progress [of hash d d'] r re True by simp_all
    moreover have "dictIsRehashing d'" using o True by simp
    moreover note dict_ok_rehashing(5,6) [OF o(1) this]
    ultimately show ?thesis using a re s by (simp add: rehash_left_def)
  next
    case False
    then show ?thesis using o s re a by (simp add: rehash_left_def)
  qed
qed

lemma dictRehashStep_iterate:
  "\<lbrakk>dict_ok hash d; iterators d = 0; rehash_left d \<le> n\<rbrakk> \<Longrightarrow>
   dict_ok hash ((dictRehashStep hash ^^ n) d) \<and> \<not> dictIsRehashing ((dictRehashStep hash ^^ n) d) \<and>
   dict_map ((dictRehashStep hash ^^ n) d) = dict_map d"
proof (induction n arbitrary: d)
  case 0
  then have "\<not> dictIsRehashing d"
    using dict_ok_rehashing(6) [OF "0.prems"(1)] by (auto simp: rehash_left_def)
  then show ?case using 0 by simp
next
  case (Suc n)
  note s = dictRehashStep_ok [OF Suc.prems(1)]
  have "rehash_left (dictRehashStep hash d) \<le> n"
  proof (cases "dictIsRehashing d")
    case True
    then show ?thesis using dictRehashStep_progress [OF Suc.prems(1,2)] Suc.prems(3) by simp
  next
    case False
    then show ?thesis using Suc.prems by (simp add: dictRehashStep_def dictRehash_def rehash_left_def)
  qed
  from Suc.IH [OF s(1) _ this] s Suc.prems dict_map_mset [OF Suc.prems(1) s(2)]
  show ?case by (simp add: funpow_swap1)
qed

section \<open>Properties\<close>

text \<open>
  C1: a dictionary is a map. Whatever sequence of \<open>dictAdd\<close>, \<open>dictReplace\<close>, \<open>dictDelete\<close>
  and \<open>dictFetchValue\<close> is run, interleaved with rehashing, resizing, changes of the resize
  policy and safe iterators, every answer and the final content are those of a map, and
  \<open>dictReplace\<close> never follows the \<open>NULL\<close> that \<open>dictAddRaw\<close> leaves when it cannot expand. The
  bound keeps the doubled table size representable.
\<close>
theorem dict_refines_map:
  assumes "dict_ok hash d" "card (dom (dict_map d)) + length ops \<le> 2 ^ 62"
  shows "\<exists>d' cr'. map_run (dict_step hash junk) ops (d, cr) =
      Some ((d', cr'), snd (map_spec ops (dict_map d))) \<and>
    dict_ok hash d' \<and> dict_map d' = fst (map_spec ops (dict_map d))"
  using dict.run_law [of hash "(d, cr)" ops junk] assms by auto

theorem dict_refines_map_witness:
  "\<exists>d' cr'. map_run (dict_step (\<lambda>k :: nat. of_nat k) (0 :: nat))
      [MAdd 3 30, MReplace 7 70, MTick BgResize, MDelete 3, MFetch 7] (dictCreate, True) =
    Some ((d', cr'), [Flag True, Flag True, Silent, Flag True, Fetched (Some 70)]) \<and>
    dict_ok (\<lambda>k. of_nat k) d' \<and> dict_map d' = (Map.empty(3 \<mapsto> 30, 7 \<mapsto> 70))(3 := None)"
  using dict_refines_map [of "\<lambda>k :: nat. of_nat k" dictCreate
      "[MAdd 3 30, MReplace 7 70, MTick BgResize, MDelete 3, MFetch 7]" 0 True]
  by (simp add: dictCreate_ok)

text \<open>
  C18: an incremental rehash ends. When no safe iterator holds it back, at most one operation
  per bucket of the old table, and one more, complete it, and the content is untouched.
\<close>
theorem rehash_completes:
  assumes "dict_ok hash d" "iterators d = 0" "n = ht_size (dict_ht0 d) + 1"
  shows "\<not> dictIsRehashing ((dictRehashStep hash ^^ n) d) \<and>
    dict_map ((dictRehashStep hash ^^ n) d) = dict_map d"
proof -
  have "rehash_left d \<le> n" using assms(3) by (simp add: rehash_left_def)
  then show ?thesis using dictRehashStep_iterate [OF assms(1,2)] by blast
qed

theorem rehash_completes_witness:
  "\<not> dictIsRehashing ((dictRehashStep (\<lambda>k :: nat. of_nat k) ^^ 1) (dictCreate :: (nat, nat) dict))"
  using rehash_completes [of "\<lambda>k :: nat. of_nat k" "dictCreate :: (nat, nat) dict" 1]
  by (simp add: dictCreate_ok) (simp add: dictCreate_def dictReset_def)

text \<open>
  C25: the size of a table is the least power of two, at least 4, that holds the requested
  number of elements.
\<close>
theorem dictNextPower_correct:
  assumes "sz < LONG_MAX"
  shows "sz \<le> dictNextPower sz \<and> 4 \<le> dictNextPower sz \<and> (\<exists>m. dictNextPower sz = 2 ^ m) \<and>
    (\<forall>m. 4 \<le> (2 :: nat) ^ m \<and> sz \<le> 2 ^ m \<longrightarrow> dictNextPower sz \<le> 2 ^ m)"
proof -
  obtain m where m: "dictNextPower sz = 2 ^ m" "2 \<le> m" "sz \<le> 2 ^ m" "2 ^ (m - 1) < sz \<or> m = 2"
    using dictNextPower_least [OF assms] by blast
  have four: "4 \<le> dictNextPower sz"
    using power_increasing [OF m(2), of "2 :: nat"] m(1) by simp
  have "dictNextPower sz \<le> 2 ^ k" if k: "4 \<le> (2 :: nat) ^ k" "sz \<le> 2 ^ k" for k
  proof (rule ccontr)
    assume "\<not> dictNextPower sz \<le> 2 ^ k"
    then have "(2 :: nat) ^ k < 2 ^ m" using m(1) by simp
    then have "k < m" by simp
    then have "(2 :: nat) ^ k \<le> 2 ^ (m - 1)" by (intro power_increasing) simp_all
    then have "m = 2" using m(4) k(2) by linarith
    then have "(2 :: nat) ^ k \<le> 2 ^ 1" using \<open>k < m\<close> by (intro power_increasing) simp_all
    then show False using k(1) by simp
  qed
  then show ?thesis using m(1,3) four by (intro conjI allI impI) auto
qed

theorem dictNextPower_correct_witness:
  "dictNextPower 100 = 2 ^ 7 \<and> 100 \<le> dictNextPower 100"
  using dictNextPower_correct [of 100]
  by (simp add: dictNextPower_def nextPowerLoop.simps DICT_HT_INITIAL_SIZE_def)

end
