(* ===== verification/DictScan.thy ===== *)
theory DictScan
  imports DictMap
begin

text \<open>
  \<open>dictScan\<close> of \<open>src/dict.c\<close>, the stateless iteration behind \<open>SCAN\<close>: the reversal of the bits
  of a cursor, the step of the reversed cursor, and the guarantee that every key present during
  the whole iteration is returned although the tables are resized and rehashed between the
  calls. The entries handed to the callback are returned as a list.
\<close>

section \<open>The cursor\<close>

function rev_loop :: "nat \<Rightarrow> u64 \<Rightarrow> u64 \<Rightarrow> u64" where
  "rev_loop s msk v =
     (let s = s div 2
      in if s > 0 then
           let msk = msk XOR push_bit s msk;
               v = (drop_bit s v AND msk) OR (push_bit s v AND NOT msk)
           in rev_loop s msk v
         else v)"
  by pat_completeness auto
termination by (relation "measure (\<lambda>(s, msk, v). s)") auto

declare rev_loop.simps [simp del]

definition dict_rev :: "u64 \<Rightarrow> u64" where
  "dict_rev v = rev_loop 64 (NOT 0) v"

text \<open>Set the bits the mask does not cover, then increment the reversed cursor.\<close>

definition next_cursor :: "u64 \<Rightarrow> u64 \<Rightarrow> u64" where
  "next_cursor m v =
     (let v = v OR NOT m; v = dict_rev v; v = v + 1 in dict_rev v)"

section \<open>One call\<close>

definition mask_of :: "('k, 'v) dictht \<Rightarrow> u64" where
  "mask_of t = of_nat (ht_sizemask t)"

definition scan_bucket :: "('k, 'v) dictht \<Rightarrow> u64 \<Rightarrow> ('k, 'v) chain" where
  "scan_bucket t v = ht_table t ! unat (v AND mask_of t)"

text \<open>The \<open>do ... while\<close> over the expansions of the cursor in the larger table.\<close>

partial_function (option) scan_expand ::
  "('k, 'v) dictht \<Rightarrow> u64 \<Rightarrow> u64 \<Rightarrow> ('k, 'v) chain \<Rightarrow> (u64 \<times> ('k, 'v) chain) option" where
  "scan_expand t1 m0 v acc =
     (let acc = acc @ scan_bucket t1 v;
          v = next_cursor (mask_of t1) v
      in if v AND (m0 XOR mask_of t1) \<noteq> 0 then scan_expand t1 m0 v acc else Some (v, acc))"

definition dictScan :: "('k, 'v) dict \<Rightarrow> u64 \<Rightarrow> (u64 \<times> ('k, 'v) chain) option" where
  "dictScan d v =
     (if dictSize d = 0 then Some (0, [])
      else if \<not> dictIsRehashing d then
        let t0 = dict_ht0 d in Some (next_cursor (mask_of t0) v, scan_bucket t0 v)
      else
        let (t0, t1) = (if ht_size (dict_ht0 d) > ht_size (dict_ht1 d)
                        then (dict_ht1 d, dict_ht0 d) else (dict_ht0 d, dict_ht1 d))
        in scan_expand t1 (mask_of t0) v (scan_bucket t0 v))"

text \<open>A whole iteration: one call in each of the given states, until the cursor is 0 again.\<close>

fun scan_run :: "('k, 'v) dict list \<Rightarrow> u64 \<Rightarrow> (u64 \<times> ('k, 'v) chain) option" where
  "scan_run [] v = Some (v, [])"
| "scan_run (d # ds) v =
     (case dictScan d v of
        None \<Rightarrow> None
      | Some (v, es) \<Rightarrow>
          if v = 0 then Some (v, es)
          else map_option (\<lambda>(v, es'). (v, es @ es')) (scan_run ds v))"

section \<open>The reversal\<close>

definition rev_stage :: "nat \<Rightarrow> u64 \<Rightarrow> u64 \<Rightarrow> u64" where
  "rev_stage s msk v = (drop_bit s v AND msk) OR (push_bit s v AND NOT msk)"

lemma bit_rev_stage:
  "n < 64 \<Longrightarrow> bit (rev_stage s msk v) n =
    (if bit msk n then bit v (s + n) else s \<le> n \<and> bit v (n - s))"
  by (auto simp: rev_stage_def bit_simps)

lemma rev_loop_step:
  "\<lbrakk>0 < s; msk' = msk XOR push_bit s msk\<rbrakk> \<Longrightarrow>
   rev_loop (2 * s) msk v = rev_loop s msk' (rev_stage s msk' v)"
  by (subst rev_loop.simps) (simp add: Let_def rev_stage_def)

lemma dict_rev_stages:
  "dict_rev v =
    rev_stage 1 0x5555555555555555 (rev_stage 2 0x3333333333333333
      (rev_stage 4 0x0F0F0F0F0F0F0F0F (rev_stage 8 0x00FF00FF00FF00FF
        (rev_stage 16 0x0000FFFF0000FFFF (rev_stage 32 0x00000000FFFFFFFF v)))))"
proof -
  have "(0xFFFFFFFF :: u64) = NOT 0 XOR push_bit 32 (NOT 0)"
    by (simp add: mask_eq_exp_minus_1)
  note r32 = rev_loop_step [OF _ this, of v]
  have r16: "rev_loop (2 * 16) 0xFFFFFFFF v =
      rev_loop 16 0x0000FFFF0000FFFF (rev_stage 16 0x0000FFFF0000FFFF v)" for v
    by (rule rev_loop_step) simp_all
  have r8: "rev_loop (2 * 8) 0x0000FFFF0000FFFF v =
      rev_loop 8 0x00FF00FF00FF00FF (rev_stage 8 0x00FF00FF00FF00FF v)" for v
    by (rule rev_loop_step) simp_all
  have r4: "rev_loop (2 * 4) 0x00FF00FF00FF00FF v =
      rev_loop 4 0x0F0F0F0F0F0F0F0F (rev_stage 4 0x0F0F0F0F0F0F0F0F v)" for v
    by (rule rev_loop_step) simp_all
  have r2: "rev_loop (2 * 2) 0x0F0F0F0F0F0F0F0F v =
      rev_loop 2 0x3333333333333333 (rev_stage 2 0x3333333333333333 v)" for v
    by (rule rev_loop_step) simp_all
  have r1: "rev_loop (2 * 1) 0x3333333333333333 v =
      rev_loop 1 0x5555555555555555 (rev_stage 1 0x5555555555555555 v)" for v
    by (rule rev_loop_step) simp_all
  have r0: "rev_loop 1 msk v = v" for msk v by (simp add: rev_loop.simps)
  show ?thesis
    using r32 r16 r8 r4 r2 r1 r0 by (simp add: dict_rev_def)
qed

lemma bit_dict_rev_all: "\<forall>n\<in>set [0..<64]. bit (dict_rev v) n = bit v (63 - n)"
  unfolding dict_rev_stages by (simp add: upt_rec bit_rev_stage)

lemma bit_dict_rev: "n < 64 \<Longrightarrow> bit (dict_rev v) n = bit v (63 - n)"
  using bit_dict_rev_all [of v] by simp

lemma dict_rev_rev [simp]: "dict_rev (dict_rev v) = v"
  by (rule bit_word_eqI) (simp add: bit_dict_rev)

section \<open>The order of the reversed hashes\<close>

definition rev_val :: "u64 \<Rightarrow> nat" where
  "rev_val v = unat (dict_rev v)"

lemma rev_val_less: "rev_val v < 2 ^ 64"
proof -
  have "unat (dict_rev v) < 2 ^ LENGTH(64)" by (rule unsigned_less)
  then show ?thesis by (simp add: rev_val_def)
qed

lemma rev_val_0: "rev_val v = 0 \<longleftrightarrow> v = 0"
proof
  assume "rev_val v = 0"
  then have "dict_rev v = 0" by (simp add: rev_val_def unat_eq_0)
  then have "dict_rev (dict_rev v) = dict_rev 0" by simp
  moreover have "dict_rev 0 = 0" by (rule bit_word_eqI) (simp add: bit_dict_rev)
  ultimately show "v = 0" by simp
next
  assume "v = 0"
  moreover have "dict_rev 0 = 0" by (rule bit_word_eqI) (simp add: bit_dict_rev)
  ultimately show "rev_val v = 0" by (simp add: rev_val_def)
qed

text \<open>Two values fall in the same bucket of a table iff their reversals lie in one block.\<close>

lemma unat_drop_bit_u64: "unat (drop_bit n (w :: u64)) = unat w div 2 ^ n"
proof -
  have "unat (drop_bit n w) = drop_bit n (unat w)"
    by (rule bit_eqI) (auto simp: bit_simps dest: bit_imp_le_length)
  then show ?thesis by (simp only: drop_bit_eq_div)
qed

lemma unat_mask_u64: "k \<le> 64 \<Longrightarrow> unat (mask k :: u64) = mask k"
  by (rule bit_eqI) (auto simp: bit_simps)

lemma eq_on_mask:
  "(x AND mask b = y AND mask b) \<longleftrightarrow> (\<forall>i<b. bit (x :: u64) i = bit y i)"
proof
  assume "x AND mask b = y AND mask b"
  then have e: "bit (x AND mask b) i = bit (y AND mask b) i" for i by (rule arg_cong)
  have m: "bit (z AND mask b) i = (bit z i \<and> i < b)" for z :: u64 and i
    using bit_imp_le_length [of z i] by (auto simp: bit_and_iff bit_mask_iff)
  show "\<forall>i<b. bit x i = bit y i" using e unfolding m by blast
next
  assume "\<forall>i<b. bit x i = bit y i"
  then show "x AND mask b = y AND mask b" by (intro bit_word_eqI) (auto simp: bit_simps)
qed

lemma eq_on_drop:
  assumes b: "b \<le> 64"
  shows "drop_bit (64 - b) (x :: u64) = drop_bit (64 - b) y \<longleftrightarrow>
    (\<forall>j<b. bit x (64 - b + j) = bit y (64 - b + j))"
proof
  assume "drop_bit (64 - b) x = drop_bit (64 - b) y"
  then have "bit (drop_bit (64 - b) x) j = bit (drop_bit (64 - b) y) j" for j by simp
  then show "\<forall>j<b. bit x (64 - b + j) = bit y (64 - b + j)" by (simp add: bit_drop_bit_eq)
next
  assume a: "\<forall>j<b. bit x (64 - b + j) = bit y (64 - b + j)"
  have "\<not> bit z (64 - b + j)" if "\<not> j < b" for z :: u64 and j
    using that b bit_imp_le_length [of z "64 - b + j"] by auto
  with a have "bit x (64 - b + j) = bit y (64 - b + j)" for j by blast
  then show "drop_bit (64 - b) x = drop_bit (64 - b) y"
    by (intro bit_word_eqI) (simp add: bit_drop_bit_eq)
qed

lemma all_reversed: "(\<forall>j<b. P (b - 1 - j)) \<longleftrightarrow> (\<forall>i<b. P (i :: nat))"
proof
  assume a: "\<forall>j<b. P (b - 1 - j)"
  show "\<forall>i<b. P i"
  proof (intro allI impI)
    fix i assume "i < b"
    then have "b - 1 - i < b" "b - 1 - (b - 1 - i) = i" by simp_all
    then show "P i" using a by metis
  qed
qed simp

lemma same_bucket:
  assumes b: "b \<le> 63"
  shows "(x AND mask b = y AND mask b) \<longleftrightarrow>
    rev_val x div 2 ^ (64 - b) = rev_val y div 2 ^ (64 - b)"
proof -
  have "rev_val x div 2 ^ (64 - b) = rev_val y div 2 ^ (64 - b) \<longleftrightarrow>
      drop_bit (64 - b) (dict_rev x) = drop_bit (64 - b) (dict_rev y)"
    by (simp only: rev_val_def word_unat_eq_iff flip: unat_drop_bit_u64)
  also have "\<dots> \<longleftrightarrow> (\<forall>j<b. bit (dict_rev x) (64 - b + j) = bit (dict_rev y) (64 - b + j))"
    using b by (intro eq_on_drop) simp
  also have "\<dots> \<longleftrightarrow> (\<forall>j<b. bit x (b - 1 - j) = bit y (b - 1 - j))"
    using b by (intro all_cong) (simp add: bit_dict_rev)
  also have "\<dots> \<longleftrightarrow> (\<forall>i<b. bit x i = bit y i)" by (rule all_reversed)
  finally show ?thesis by (simp only: eq_on_mask)
qed

lemma nat_or_mask: "(n :: nat) OR mask k = n div 2 ^ k * 2 ^ k + (2 ^ k - 1)"
proof -
  have "push_bit k (drop_bit k n) AND mask k = 0"
    by (rule bit_eqI) (auto simp: bit_simps)
  then have "push_bit k (drop_bit k n) + mask k = push_bit k (drop_bit k n) OR mask k"
    by (rule disjunctive_add_eq_or)
  also have "\<dots> = n OR mask k" by (rule bit_eqI) (auto simp: bit_simps)
  finally show ?thesis by (simp add: push_bit_eq_mult drop_bit_eq_div mask_eq_exp_minus_1)
qed

lemma rev_val_next:
  assumes b: "b \<le> 63"
  shows "rev_val (next_cursor (mask b) v) =
    (rev_val v div 2 ^ (64 - b) + 1) * 2 ^ (64 - b) mod 2 ^ 64"
proof -
  let ?k = "64 - b"
  have "dict_rev (v OR NOT (mask b)) = dict_rev v OR mask ?k"
    using b by (intro bit_word_eqI) (auto simp: bit_dict_rev bit_simps)
  then have "rev_val (next_cursor (mask b) v) = unat ((dict_rev v OR mask ?k) + 1)"
    by (simp add: next_cursor_def rev_val_def Let_def)
  also have "\<dots> = (unat (dict_rev v OR mask ?k) + 1) mod 2 ^ 64"
    by (simp add: unat_word_ariths)
  also have "unat (dict_rev v OR mask ?k) = rev_val v OR mask ?k"
    by (simp add: unsigned_or_eq unat_mask_u64 rev_val_def min_def)
  also have "\<dots> + 1 = (rev_val v div 2 ^ ?k + 1) * 2 ^ ?k"
    by (simp add: nat_or_mask)
  finally show ?thesis .
qed

section \<open>One bucket\<close>

lemma mask_of_table:
  assumes "table_ok hash t"
  obtains b where "2 \<le> b" "b \<le> 63" "ht_size t = 2 ^ b" "mask_of t = mask b"
proof -
  obtain b where b: "2 \<le> b" "b \<le> 63" "ht_size t = 2 ^ b" using assms by (auto simp: table_ok_def)
  moreover have "ht_sizemask t = 2 ^ b - 1" using assms b(3) by (simp add: table_ok_def)
  then have "mask_of t = mask b" unfolding mask_of_def by (metis mask_nat_def of_nat_mask_eq)
  ultimately show ?thesis using that by blast
qed

lemma scan_bucket_hit:
  assumes tab: "table_ok hash t" "mask_of t = mask b" "b \<le> 63"
    and e: "(k, x) \<in> set (ht_entries t)"
    and blk: "rev_val (hash k) div 2 ^ (64 - b) = rev_val v div 2 ^ (64 - b)"
  shows "(k, x) \<in> set (scan_bucket t v)"
proof -
  obtain i where i: "i < length (ht_table t)" "(k, x) \<in> set (ht_table t ! i)"
    using e unfolding ht_entries_def by (metis (no_types, lifting) UN_E in_set_conv_nth set_concat)
  have "hash k AND mask b = v AND mask b" using blk same_bucket [OF tab(3)] by blast
  moreover have "unat (hash k AND mask b) = i"
    using table_ok_bucket [OF tab(1) i] by (simp add: ht_index_def mask_of_def [symmetric] tab(2))
  ultimately show ?thesis using i(2) by (simp add: scan_bucket_def tab(2))
qed

lemma scan_bucket_entries:
  assumes "table_ok hash t"
  shows "set (scan_bucket t v) \<subseteq> set (ht_entries t)"
proof -
  obtain b where b: "b \<le> 63" "ht_size t = 2 ^ b" "ht_sizemask t = 2 ^ b - 1"
    using assms by (auto simp: table_ok_def)
  have "unat (v AND mask_of t) = unat v mod 2 ^ b"
    unfolding mask_of_def b(3) by (rule unat_and_pow2 [OF b(1)])
  then have "unat (v AND mask_of t) < length (ht_table t)"
    using assms b(2) by (simp add: table_ok_def)
  then have "ht_table t ! unat (v AND mask_of t) \<in> set (ht_table t)" by (rule nth_mem)
  then show ?thesis unfolding scan_bucket_def ht_entries_def set_concat by blast
qed

section \<open>Blocks of reversed hashes\<close>

lemma block_cover:
  assumes "r \<le> h" "h < 2 ^ 64" "k \<le> 64" "r' = (r div 2 ^ k + 1) * 2 ^ k mod 2 ^ 64"
    and "r' = 0 \<or> h < r'"
  shows "h div 2 ^ k = r div (2 :: nat) ^ k"
proof -
  have pow: "(2 :: nat) ^ 64 = 2 ^ (64 - k) * 2 ^ k" using assms(3) by (simp flip: power_add)
  have le: "r div 2 ^ k \<le> h div 2 ^ k" using assms(1) by (rule div_le_mono)
  have "h div 2 ^ k < r div 2 ^ k + 1"
  proof (cases "(r div 2 ^ k + 1) * 2 ^ k < 2 ^ 64")
    case True
    then have "h < (r div 2 ^ k + 1) * 2 ^ k" using assms(4,5) by simp
    then show ?thesis by (simp add: less_mult_imp_div_less)
  next
    case False
    then have "2 ^ (64 - k) * 2 ^ k \<le> (r div 2 ^ k + 1) * 2 ^ k" using pow by linarith
    then have "2 ^ (64 - k) \<le> r div 2 ^ k + 1" by (simp only: mult_le_cancel2) simp
    moreover have "h div 2 ^ k < 2 ^ (64 - k)"
      using assms(2) unfolding pow by (rule less_mult_imp_div_less)
    ultimately show ?thesis by linarith
  qed
  then show ?thesis using le by linarith
qed

lemma block_progress:
  assumes "r < 2 ^ 64" "k \<le> 64" "j \<le> k" "r' = (r div 2 ^ k + 1) * 2 ^ k mod 2 ^ 64" "r' \<noteq> 0"
  shows "r div 2 ^ j < r' div (2 :: nat) ^ j"
proof -
  have pow: "(2 :: nat) ^ 64 = 2 ^ (64 - k) * 2 ^ k" using assms(2) by (simp flip: power_add)
  have "r div 2 ^ k < 2 ^ (64 - k)" using assms(1) unfolding pow by (rule less_mult_imp_div_less)
  then have "(r div 2 ^ k + 1) * 2 ^ k \<le> 2 ^ (64 - k) * 2 ^ k" by (intro mult_le_mono1) simp
  then have le: "(r div 2 ^ k + 1) * 2 ^ k \<le> 2 ^ 64" using pow by simp
  have "(r div 2 ^ k + 1) * 2 ^ k \<noteq> 2 ^ 64" using assms(4,5) by (intro notI) simp
  then have r': "r' = (r div 2 ^ k + 1) * 2 ^ k" using le assms(4) by simp
  have "r < r'" unfolding r' by (metis Suc_eq_plus1 dividend_less_div_times mult.commute mult_Suc
      add.commute zero_less_numeral zero_less_power)
  moreover have "2 ^ k = (2 :: nat) ^ (k - j) * 2 ^ j" using assms(3) by (simp flip: power_add)
  then have "r' = r' div 2 ^ j * 2 ^ j" unfolding r' by (simp add: mult.assoc [symmetric])
  ultimately have "r div 2 ^ j * 2 ^ j < r' div 2 ^ j * 2 ^ j"
    by (metis div_times_less_eq_dividend le_less_trans)
  then show ?thesis by simp
qed

lemma rev_val_mod_0:
  assumes "k \<le> 64"
  shows "rev_val v mod 2 ^ k = 0 \<longleftrightarrow> (\<forall>i. 64 - k \<le> i \<and> i < 64 \<longrightarrow> \<not> bit v i)"
proof -
  have "rev_val v mod 2 ^ k = unat (take_bit k (dict_rev v))"
    by (simp only: rev_val_def unsigned_take_bit_eq take_bit_eq_mod [where ?'a = nat])
  then have "rev_val v mod 2 ^ k = 0 \<longleftrightarrow> take_bit k (dict_rev v) = 0"
    by (simp only: unat_eq_0)
  also have "\<dots> \<longleftrightarrow> (\<forall>j<k. \<not> bit (dict_rev v) j)"
  proof
    assume "take_bit k (dict_rev v) = 0"
    from this have "bit (take_bit k (dict_rev v)) j = bit (0 :: u64) j" for j by (rule arg_cong)
    then show "\<forall>j<k. \<not> bit (dict_rev v) j" by (simp add: bit_take_bit_iff)
  next
    assume "\<forall>j<k. \<not> bit (dict_rev v) j"
    then show "take_bit k (dict_rev v) = 0" by (intro bit_word_eqI) (simp add: bit_take_bit_iff)
  qed
  also have "\<dots> \<longleftrightarrow> (\<forall>j<k. \<not> bit v (63 - j))"
    using assms by (intro all_cong) (simp add: bit_dict_rev)
  also have "\<dots> \<longleftrightarrow> (\<forall>i. 64 - k \<le> i \<and> i < 64 \<longrightarrow> \<not> bit v i)"
  proof
    assume a: "\<forall>j<k. \<not> bit v (63 - j)"
    show "\<forall>i. 64 - k \<le> i \<and> i < 64 \<longrightarrow> \<not> bit v i"
    proof (intro allI impI)
      fix i assume "64 - k \<le> i \<and> i < 64"
      then have "63 - i < k" "63 - (63 - i) = i" using assms by linarith+
      then show "\<not> bit v i" using a by metis
    qed
  next
    assume a: "\<forall>i. 64 - k \<le> i \<and> i < 64 \<longrightarrow> \<not> bit v i"
    show "\<forall>j<k. \<not> bit v (63 - j)"
    proof (intro allI impI)
      fix j assume "j < k"
      then have "64 - k \<le> 63 - j \<and> 63 - j < 64" using assms by linarith
      then show "\<not> bit v (63 - j)" using a by blast
    qed
  qed
  finally show ?thesis .
qed

lemma expand_stop:
  assumes b: "b0 \<le> b1" "b1 \<le> 63" and m: "rev_val v mod 2 ^ (64 - b1) = 0"
  shows "v AND (mask b0 XOR mask b1) = 0 \<longleftrightarrow> rev_val v mod 2 ^ (64 - b0) = 0"
proof -
  have "rev_val v mod 2 ^ (64 - b1) = 0 \<longleftrightarrow> (\<forall>i. b1 \<le> i \<and> i < 64 \<longrightarrow> \<not> bit v i)"
    using rev_val_mod_0 [of "64 - b1" v] b by simp
  then have hi: "\<forall>i. b1 \<le> i \<and> i < 64 \<longrightarrow> \<not> bit v i" using m by blast
  have bits: "bit (v AND (mask b0 XOR mask b1)) i \<longleftrightarrow> bit v i \<and> b0 \<le> i \<and> i < b1" for i
    using b bit_imp_le_length [of v i] by (auto simp: bit_and_iff bit_xor_iff bit_mask_iff)
  have z: "w = 0 \<longleftrightarrow> (\<forall>i. \<not> bit w i)" for w :: u64
    by (auto intro: bit_word_eqI)
  have lt: "i < b1 \<Longrightarrow> i < 64" for i using b by simp
  have "v AND (mask b0 XOR mask b1) = 0 \<longleftrightarrow> (\<forall>i. \<not> (bit v i \<and> b0 \<le> i \<and> i < b1))"
    unfolding z [of "v AND (mask b0 XOR mask b1)"] bits ..
  also have "\<dots> \<longleftrightarrow> (\<forall>i. b0 \<le> i \<and> i < 64 \<longrightarrow> \<not> bit v i)"
    using hi lt by (meson not_le)
  also have "\<dots> \<longleftrightarrow> rev_val v mod 2 ^ (64 - b0) = 0"
    using rev_val_mod_0 [of "64 - b0" v] b by simp
  finally show ?thesis .
qed

section \<open>The expansions of a cursor\<close>

text \<open>The step from one block of the larger table to the next, \<open>K\<close> of them in one of the
  smaller: either the end of the smaller table's block or the next block inside it.\<close>

lemma block_step:
  assumes b: "b0 \<le> b1" "b1 \<le> 63" and r: "r < 2 ^ 64"
    and r1: "r1 = (r div 2 ^ (64 - b1) + 1) * 2 ^ (64 - b1) mod (2 :: nat) ^ 64"
    and K: "K = (2 :: nat) ^ (b1 - b0)" and q: "q = r div 2 ^ (64 - b1)"
  shows "r div 2 ^ (64 - b0) = q div K" and "r1 mod 2 ^ (64 - b1) = 0"
    and "(q + 1) mod K = 0 \<Longrightarrow>
      r1 mod 2 ^ (64 - b0) = 0 \<and> r1 = (q div K + 1) * 2 ^ (64 - b0) mod 2 ^ 64"
    and "(q + 1) mod K \<noteq> 0 \<Longrightarrow> r1 mod 2 ^ (64 - b0) \<noteq> 0 \<and>
      r1 div 2 ^ (64 - b1) = q + 1 \<and> (q + 1) div K = q div K"
proof -
  let ?B1 = "(2 :: nat) ^ (64 - b1)" and ?B0 = "(2 :: nat) ^ (64 - b0)"
  have B0: "?B0 = ?B1 * K" using b unfolding K by (simp flip: power_add)
  have top: "(2 :: nat) ^ 64 = 2 ^ b0 * ?B0" "(2 :: nat) ^ 64 = 2 ^ b1 * ?B1"
    using b by (simp_all flip: power_add)
  show "r div ?B0 = q div K" unfolding B0 q by (simp add: div_mult2_eq)
  show "r1 mod ?B1 = 0" unfolding r1 top(2) by (simp add: mod_mult_self2_is_0 mod_mod_cancel)
  show "r1 mod ?B0 = 0 \<and> r1 = (q div K + 1) * ?B0 mod 2 ^ 64" if "(q + 1) mod K = 0"
  proof -
    have "(q + 1) div K = q div K + 1" using that by (metis Suc_eq_plus1 div_Suc)
    then have "q + 1 = (q div K + 1) * K" using that by (metis mult_div_mod_eq add.right_neutral mult.commute)
    then have "(q + 1) * ?B1 = (q div K + 1) * ?B0" unfolding B0 by (metis mult.assoc mult.commute)
    then have e: "r1 = (q div K + 1) * ?B0 mod 2 ^ 64" using r1 q by simp
    then show ?thesis unfolding top(1) by (simp add: mod_mod_cancel)
  qed
  show "r1 mod ?B0 \<noteq> 0 \<and> r1 div ?B1 = q + 1 \<and> (q + 1) div K = q div K" if ne: "(q + 1) mod K \<noteq> 0"
  proof -
    have "q < 2 ^ b1" using r unfolding q top(2) by (rule less_mult_imp_div_less)
    moreover have "(2 :: nat) ^ b1 = 2 ^ b0 * K" using b unfolding K by (simp flip: power_add)
    then have "q + 1 \<noteq> 2 ^ b1" using ne by (intro notI) simp
    ultimately have "q + 1 < 2 ^ b1" by linarith
    then have "(q + 1) * ?B1 < 2 ^ b1 * ?B1" by (intro mult_strict_right_mono) simp_all
    then have "(q + 1) * ?B1 < 2 ^ 64" unfolding top(2) .
    then have e: "r1 = (q + 1) * ?B1" using r1 q by simp
    have "r1 mod ?B0 = ((q + 1) mod K) * ?B1"
      unfolding e B0 by (metis mult.commute mult_mod_right)
    moreover have "(q + 1) div K = q div K" using ne by (metis Suc_eq_plus1 div_Suc)
    ultimately show ?thesis using ne e by simp
  qed
qed

lemma scan_expand_covers:
  assumes tab: "table_ok hash t1" "mask_of t1 = mask b1" and b: "b0 \<le> b1" "b1 \<le> 63"
  shows "\<exists>v' es. scan_expand t1 (mask b0) v acc = Some (v', acc @ es) \<and>
    set es \<subseteq> set (ht_entries t1) \<and>
    rev_val v' = (rev_val v div 2 ^ (64 - b0) + 1) * 2 ^ (64 - b0) mod 2 ^ 64 \<and>
    (\<forall>k x. (k, x) \<in> set (ht_entries t1) \<and>
      rev_val v div 2 ^ (64 - b1) \<le> rev_val (hash k) div 2 ^ (64 - b1) \<and>
      rev_val (hash k) div 2 ^ (64 - b0) = rev_val v div 2 ^ (64 - b0) \<longrightarrow> (k, x) \<in> set es)"
proof (induction "2 ^ (b1 - b0) - 1 - (rev_val v div 2 ^ (64 - b1)) mod 2 ^ (b1 - b0)"
    arbitrary: v acc rule: less_induct)
  case less
  define K where "K = (2 :: nat) ^ (b1 - b0)"
  define q where "q = rev_val v div 2 ^ (64 - b1)"
  define v1 where "v1 = next_cursor (mask b1) v"
  note st = block_step [OF b rev_val_less rev_val_next [OF b(2)] K_def q_def, folded v1_def]
  note stop = expand_stop [OF b st(2)]
  have un: "scan_expand t1 (mask b0) v acc =
      (if v1 AND (mask b0 XOR mask b1) \<noteq> 0
       then scan_expand t1 (mask b0) v1 (acc @ scan_bucket t1 v)
       else Some (v1, acc @ scan_bucket t1 v))"
    by (subst scan_expand.simps) (simp add: Let_def tab(2) v1_def)
  have sub: "set (scan_bucket t1 v) \<subseteq> set (ht_entries t1)" by (rule scan_bucket_entries [OF tab(1)])
  have hit: "(k, x) \<in> set (scan_bucket t1 v)"
    if "(k, x) \<in> set (ht_entries t1)" "rev_val (hash k) div 2 ^ (64 - b1) = q" for k x
    using scan_bucket_hit [OF tab b(2) that(1), of v] that(2) by (simp add: q_def)
  have blk: "h div 2 ^ (64 - b0) = h div 2 ^ (64 - b1) div K" for h :: nat
    using b by (simp add: K_def div_mult2_eq [symmetric] flip: power_add)
  show ?case
  proof (cases "(q + 1) mod K = 0")
    case True
    have z: "v1 AND (mask b0 XOR mask b1) = 0"
      by (intro stop [THEN iffD2] conjunct1 [OF st(3) [OF True]])
    have "h div 2 ^ (64 - b1) = q"
      if "q \<le> h div 2 ^ (64 - b1)" "h div 2 ^ (64 - b0) = q div K" for h :: nat
    proof (rule ccontr)
      assume "h div 2 ^ (64 - b1) \<noteq> q"
      then have "(q + 1) div K \<le> h div 2 ^ (64 - b1) div K" using that(1) by (intro div_le_mono) simp
      moreover have "(q + 1) div K = q div K + 1" using True by (metis Suc_eq_plus1 div_Suc)
      ultimately show False using that(2) blk by simp
    qed
    then show ?thesis using un z st(1) st(3) [OF True] sub hit unfolding q_def [symmetric]
      by (intro exI [of _ v1] exI [of _ "scan_bucket t1 v"]) simp
  next
    case False
    note s4 = st(4) [OF False]
    have nz: "v1 AND (mask b0 XOR mask b1) \<noteq> 0"
      by (rule notI) (use conjunct1 [OF s4] stop [THEN iffD1] in \<open>rule notE\<close>)
    have Kpos: "0 < K" by (simp add: K_def)
    have "q mod K + 1 < K"
      using False Kpos by (metis Suc_eq_plus1 Suc_lessI mod_Suc mod_less_divisor)
    moreover have "(q + 1) mod K = q mod K + 1" using False by (metis Suc_eq_plus1 mod_Suc)
    ultimately have less': "K - 1 - (q + 1) mod K < K - 1 - q mod K" by linarith
    have m: "2 ^ (b1 - b0) - 1 - rev_val v1 div 2 ^ (64 - b1) mod 2 ^ (b1 - b0) <
        2 ^ (b1 - b0) - 1 - rev_val v div 2 ^ (64 - b1) mod 2 ^ (b1 - b0)"
      using less' s4 by (simp add: K_def q_def)
    obtain v' es where ih: "scan_expand t1 (mask b0) v1 (acc @ scan_bucket t1 v) =
          Some (v', (acc @ scan_bucket t1 v) @ es)"
        "set es \<subseteq> set (ht_entries t1)"
        "rev_val v' = (rev_val v1 div 2 ^ (64 - b0) + 1) * 2 ^ (64 - b0) mod 2 ^ 64"
        "\<forall>k x. (k, x) \<in> set (ht_entries t1) \<and>
          rev_val v1 div 2 ^ (64 - b1) \<le> rev_val (hash k) div 2 ^ (64 - b1) \<and>
          rev_val (hash k) div 2 ^ (64 - b0) = rev_val v1 div 2 ^ (64 - b0) \<longrightarrow> (k, x) \<in> set es"
      using less.hyps [OF m, of "acc @ scan_bucket t1 v"] by blast
    have same: "rev_val v1 div 2 ^ (64 - b0) = rev_val v div 2 ^ (64 - b0)"
      using s4 st(1) by (simp add: blk)
    have cov: "(k, x) \<in> set (scan_bucket t1 v @ es)"
      if "(k, x) \<in> set (ht_entries t1)" "q \<le> rev_val (hash k) div 2 ^ (64 - b1)"
        "rev_val (hash k) div 2 ^ (64 - b0) = rev_val v div 2 ^ (64 - b0)" for k x
    proof (cases "rev_val (hash k) div 2 ^ (64 - b1) = q")
      case False
      then have "rev_val v1 div 2 ^ (64 - b1) \<le> rev_val (hash k) div 2 ^ (64 - b1)"
        using that(2) s4 by simp
      then show ?thesis using ih(4) that(1,3) same by simp
    qed (use hit that(1) in simp)
    show ?thesis using un nz ih(1,2,3) sub cov same unfolding q_def [symmetric]
      by (intro exI [of _ v'] exI [of _ "scan_bucket t1 v @ es"]) simp
  qed
qed

section \<open>One call, and the whole iteration\<close>

text \<open>What a call that moves the cursor from \<open>v\<close> to \<open>v'\<close> has returned: all entries whose
  reversed hash lies between the two.\<close>

definition scan_covers :: "('k \<Rightarrow> u64) \<Rightarrow> ('k, 'v) chain \<Rightarrow> u64 \<Rightarrow> u64 \<Rightarrow> ('k, 'v) chain \<Rightarrow> bool" where
  "scan_covers hash all v v' es \<longleftrightarrow>
     set es \<subseteq> set all \<and>
     (\<forall>k x. (k, x) \<in> set all \<and> rev_val v \<le> rev_val (hash k) \<and>
        (v' = 0 \<or> rev_val (hash k) < rev_val v') \<longrightarrow> (k, x) \<in> set es)"

text \<open>The number of table bits bounds the number of calls.\<close>

definition dict_bits :: "nat \<Rightarrow> ('k, 'v) dict \<Rightarrow> bool" where
  "dict_bits b d \<longleftrightarrow> ht_size (dict_ht0 d) \<le> 2 ^ b \<and> ht_size (dict_ht1 d) \<le> 2 ^ b"

lemma scan_one_table:
  assumes tab: "table_ok hash t" "mask_of t = mask b" "b \<le> 63"
  shows "scan_covers hash (ht_entries t) v (next_cursor (mask b) v) (scan_bucket t v)"
proof -
  let ?v' = "next_cursor (mask b) v"
  have k: "64 - b \<le> 64" by simp
  have "(k, x) \<in> set (scan_bucket t v)"
    if "(k, x) \<in> set (ht_entries t)" "rev_val v \<le> rev_val (hash k)"
      "?v' = 0 \<or> rev_val (hash k) < rev_val ?v'" for k x
  proof -
    have "rev_val ?v' = 0 \<or> rev_val (hash k) < rev_val ?v'" using that(3) by (simp only: rev_val_0)
    from block_cover [OF that(2) rev_val_less k rev_val_next [OF tab(3)] this]
    show ?thesis by (rule scan_bucket_hit [OF tab that(1)])
  qed
  then show ?thesis using scan_bucket_entries [OF tab(1)] by (auto simp: scan_covers_def)
qed

lemma next_progress:
  assumes "b \<le> c" "b \<le> 63" "c \<le> 64" "v' \<noteq> 0"
    "rev_val v' = (rev_val v div 2 ^ (64 - b) + 1) * 2 ^ (64 - b) mod 2 ^ 64"
  shows "rev_val v div 2 ^ (64 - c) < rev_val v' div 2 ^ (64 - c)"
proof (rule block_progress [OF rev_val_less _ _ assms(5)])
  show "64 - c \<le> 64 - b" using assms(1) by (rule diff_le_mono2)
  show "rev_val v' \<noteq> 0" using assms(4) by (simp add: rev_val_0)
qed simp

lemma scan_two_tables:
  assumes t0: "table_ok hash t0" "ht_size t0 = 2 ^ b0" "mask_of t0 = mask b0"
    and t1: "table_ok hash t1" "ht_size t1 = 2 ^ b1" "mask_of t1 = mask b1"
    and b: "b0 \<le> b1" "b1 \<le> 63"
  shows "\<exists>v' es. scan_expand t1 (mask_of t0) v (scan_bucket t0 v) = Some (v', es) \<and>
    scan_covers hash (ht_entries t0 @ ht_entries t1) v v' es \<and>
    rev_val v' = (rev_val v div 2 ^ (64 - b0) + 1) * 2 ^ (64 - b0) mod 2 ^ 64"
proof -
  let ?acc = "scan_bucket t0 v"
  obtain v' es where e: "scan_expand t1 (mask b0) v ?acc = Some (v', ?acc @ es)"
    "set es \<subseteq> set (ht_entries t1)"
    "rev_val v' = (rev_val v div 2 ^ (64 - b0) + 1) * 2 ^ (64 - b0) mod 2 ^ 64"
    "\<forall>k x. (k, x) \<in> set (ht_entries t1) \<and>
      rev_val v div 2 ^ (64 - b1) \<le> rev_val (hash k) div 2 ^ (64 - b1) \<and>
      rev_val (hash k) div 2 ^ (64 - b0) = rev_val v div 2 ^ (64 - b0) \<longrightarrow> (k, x) \<in> set es"
    using scan_expand_covers [OF t1(1,3) b, of v ?acc] by metis
  have b0: "b0 \<le> 63" using b by simp
  have k: "64 - b0 \<le> 64" by simp
  have "(k, x) \<in> set (?acc @ es)"
    if in_tables: "(k, x) \<in> set (ht_entries t0 @ ht_entries t1)" and h: "rev_val v \<le> rev_val (hash k)"
      "v' = 0 \<or> rev_val (hash k) < rev_val v'" for k x
  proof -
    have "rev_val v' = 0 \<or> rev_val (hash k) < rev_val v'" using h(2) by (simp only: rev_val_0)
    from block_cover [OF h(1) rev_val_less k e(3) this]
    have blk: "rev_val (hash k) div 2 ^ (64 - b0) = rev_val v div 2 ^ (64 - b0)" .
    show ?thesis
    proof (cases "(k, x) \<in> set (ht_entries t0)")
      case True
      have "(k, x) \<in> set ?acc" by (rule scan_bucket_hit [OF t0(1,3) b0 True blk])
      then show ?thesis by (simp only: set_append Un_iff simp_thms)
    next
      case False
      then have "(k, x) \<in> set (ht_entries t1)" using in_tables by (simp only: set_append Un_iff simp_thms)
      moreover have "rev_val v div 2 ^ (64 - b1) \<le> rev_val (hash k) div 2 ^ (64 - b1)"
        using h(1) by (rule div_le_mono)
      ultimately have "(k, x) \<in> set es" using e(4) blk by blast
      then show ?thesis by (simp only: set_append Un_iff simp_thms)
    qed
  qed
  moreover have "set (?acc @ es) \<subseteq> set (ht_entries t0 @ ht_entries t1)"
    using scan_bucket_entries [OF t0(1), of v] e(2) by auto
  ultimately have "scan_covers hash (ht_entries t0 @ ht_entries t1) v v' (?acc @ es)"
    unfolding scan_covers_def by blast
  moreover have "scan_expand t1 (mask_of t0) v ?acc = Some (v', ?acc @ es)"
    unfolding t0(3) by (rule e(1))
  ultimately show ?thesis using e(3) by blast
qed

lemma dictScan_call:
  assumes ok: "dict_ok hash d" and bits: "dict_bits c d" "c \<le> 63"
  shows "\<exists>v' es. dictScan d v = Some (v', es) \<and> scan_covers hash (dict_entries d) v v' es \<and>
    (v' = 0 \<or> rev_val v div 2 ^ (64 - c) < rev_val v' div 2 ^ (64 - c))"
proof (cases "dictSize d = 0")
  case True
  then show ?thesis using dictSize_entries [OF ok] by (simp add: dictScan_def scan_covers_def)
next
  case ne: False
  have pow: "(2 :: nat) ^ b \<le> 2 ^ c \<Longrightarrow> b \<le> c" for b by (simp add: power_le_imp_le_exp)
  have c64: "c \<le> 64" using bits(2) by simp
  show ?thesis
  proof (cases "dictIsRehashing d")
    case False
    have h1: "dict_ht1 d = dictReset"
      using ok False by (simp add: dict_ok_def rehash_ok_def dictIsRehashing_def)
    have "dict_ht0 d \<noteq> dictReset" by (rule dict_nonempty_ht0 [OF ok ne])
    then have tab: "table_ok hash (dict_ht0 d)" using ok ht_ok_table by (auto simp: dict_ok_def)
    obtain b where b: "b \<le> 63" "ht_size (dict_ht0 d) = 2 ^ b" "mask_of (dict_ht0 d) = mask b"
      using mask_of_table [OF tab] by metis
    have "b \<le> c" using bits(1) b(2) pow by (simp add: dict_bits_def)
    then have "next_cursor (mask b) v = 0 \<or>
        rev_val v div 2 ^ (64 - c) < rev_val (next_cursor (mask b) v) div 2 ^ (64 - c)"
      using next_progress [OF _ b(1) c64 _ rev_val_next [OF b(1)], of v] by blast
    then show ?thesis
      using scan_one_table [OF tab b(3,1), of v] ne False b(3) h1
      by (simp add: dictScan_def dict_entries_def)
  next
    case True
    note r = dict_ok_rehashing [OF ok True]
    obtain b0 where b0: "b0 \<le> 63" "ht_size (dict_ht0 d) = 2 ^ b0" "mask_of (dict_ht0 d) = mask b0"
      using mask_of_table [OF r(1)] by metis
    obtain b1 where b1: "b1 \<le> 63" "ht_size (dict_ht1 d) = 2 ^ b1" "mask_of (dict_ht1 d) = mask b1"
      using mask_of_table [OF r(2)] by metis
    have c: "b0 \<le> c" "b1 \<le> c" using bits(1) b0(2) b1(2) pow by (simp_all add: dict_bits_def)
    show ?thesis
    proof (cases "ht_size (dict_ht0 d) > ht_size (dict_ht1 d)")
      case gt: True
      then have "b1 \<le> b0" using b0(2) b1(2) by simp
      then obtain v' es where e: "scan_expand (dict_ht0 d) (mask_of (dict_ht1 d)) v
            (scan_bucket (dict_ht1 d) v) = Some (v', es)"
          "scan_covers hash (ht_entries (dict_ht1 d) @ ht_entries (dict_ht0 d)) v v' es"
          "rev_val v' = (rev_val v div 2 ^ (64 - b1) + 1) * 2 ^ (64 - b1) mod 2 ^ 64"
        using scan_two_tables [OF r(2) b1(2,3) r(1) b0(2,3) _ b0(1), of v] by blast
      then have "scan_covers hash (dict_entries d) v v' es"
        by (auto simp: scan_covers_def dict_entries_def)
      then show ?thesis using e(1) ne True gt next_progress [OF c(2) b1(1) c64 _ e(3)]
        by (auto simp: dictScan_def)
    next
      case le: False
      then have "b0 \<le> b1" using b0(2) b1(2) by simp
      then obtain v' es where e: "scan_expand (dict_ht1 d) (mask_of (dict_ht0 d)) v
            (scan_bucket (dict_ht0 d) v) = Some (v', es)"
          "scan_covers hash (ht_entries (dict_ht0 d) @ ht_entries (dict_ht1 d)) v v' es"
          "rev_val v' = (rev_val v div 2 ^ (64 - b0) + 1) * 2 ^ (64 - b0) mod 2 ^ 64"
        using scan_two_tables [OF r(1) b0(2,3) r(2) b1(2,3) _ b1(1), of v] by blast
      then show ?thesis using ne True le next_progress [OF c(1) b0(1) c64 _ e(3)]
        by (auto simp: dictScan_def dict_entries_def)
    qed
  qed
qed

lemma scan_run_covers:
  "\<lbrakk>\<forall>d\<in>set ds. dict_ok hash d \<and> dict_bits 63 d \<and> k \<in> dom (dict_map d);
    rev_val v \<le> rev_val (hash k); scan_run ds v = Some (0, es); ds \<noteq> []\<rbrakk> \<Longrightarrow>
   k \<in> fst ` set es"
proof (induction ds arbitrary: v es)
  case (Cons d ds)
  have d: "dict_ok hash d" "dict_bits 63 d" "k \<in> dom (dict_map d)" using Cons.prems(1) by simp_all
  obtain v' es1 where c: "dictScan d v = Some (v', es1)" "scan_covers hash (dict_entries d) v v' es1"
    using dictScan_call [OF d(1,2), of v] by auto
  obtain x where x: "(k, x) \<in> set (dict_entries d)"
    using d(3) by (auto simp: dict_map_def dest: map_of_SomeD)
  show ?case
  proof (cases "v' = 0 \<or> rev_val (hash k) < rev_val v'")
    case True
    then have "(k, x) \<in> set es1" using c(2) x Cons.prems(2) by (simp add: scan_covers_def)
    moreover have "set es1 \<subseteq> set es" using Cons.prems(3) c(1) by (auto split: if_splits)
    ultimately show ?thesis by force
  next
    case False
    then obtain es2 where r: "scan_run ds v' = Some (0, es2)" "es = es1 @ es2"
      using Cons.prems(3) c(1) by auto
    moreover have "ds \<noteq> []" using r(1) False by auto
    ultimately have "k \<in> fst ` set es2" using Cons.IH [OF _ _ r(1)] Cons.prems(1) False by simp
    then show ?thesis using r(2) by auto
  qed
qed simp

lemma scan_run_ends:
  "\<lbrakk>\<forall>d\<in>set ds. dict_ok hash d \<and> dict_bits c d; c \<le> 63; ds \<noteq> [];
    2 ^ c \<le> rev_val v div 2 ^ (64 - c) + length ds\<rbrakk> \<Longrightarrow> \<exists>es. scan_run ds v = Some (0, es)"
proof (induction ds arbitrary: v)
  case (Cons d ds)
  have d: "dict_ok hash d" "dict_bits c d" using Cons.prems(1) by simp_all
  obtain v' es1 where s: "dictScan d v = Some (v', es1)"
      "v' = 0 \<or> rev_val v div 2 ^ (64 - c) < rev_val v' div 2 ^ (64 - c)"
    using dictScan_call [OF d Cons.prems(2), of v] by blast
  show ?case
  proof (cases "v' = 0")
    case False
    then have a: "2 ^ c \<le> rev_val v' div 2 ^ (64 - c) + length ds" using s(2) Cons.prems(4) by simp
    have "rev_val v' < 2 ^ c * 2 ^ (64 - c)"
      using rev_val_less [of v'] Cons.prems(2) by (simp flip: power_add)
    then have "rev_val v' div 2 ^ (64 - c) < 2 ^ c" by (rule less_mult_imp_div_less)
    then have "ds \<noteq> []" using a by auto
    then show ?thesis using Cons.IH [OF _ Cons.prems(2) _ a] Cons.prems(1) s(1) False by auto
  qed (use s in simp)
qed simp

section \<open>Properties\<close>

text \<open>A dictionary with one key, for the examples.\<close>

definition one_key :: "(nat, nat) dict" where
  "one_key = fst (dictAdd (\<lambda>k. of_nat k) True 0 dictCreate 1 10)"

lemma one_key_ok: "dict_ok (\<lambda>k. of_nat k) one_key" "dict_map one_key = [1 \<mapsto> 10]"
proof -
  have size: "dictSize dictCreate < 2 ^ 62" by (simp add: dictSize_def dictCreate_def dictReset_def)
  obtain d b where a: "dictAdd (\<lambda>k. of_nat k) True 0 dictCreate (1 :: nat) (10 :: nat) = (d, b)"
    by fastforce
  note c = dictAdd_correct [OF dictCreate_ok(1) size a]
  show "dict_ok (\<lambda>k. of_nat k) one_key" "dict_map one_key = [1 \<mapsto> 10]"
    using c a by (simp_all add: one_key_def dictCreate_ok(2))
qed

lemma one_key_bits: "2 \<le> c \<Longrightarrow> dict_bits c one_key"
proof -
  assume "2 \<le> c"
  then have "(2 :: nat) ^ 2 \<le> 2 ^ c" by (intro power_increasing) simp_all
  moreover have "ht_size (dict_ht0 one_key) = 4" "ht_size (dict_ht1 one_key) = 0"
    by (simp_all add: one_key_def dictAdd_def dictAddRaw_def dictCreate_def dictIsRehashing_def
        dictKeyIndex_def dictExpandIfNeeded_def dictExpand_def dictReset_def dictNextPower_def
        nextPowerLoop.simps DICT_HT_INITIAL_SIZE_def dict_search_def ht_search_def dict_ht_def
        set_ht_def dictSetVal_def ht_index_def Let_def)
  ultimately show ?thesis by (simp add: dict_bits_def)
qed

text \<open>
  C2: the guarantee of \<open>SCAN\<close>. Let the dictionary be in any well-formed states, one per call
  (between the calls it may have been resized up or down, rehashed in part, and changed). A key
  that is in the dictionary at every call is returned by an iteration that ends with cursor 0.
\<close>
theorem dictScan_complete:
  assumes "\<forall>d\<in>set ds. dict_ok hash d \<and> dict_bits 63 d \<and> k \<in> dom (dict_map d)"
    and "scan_run ds 0 = Some (0, es)" "ds \<noteq> []"
  shows "k \<in> fst ` set es"
proof (rule scan_run_covers [OF assms(1) _ assms(2,3)])
  have "rev_val 0 = 0" using rev_val_0 by simp
  then show "rev_val 0 \<le> rev_val (hash k)" by simp
qed

theorem dictScan_complete_witness:
  "\<exists>es. scan_run (replicate 4 one_key) 0 = Some (0, es) \<and> 1 \<in> fst ` set es"
proof -
  obtain es where es: "scan_run (replicate 4 one_key) 0 = Some (0, es)"
    using scan_run_ends [of "replicate 4 one_key" "\<lambda>k. of_nat k" 2 0]
    by (auto simp: one_key_ok one_key_bits)
  have "1 \<in> fst ` set es"
    by (rule dictScan_complete [of "replicate 4 one_key" "\<lambda>k. of_nat k"])
       (use es in \<open>simp_all add: one_key_ok one_key_bits\<close>)
  then show ?thesis using es by blast
qed

text \<open>
  C19: the iteration ends: if no table has more than \<open>2^c\<close> buckets, \<open>2^c\<close> calls bring the
  cursor back to 0 (the loop over the expansions of each cursor included).
\<close>
theorem dictScan_terminates:
  assumes "\<forall>d\<in>set ds. dict_ok hash d \<and> dict_bits c d" "c \<le> 63" "length ds = 2 ^ c"
  shows "\<exists>es. scan_run ds 0 = Some (0, es)"
proof (rule scan_run_ends [OF assms(1,2)])
  show "ds \<noteq> []" using assms(3) by auto
qed (use assms(3) in simp)

theorem dictScan_terminates_witness:
  "\<exists>es. scan_run (replicate 4 one_key) 0 = Some (0, es)"
  by (rule dictScan_terminates [of _ "\<lambda>k. of_nat k" 2]) (simp_all add: one_key_ok one_key_bits)

end
