(* ===== verification/Lzf.thy ===== *)
theory Lzf
  imports RedisPrelude
begin

text \<open>
  The LZF codec that compresses RDB strings and quicklist nodes: \<open>lzf_compress\<close> of
  \<open>src/lzf_c.c\<close> and \<open>lzf_decompress\<close> of \<open>src/lzf_d.c\<close>, in the configuration of
  \<open>src/lzfP.h\<close> (\<open>HLOG\<close> 16, \<open>VERY_FAST\<close>, no \<open>INIT_HTAB\<close>, \<open>CHECK_INPUT\<close>). Pointers are
  offsets into the input and output buffers; the hash table is not initialised by the code, so
  its initial contents are an argument.
\<close>

section \<open>Compression\<close>

definition MAX_LIT :: nat where "MAX_LIT = 32"
definition MAX_OFF :: int where "MAX_OFF = 8192"
definition MAX_REF :: nat where "MAX_REF = 264"

record lzf_state =
  lz_ip :: nat
  lz_op :: nat
  lz_lit :: nat
  lz_hval :: u32
  lz_htab :: "nat \<Rightarrow> u32"
  lz_out :: bytes

text \<open>\<open>FRST\<close> reads two bytes; of a one-byte input the second lies past its end (\<open>past\<close>).\<close>

definition FRST :: "u8 \<Rightarrow> bytes \<Rightarrow> nat \<Rightarrow> u32" where
  "FRST past inp p =
     push_bit 8 (ucast (inp ! p)) OR ucast (if p + 1 < length inp then inp ! (p + 1) else past)"

definition NEXT :: "u32 \<Rightarrow> bytes \<Rightarrow> nat \<Rightarrow> u32" where
  "NEXT v inp p = push_bit 8 v OR ucast (inp ! (p + 2))"

definition IDX :: "u32 \<Rightarrow> nat" where
  "IDX h = unat ((drop_bit 8 h - h * 5) AND 65535)"

text \<open>The search for the end of a match: up to sixteen unrolled comparisons, then a loop.\<close>

fun lzf_unrolled :: "bytes \<Rightarrow> nat \<Rightarrow> nat \<Rightarrow> nat \<Rightarrow> nat \<Rightarrow> nat \<times> bool" where
  "lzf_unrolled inp ref ip 0 len = (len, False)"
| "lzf_unrolled inp ref ip (Suc k) len =
     (let len = len + 1
      in if inp ! (ref + len) \<noteq> inp ! (ip + len) then (len, True)
         else lzf_unrolled inp ref ip k len)"

function lzf_rest :: "bytes \<Rightarrow> nat \<Rightarrow> nat \<Rightarrow> nat \<Rightarrow> nat \<Rightarrow> nat" where
  "lzf_rest inp ref ip maxlen len =
     (let len = len + 1
      in if len < maxlen \<and> inp ! (ref + len) = inp ! (ip + len)
         then lzf_rest inp ref ip maxlen len else len)"
  by pat_completeness auto
termination
  by (relation "measure (\<lambda>(inp, ref, ip, maxlen, len). maxlen - len)") auto

declare lzf_rest.simps [simp del]

definition lzf_match_len :: "bytes \<Rightarrow> nat \<Rightarrow> nat \<Rightarrow> nat \<Rightarrow> nat" where
  "lzf_match_len inp ref ip maxlen =
     (let (len, brk) = (if maxlen > 16 then lzf_unrolled inp ref ip 16 2 else (2, False))
      in if brk then len else lzf_rest inp ref ip maxlen len)"

text \<open>\<open>op[-lit-1] = lit-1\<close>.\<close>

definition stop_run :: "nat \<Rightarrow> nat \<Rightarrow> bytes \<Rightarrow> bytes" where
  "stop_run op lit out = out[op - lit - 1 := word_of_int (int lit - 1)]"

text \<open>
  One more literal byte (shared by the main loop and the final loop): the byte is copied, and a
  full run is closed and a new one started.
\<close>

definition lzf_literal :: "bytes \<Rightarrow> lzf_state \<Rightarrow> lzf_state" where
  "lzf_literal inp s =
     (let lit = lz_lit s + 1;
          out = (lz_out s)[lz_op s := inp ! lz_ip s];
          op = lz_op s + 1; ip = lz_ip s + 1
      in if lit = MAX_LIT then
           s\<lparr>lz_ip := ip, lz_op := op + 1, lz_lit := 0, lz_out := stop_run op lit out\<rparr>
         else s\<lparr>lz_ip := ip, lz_op := op, lz_lit := lit, lz_out := out\<rparr>)"

text \<open>
  A match at \<open>ref\<close> with distance \<open>off + 1\<close>: the run is stopped, the reference is written, a new
  run is started and the match is skipped. \<open>None\<close> is the early \<open>return 0\<close>.
\<close>

definition lzf_emit :: "bytes \<Rightarrow> nat \<Rightarrow> nat \<Rightarrow> lzf_state \<Rightarrow> lzf_state option" where
  "lzf_emit inp ref off s =
     (let ip = lz_ip s; op = lz_op s; lit = lz_lit s;
          maxlen = length inp - ip - 2;
          maxlen = (if maxlen > MAX_REF then MAX_REF else maxlen);
          out_end = length (lz_out s)
      in if op + 3 + 1 \<ge> out_end \<and> op - of_bool (lit = 0) + 3 + 1 \<ge> out_end then None
         else
           let out = stop_run op lit (lz_out s);
               op = op - of_bool (lit = 0);
               len = lzf_match_len inp ref ip maxlen;
               len = len - 2;
               ip = ip + 1;
               (op, out) =
                 (if len < 7 then (op + 1, out[op := of_nat (off div 256 + len * 32)])
                  else (op + 2, out[op := of_nat (off div 256 + 7 * 32),
                                    op + 1 := of_nat (len - 7)]));
               out = out[op := of_nat off];
               op = op + 1
           in Some (s\<lparr>lz_ip := ip + (len + 1), lz_op := op + 1, lz_lit := 0, lz_out := out\<rparr>))"

text \<open>The last two positions of the match are entered in the hash table.\<close>

definition lzf_rehash :: "u8 \<Rightarrow> bytes \<Rightarrow> lzf_state \<Rightarrow> lzf_state" where
  "lzf_rehash past inp s =
     (let ip = lz_ip s - 2;
          hval = FRST past inp ip;
          hval = NEXT hval inp ip;
          htab = (lz_htab s)(IDX hval := of_nat ip);
          ip = ip + 1;
          hval = NEXT hval inp ip;
          htab = htab(IDX hval := of_nat ip);
          ip = ip + 1
      in s\<lparr>lz_ip := ip, lz_hval := hval, lz_htab := htab\<rparr>)"

text \<open>The flag tells that the main loop is left.\<close>

definition lzf_backref :: "u8 \<Rightarrow> bytes \<Rightarrow> nat \<Rightarrow> nat \<Rightarrow> lzf_state \<Rightarrow> (lzf_state \<times> bool) option" where
  "lzf_backref past inp ref off s =
     (case lzf_emit inp ref off s of
        None \<Rightarrow> None
      | Some s \<Rightarrow>
          if lz_ip s + 2 \<ge> length inp then Some (s, True)
          else Some (lzf_rehash past inp s, False))"

text \<open>
  The test for a match. The distance is an \<open>unsigned long\<close>: a reference at or beyond \<open>ip\<close>
  wraps to a huge value and fails the comparison.
\<close>

definition lzf_is_match :: "bytes \<Rightarrow> nat \<Rightarrow> nat \<Rightarrow> bool" where
  "lzf_is_match inp ref ip \<longleftrightarrow>
     (int ip - int ref - 1) mod 2 ^ 64 < MAX_OFF \<and> ref > 0 \<and>
     inp ! (ref + 2) = inp ! (ip + 2) \<and>
     inp ! (ref + 1) = inp ! (ip + 1) \<and> inp ! ref = inp ! ip"

definition lzf_step :: "u8 \<Rightarrow> bytes \<Rightarrow> lzf_state \<Rightarrow> (lzf_state \<times> bool) option" where
  "lzf_step past inp s =
     (let ip = lz_ip s;
          hval = NEXT (lz_hval s) inp ip;
          ref = unat (lz_htab s (IDX hval));
          s = s\<lparr>lz_hval := hval, lz_htab := (lz_htab s)(IDX hval := of_nat ip)\<rparr>
      in if lzf_is_match inp ref ip then lzf_backref past inp ref (ip - ref - 1) s
         else if lz_op s \<ge> length (lz_out s) then None
         else Some (lzf_literal inp s, False))"

lemma lzf_emit_progress: "lzf_emit inp ref off s = Some s' \<Longrightarrow> lz_ip s + 2 \<le> lz_ip s'"
  by (auto simp: lzf_emit_def Let_def split: if_splits)

lemma lzf_rehash_frame:
  "2 \<le> lz_ip s \<Longrightarrow> lz_ip (lzf_rehash past inp s) = lz_ip s"
  "lz_op (lzf_rehash past inp s) = lz_op s"
  "lz_lit (lzf_rehash past inp s) = lz_lit s"
  "lz_out (lzf_rehash past inp s) = lz_out s"
  by (simp_all add: lzf_rehash_def Let_def)

lemma lzf_backref_progress:
  "lzf_backref past inp ref off s = Some (s', brk) \<Longrightarrow> lz_ip s < lz_ip s'"
  by (auto simp: lzf_backref_def lzf_rehash_frame split: if_splits option.splits
      dest!: lzf_emit_progress)

lemma lzf_literal_ip [simp]: "lz_ip (lzf_literal inp s) = lz_ip s + 1"
  by (simp add: lzf_literal_def Let_def)

lemma lzf_step_progress: "lzf_step past inp s = Some (s', brk) \<Longrightarrow> lz_ip s < lz_ip s'"
  by (auto simp: lzf_step_def Let_def split: if_splits dest: lzf_backref_progress)

text \<open>The main loop: \<open>None\<close> is the early \<open>return 0\<close>. Every iteration consumes input.\<close>

function lzf_main :: "u8 \<Rightarrow> bytes \<Rightarrow> lzf_state \<Rightarrow> lzf_state option" where
  "lzf_main past inp s =
     (if lz_ip s + 2 < length inp then
        (case lzf_step past inp s of
           None \<Rightarrow> None
         | Some (s', brk) \<Rightarrow> if brk then Some s' else lzf_main past inp s')
      else Some s)"
  by pat_completeness auto
termination
  by (relation "measure (\<lambda>(past, inp, s). length inp - lz_ip s)")
     (auto dest: lzf_step_progress)

declare lzf_main.simps [simp del]

fun lzf_tail :: "nat \<Rightarrow> bytes \<Rightarrow> lzf_state \<Rightarrow> lzf_state" where
  "lzf_tail 0 inp s = s"
| "lzf_tail (Suc n) inp s = lzf_tail n inp (lzf_literal inp s)"

text \<open>
  The result is the number of bytes written and the output buffer. The final loop runs
  \<open>in_end - ip\<close> times.
\<close>

definition lzf_compress :: "(nat \<Rightarrow> u32) \<Rightarrow> u8 \<Rightarrow> bytes \<Rightarrow> bytes \<Rightarrow> nat \<times> bytes" where
  "lzf_compress htab past inp out =
     (if length inp = 0 \<or> length out = 0 then (0, out)
      else
        case lzf_main past inp
               \<lparr>lz_ip = 0, lz_op = 1, lz_lit = 0, lz_hval = FRST past inp 0,
                lz_htab = htab, lz_out = out\<rparr> of
          None \<Rightarrow> (0, out)
        | Some s \<Rightarrow>
            if lz_op s + 3 > length (lz_out s) then (0, lz_out s)
            else let s = lzf_tail (length inp - lz_ip s) inp s;
                     out = stop_run (lz_op s) (lz_lit s) (lz_out s);
                     op = lz_op s - of_bool (lz_lit s = 0)
                 in (op, out))"

section \<open>Decompression\<close>

datatype lzf_error = E2BIG | EINVAL | READ_PAST_END

text \<open>
  Copying a back reference. The output is the list of the bytes written so far, so \<open>op\<close> is its
  length; \<open>lzf_copy\<close> is the octet by octet copy, which may read bytes it has just written.
\<close>

fun lzf_copy :: "nat \<Rightarrow> nat \<Rightarrow> bytes \<Rightarrow> bytes" where
  "lzf_copy 0 ref out = out"
| "lzf_copy (Suc n) ref out = lzf_copy n (Suc ref) (out @ [out ! ref])"

definition lzf_copy_ref :: "nat \<Rightarrow> nat \<Rightarrow> bytes \<Rightarrow> bytes" where
  "lzf_copy_ref len ref out =
     (if len \<ge> 10 then
        let len = len + 2
        in if length out \<ge> ref + len then out @ take len (drop ref out)
           else lzf_copy len ref out
      else lzf_copy (len + 2) ref out)"

text \<open>The bytes of one control sequence: what is written and the input that remains.\<close>

definition lzf_run :: "nat \<Rightarrow> nat \<Rightarrow> bytes \<Rightarrow> bytes \<Rightarrow> lzf_error + (bytes \<times> bytes)" where
  "lzf_run out_len ctrl ip out =
     (let ctrl = ctrl + 1
      in if length out + ctrl > out_len then Inl E2BIG
         else if ctrl > length ip then Inl EINVAL
         else Inr (drop ctrl ip, out @ take ctrl ip))"

definition lzf_ref :: "nat \<Rightarrow> nat \<Rightarrow> bytes \<Rightarrow> bytes \<Rightarrow> lzf_error + (bytes \<times> bytes)" where
  "lzf_ref out_len ctrl ip out =
     (let len = ctrl div 32;
          ref = int (length out) - int ((ctrl mod 32) * 256) - 1
      in case ip of
           [] \<Rightarrow> Inl EINVAL
         | b # ip' \<Rightarrow>
             let (len, ip) = (if len = 7 then (len + unat b, ip') else (len, ip))
             in case ip of
                  [] \<Rightarrow> Inl EINVAL
                | b # ip \<Rightarrow>
                    let ref = ref - int (unat b)
                    in if length out + len + 2 > out_len then Inl E2BIG
                       else if ref < 0 then Inl EINVAL
                       else Inr (ip, lzf_copy_ref len (nat ref) out))"

lemma lzf_run_shrinks: "lzf_run out_len ctrl ip out = Inr (ip', out') \<Longrightarrow> length ip' < length ip"
  by (auto simp: lzf_run_def Let_def split: if_splits)

lemma lzf_ref_shrinks: "lzf_ref out_len ctrl ip out = Inr (ip', out') \<Longrightarrow> length ip' < length ip"
  by (auto simp: lzf_ref_def Let_def split: if_splits list.splits)

function lzf_loop :: "nat \<Rightarrow> bytes \<Rightarrow> bytes \<Rightarrow> lzf_error + bytes" where
  "lzf_loop out_len [] out = Inr out"
| "lzf_loop out_len (c # ip) out =
     (case (if unat c < 32 then lzf_run out_len (unat c) ip out
            else lzf_ref out_len (unat c) ip out) of
        Inl e \<Rightarrow> Inl e
      | Inr (ip, out) \<Rightarrow> lzf_loop out_len ip out)"
  by pat_completeness auto
termination
proof (relation "measure (\<lambda>(n, ip, out). length ip)", goal_cases)
  case (2 out_len c ip out p ip' out')
  then have "length ip' < length ip"
    using lzf_run_shrinks lzf_ref_shrinks by (metis prod.collapse prod.sel)
  then show ?case by simp
qed simp

text \<open>The \<open>do ... while\<close> reads a control byte before it looks at the end of the input.\<close>

definition lzf_decompress :: "bytes \<Rightarrow> nat \<Rightarrow> lzf_error + bytes" where
  "lzf_decompress inp out_len = (if inp = [] then Inl READ_PAST_END else lzf_loop out_len inp [])"

section \<open>Decoding what was encoded\<close>

text \<open>\<open>decodes N P X\<close>: the control sequences \<open>P\<close> produce exactly the output \<open>X\<close>.\<close>

definition decodes :: "nat \<Rightarrow> bytes \<Rightarrow> bytes \<Rightarrow> bool" where
  "decodes N P X \<longleftrightarrow> (\<forall>rest. lzf_loop N (P @ rest) [] = lzf_loop N rest X)"

lemma decodes_Nil [simp]: "decodes N [] []"
  by (simp add: decodes_def)

lemma decodes_literals:
  assumes d: "decodes N P X" and k: "0 < length lits" "length lits \<le> 32"
    and N: "length X + length lits \<le> N"
  shows "decodes N (P @ word_of_int (int (length lits) - 1) # lits) (X @ lits)"
proof -
  obtain m where m: "length lits = Suc m" "m < 32" using k by (cases "length lits") auto
  have u: "unat (word_of_int (int (length lits) - 1) :: u8) = m"
    using m unat_of_nat_u8 [of m] by simp
  have "lzf_run N m (lits @ rest) X = Inr (rest, X @ lits)" for rest
    using m N by (simp add: lzf_run_def)
  then have "lzf_loop N (word_of_int (int (length lits) - 1) # lits @ rest) X =
      lzf_loop N rest (X @ lits)" for rest
    using u m by simp
  then show ?thesis using d by (simp add: decodes_def)
qed

lemma lzf_copy_take:
  "\<lbrakk>r < p; p + n \<le> length inp; \<forall>j<n. inp ! (r + j) = inp ! (p + j)\<rbrakk> \<Longrightarrow>
   lzf_copy n r (take p inp) = take (p + n) inp"
proof (induction n arbitrary: r p)
  case (Suc n)
  have "take p inp @ [take p inp ! r] = take (Suc p) inp"
    using Suc.prems(1,2) Suc.prems(3) [rule_format, of 0] by (simp add: take_Suc_conv_app_nth)
  moreover have "\<forall>j<n. inp ! (Suc r + j) = inp ! (Suc p + j)"
    using Suc.prems(3) by (metis add_Suc add_Suc_right Suc_less_eq)
  ultimately show ?case using Suc.IH [of "Suc r" "Suc p"] Suc.prems(1,2) by simp
qed simp

lemma lzf_copy_disjoint:
  "ref + n \<le> length out \<Longrightarrow> lzf_copy n ref out = out @ take n (drop ref out)"
proof (induction n arbitrary: ref out)
  case (Suc n)
  have "lzf_copy n (Suc ref) (out @ [out ! ref]) = (out @ [out ! ref]) @ take n (drop (Suc ref) out)"
    using Suc.IH [of "Suc ref" "out @ [out ! ref]"] Suc.prems by simp
  moreover have "drop ref out = out ! ref # drop (Suc ref) out"
    using Suc.prems by (simp add: Cons_nth_drop_Suc)
  ultimately show ?case by simp
qed simp

lemma lzf_copy_ref_eq: "lzf_copy_ref len ref out = lzf_copy (len + 2) ref out"
  by (simp add: lzf_copy_ref_def Let_def lzf_copy_disjoint del: lzf_copy.simps)


text \<open>The two encodings of a back reference.\<close>

definition ref_bytes :: "nat \<Rightarrow> nat \<Rightarrow> bytes" where
  "ref_bytes off len =
     (if len < 7 then [of_nat (off div 256 + len * 32), of_nat off]
      else [of_nat (off div 256 + 7 * 32), of_nat (len - 7), of_nat off])"

lemma lzf_loop_ref:
  assumes off: "off < 8192" "off < length X" and len: "1 \<le> len" "len \<le> 262"
    and N: "length X + len + 2 \<le> N"
  shows "lzf_loop N (ref_bytes off len @ rest) X =
    lzf_loop N rest (lzf_copy (len + 2) (length X - off - 1) X)"
proof -
  define h where "h = off div 256"
  define l where "l = off mod 256"
  have hl: "off = h * 256 + l" "l < 256" "h < 32" using off by (auto simp: h_def l_def)
  have low: "unat (of_nat off :: u8) = l" by (simp add: unat_of_nat take_bit_eq_mod l_def)
  have lowi: "uint (of_nat off :: u8) = int l" by (metis low of_nat_unat)
  have ref: "int (length X) - int (h * 256) - 1 - int l = int (length X - off - 1)"
    using hl off(2) by simp
  show ?thesis
  proof (cases "len < 7")
    case True
    have c: "unat (of_nat (h + len * 32) :: u8) = h + len * 32"
      using True hl(3) by (intro unat_of_nat_u8) simp
    have "(h + len * 32) div 32 = len" "(h + len * 32) mod 32 = h"
      using hl(3) by (simp_all only: div_mult_self1 mod_mult_self1 div_less mod_less)
    then have "lzf_ref N (h + len * 32) (of_nat off # rest) X =
        Inr (rest, lzf_copy_ref len (length X - off - 1) X)"
      using True N lowi ref by (simp add: lzf_ref_def Let_def del: of_nat_add of_nat_mult)
    moreover have "\<not> h + len * 32 < 32" using len by simp
    ultimately show ?thesis
      using True c by (simp add: ref_bytes_def h_def [symmetric] lzf_copy_ref_eq
          del: of_nat_add of_nat_mult lzf_copy.simps)
  next
    case False
    have c: "unat (of_nat (h + 224) :: u8) = h + 224"
      using hl(3) by (intro unat_of_nat_u8) simp
    have e: "unat (of_nat (len - 7) :: u8) = len - 7"
      using len(2) by (intro unat_of_nat_u8) simp
    have "(h + 7 * 32) div 32 = 7" "(h + 7 * 32) mod 32 = h"
      using hl(3) by (simp_all only: div_mult_self1 mod_mult_self1 div_less mod_less)
    then have "(h + 224) div 32 = 7" "(h + 224) mod 32 = h" by simp_all
    then have "lzf_ref N (h + 224) (of_nat (len - 7) # of_nat off # rest) X =
        Inr (rest, lzf_copy_ref len (length X - off - 1) X)"
      using False N lowi ref e by (simp add: lzf_ref_def Let_def del: of_nat_add of_nat_mult of_nat_diff)
    then show ?thesis
      using False c by (simp add: ref_bytes_def h_def [symmetric] lzf_copy_ref_eq
          del: of_nat_add of_nat_mult of_nat_diff lzf_copy.simps)
  qed
qed

lemma decodes_ref:
  assumes d: "decodes N P (take p inp)" and r: "r < p" "p - r - 1 < 8192"
    and n: "3 \<le> n" "n \<le> 264" "p + n \<le> length inp" "\<forall>j<n. inp ! (r + j) = inp ! (p + j)"
    and N: "length inp \<le> N"
  shows "decodes N (P @ ref_bytes (p - r - 1) (n - 2)) (take (p + n) inp)"
proof -
  have len: "length (take p inp) = p" using n(3) by simp
  have "lzf_loop N (ref_bytes (p - r - 1) (n - 2) @ rest) (take p inp) =
      lzf_loop N rest (lzf_copy (n - 2 + 2) (length (take p inp) - (p - r - 1) - 1) (take p inp))"
    for rest
    using r n N by (intro lzf_loop_ref) (simp_all add: len)
  moreover have "n - 2 + 2 = n" "length (take p inp) - (p - r - 1) - 1 = r"
    using r n len by simp_all
  ultimately show ?thesis
    using d lzf_copy_take [OF r(1) n(3,4)] by (simp add: decodes_def del: lzf_copy.simps)
qed

section \<open>The length of a match\<close>

lemma lzf_unrolled_correct:
  "\<lbrakk>lzf_unrolled inp r p k len = (n, brk); \<forall>j\<le>len. inp ! (r + j) = inp ! (p + j)\<rbrakk> \<Longrightarrow>
   if brk then len < n \<and> n \<le> len + k \<and> (\<forall>j<n. inp ! (r + j) = inp ! (p + j))
   else n = len + k \<and> (\<forall>j\<le>n. inp ! (r + j) = inp ! (p + j))"
proof (induction inp r p k len rule: lzf_unrolled.induct)
  case (2 inp r p k len)
  show ?case
  proof (cases "inp ! (r + (len + 1)) = inp ! (p + (len + 1))")
    case True
    then have "\<forall>j\<le>len + 1. inp ! (r + j) = inp ! (p + j)"
      using "2.prems"(2) by (metis Suc_eq_plus1 le_Suc_eq)
    then show ?thesis using "2.IH" [OF refl] "2.prems"(1) True by (auto simp: Let_def split: if_splits)
  next
    case False
    then show ?thesis using "2.prems" by (auto simp: Let_def)
  qed
qed simp

lemma lzf_rest_correct:
  "\<lbrakk>n = lzf_rest inp r p maxlen len; \<forall>j\<le>len. inp ! (r + j) = inp ! (p + j)\<rbrakk> \<Longrightarrow>
   len < n \<and> n \<le> max (len + 1) maxlen \<and> (\<forall>j<n. inp ! (r + j) = inp ! (p + j))"
proof (induction inp r p maxlen len rule: lzf_rest.induct)
  case (1 inp r p maxlen len)
  show ?case
  proof (cases "len + 1 < maxlen \<and> inp ! (r + (len + 1)) = inp ! (p + (len + 1))")
    case True
    then have "\<forall>j\<le>len + 1. inp ! (r + j) = inp ! (p + j)"
      using "1.prems"(2) by (metis Suc_eq_plus1 le_Suc_eq)
    moreover have "n = lzf_rest inp r p maxlen (len + 1)"
      using "1.prems"(1) True by (subst (asm) lzf_rest.simps) (simp add: Let_def)
    ultimately show ?thesis using "1.IH" [OF refl True] True by auto
  next
    case False
    then have "n = len + 1"
      using "1.prems"(1) by (subst (asm) lzf_rest.simps) (auto simp: Let_def)
    then show ?thesis using "1.prems"(2) by auto
  qed
qed

lemma lzf_match_len_correct:
  assumes "r < p" "p + 2 < length inp"
    and eq: "inp ! r = inp ! p" "inp ! (r + 1) = inp ! (p + 1)" "inp ! (r + 2) = inp ! (p + 2)"
    and maxlen: "maxlen = (if length inp - p - 2 > 264 then 264 else length inp - p - 2)"
    and n: "n = lzf_match_len inp r p maxlen"
  shows "3 \<le> n \<and> n \<le> 264 \<and> p + n \<le> length inp \<and> (\<forall>j<n. inp ! (r + j) = inp ! (p + j))"
proof -
  have start: "\<forall>j\<le>2. inp ! (r + j) = inp ! (p + j)"
    using eq by (auto simp: le_Suc_eq numeral_2_eq_2)
  show ?thesis
  proof (cases "maxlen > 16")
    case True
    obtain len brk where u: "lzf_unrolled inp r p 16 2 = (len, brk)" by fastforce
    note lzf_unrolled_correct [OF u start]
    moreover have "n = (if brk then len else lzf_rest inp r p maxlen len)"
      using n True u by (simp add: lzf_match_len_def)
    ultimately show ?thesis
      using lzf_rest_correct [of n inp r p maxlen len] True maxlen
      by (auto split: if_splits)
  next
    case False
    then have "n = lzf_rest inp r p maxlen 2" using n by (simp add: lzf_match_len_def)
    with lzf_rest_correct [OF this start] False maxlen assms(2) show ?thesis
      by (auto split: if_splits)
  qed
qed

section \<open>The invariant of the compressor\<close>

text \<open>
  Before the current run starts, at \<open>op - lit - 1\<close>, the output decodes to the input consumed so
  far without the pending literals; the pending literals lie behind the run's control byte.
\<close>

definition lzf_inv :: "nat \<Rightarrow> bytes \<Rightarrow> lzf_state \<Rightarrow> bool" where
  "lzf_inv N inp s \<longleftrightarrow>
     lz_lit s < lz_op s \<and> lz_lit s \<le> 32 \<and> lz_lit s \<le> lz_ip s \<and> lz_ip s \<le> length inp \<and>
     lz_op s \<le> length (lz_out s) + of_bool (lz_lit s = 0) \<and>
     decodes N (take (lz_op s - lz_lit s - 1) (lz_out s)) (take (lz_ip s - lz_lit s) inp) \<and>
     take (lz_lit s) (drop (lz_op s - lz_lit s) (lz_out s)) =
       take (lz_lit s) (drop (lz_ip s - lz_lit s) inp)"

lemma take_upd_split:
  "st + n < length out \<Longrightarrow>
   take (Suc (st + n)) (out[st := c]) = take st out @ c # take n (drop (Suc st) out)"
  by (simp add: upd_conv_take_nth_drop min_def)

text \<open>Stopping the run (and undoing an empty one) completes the output for the input so far.\<close>

lemma stop_run_decodes:
  assumes inv: "lzf_inv N inp s" and N: "length inp \<le> N"
  shows "decodes N (take (lz_op s - of_bool (lz_lit s = 0))
      (stop_run (lz_op s) (lz_lit s) (lz_out s))) (take (lz_ip s) inp)"
proof (cases "lz_lit s = 0")
  case True
  then show ?thesis using inv by (simp add: lzf_inv_def stop_run_def)
next
  case False
  let ?op = "lz_op s" and ?lit = "lz_lit s" and ?out = "lz_out s" and ?ip = "lz_ip s"
  let ?st = "?op - ?lit - 1"
  let ?lits = "take ?lit (drop (?ip - ?lit) inp)"
  have b: "?op \<le> length ?out" "?lit < ?op" "?lit \<le> ?ip" "?ip \<le> length inp" "?lit \<le> 32"
    using inv False by (simp_all add: lzf_inv_def)
  have st: "?st < length ?out" "Suc ?st = ?op - ?lit" using b by linarith+
  have len: "length ?lits = ?lit" using b by simp
  have "?op = Suc (?st + ?lit)" "?st + ?lit < length ?out" using b by linarith+
  then have "take ?op (?out[?st := c]) = take ?st ?out @ c # take ?lit (drop (Suc ?st) ?out)" for c
    using take_upd_split [of ?st ?lit ?out c] by simp
  then have "take ?op (stop_run ?op ?lit ?out) =
      take ?st ?out @ word_of_int (int (length ?lits) - 1) # ?lits"
    using inv st(2) len by (simp add: stop_run_def lzf_inv_def)
  moreover have "take (?ip - ?lit) inp @ ?lits = take ?ip inp"
    using b by (metis le_add_diff_inverse2 take_add)
  ultimately show ?thesis
    using decodes_literals [of N "take ?st ?out" "take (?ip - ?lit) inp" ?lits] inv len b False N
    by (simp add: lzf_inv_def)
qed

lemma stop_run_length [simp]: "length (stop_run op lit out) = length out"
  by (simp add: stop_run_def)

lemma push_literal_inv:
  assumes inv: "lzf_inv N inp s" and lit: "lz_lit s < 32"
    and room: "lz_op s < length (lz_out s)" and ip: "lz_ip s < length inp"
  shows "lzf_inv N inp (s\<lparr>lz_ip := lz_ip s + 1, lz_op := lz_op s + 1, lz_lit := lz_lit s + 1,
    lz_out := (lz_out s)[lz_op s := inp ! lz_ip s]\<rparr>)"
proof -
  let ?op = "lz_op s" and ?lit = "lz_lit s" and ?out = "lz_out s" and ?ip = "lz_ip s"
  have b: "?lit < ?op" "?lit \<le> ?ip" using inv by (simp_all add: lzf_inv_def)
  have snoc: "take (Suc ?lit) (drop (q - ?lit) xs) = take ?lit (drop (q - ?lit) xs) @ [xs ! q]"
    if "?lit \<le> q" "q < length xs" for q and xs :: bytes
    using that by (simp add: take_Suc_conv_app_nth)
  have "take (Suc ?lit) (drop (?op - ?lit) (?out[?op := inp ! ?ip])) =
      take ?lit (drop (?op - ?lit) ?out) @ [inp ! ?ip]"
    using snoc [of ?op "?out[?op := inp ! ?ip]"] b room by (simp add: drop_update_swap)
  also have "\<dots> = take (Suc ?lit) (drop (?ip - ?lit) inp)"
    using snoc [of ?ip inp] b ip inv by (simp add: lzf_inv_def)
  finally show ?thesis
    using inv lit room ip b by (simp add: lzf_inv_def)
qed

lemma lzf_literal_inv:
  assumes inv: "lzf_inv N inp s" and lit: "lz_lit s < 32" and N: "length inp \<le> N"
    and room: "lz_op s < length (lz_out s)" and ip: "lz_ip s < length inp"
  shows "lzf_inv N inp (lzf_literal inp s) \<and> lz_lit (lzf_literal inp s) < 32 \<and>
    length (lz_out (lzf_literal inp s)) = length (lz_out s) \<and>
    lz_op (lzf_literal inp s) \<le> lz_op s + 1 + of_bool (lz_lit s = 31) \<and>
    lz_lit (lzf_literal inp s) = (if lz_lit s = 31 then 0 else lz_lit s + 1)"
proof -
  let ?s = "s\<lparr>lz_ip := lz_ip s + 1, lz_op := lz_op s + 1, lz_lit := lz_lit s + 1,
    lz_out := (lz_out s)[lz_op s := inp ! lz_ip s]\<rparr>"
  have push: "lzf_inv N inp ?s" by (rule push_literal_inv [OF inv lit room ip])
  show ?thesis
  proof (cases "lz_lit s + 1 = MAX_LIT")
    case False
    then show ?thesis using push lit by (simp add: lzf_literal_def MAX_LIT_def)
  next
    case True
    have "lzf_inv N inp (lzf_literal inp s)"
      using stop_run_decodes [OF push N] True room ip
      by (simp add: lzf_literal_def lzf_inv_def MAX_LIT_def)
    then show ?thesis using True by (simp add: lzf_literal_def MAX_LIT_def)
  qed
qed

lemma lzf_emit_inv:
  assumes inv: "lzf_inv N inp s" and N: "length inp \<le> N"
    and m: "r < lz_ip s" "lz_ip s - r - 1 < 8192" "lz_ip s + 2 < length inp"
      "inp ! r = inp ! lz_ip s" "inp ! (r + 1) = inp ! (lz_ip s + 1)"
      "inp ! (r + 2) = inp ! (lz_ip s + 2)"
    and some: "lzf_emit inp r (lz_ip s - r - 1) s = Some s'"
  shows "lzf_inv N inp s' \<and> lz_lit s' < 32 \<and> length (lz_out s') = length (lz_out s)"
proof -
  let ?ip = "lz_ip s" and ?off = "lz_ip s - r - 1"
  define op where "op = lz_op s - of_bool (lz_lit s = 0)"
  define out where "out = stop_run (lz_op s) (lz_lit s) (lz_out s)"
  define maxlen where "maxlen = (if length inp - ?ip - 2 > 264 then 264 else length inp - ?ip - 2)"
  define n where "n = lzf_match_len inp r ?ip maxlen"
  have n: "3 \<le> n" "n \<le> 264" "?ip + n \<le> length inp" "\<forall>j<n. inp ! (r + j) = inp ! (?ip + j)"
    using lzf_match_len_correct [OF m(1,3,4,5,6) maxlen_def n_def] by auto
  have d: "decodes N (take op out) (take ?ip inp)"
    using stop_run_decodes [OF inv N] by (simp add: op_def out_def)
  have guard: "\<not> (lz_op s + 3 + 1 \<ge> length (lz_out s) \<and> op + 3 + 1 \<ge> length (lz_out s))"
    using some by (auto simp: lzf_emit_def Let_def op_def split: if_splits)
  then have room: "op + 4 < length out" by (auto simp: op_def out_def)
  let ?enc = "ref_bytes ?off (n - 2)"
  define op' where "op' = op + length ?enc"
  define out' where "out' = (if n - 2 < 7 then
      out[op := of_nat (?off div 256 + (n - 2) * 32), op + 1 := of_nat ?off]
    else out[op := of_nat (?off div 256 + 7 * 32), op + 1 := of_nat (n - 2 - 7), op + 2 := of_nat ?off])"
  have enc: "take op' out' = take op out @ ?enc" "length out' = length out" "op' < length out"
  proof -
    show "length out' = length out" by (simp add: out'_def)
    show "op' < length out" using room by (simp add: op'_def ref_bytes_def)
    show "take op' out' = take op out @ ?enc"
      using room by (auto simp: op'_def out'_def ref_bytes_def take_Suc_conv_app_nth nth_list_update
          numeral_3_eq_3 numeral_2_eq_2)
  qed
  have dec: "decodes N (take op' out') (take (?ip + n) inp)"
    unfolding enc(1) using d m(1,2) n N by (rule decodes_ref)
  have ipn: "?ip + 1 + (n - 2 + 1) = ?ip + n" using n(1) by simp
  have "lzf_emit inp r ?off s =
      Some (s\<lparr>lz_ip := ?ip + n, lz_op := op' + 1, lz_lit := 0, lz_out := out'\<rparr>)"
    unfolding lzf_emit_def Let_def MAX_REF_def maxlen_def [symmetric] n_def [symmetric]
      op_def [symmetric] out_def [symmetric] ipn if_not_P [OF guard]
    by (simp add: op'_def out'_def ref_bytes_def)
  then have "s' = s\<lparr>lz_ip := ?ip + n, lz_op := op' + 1, lz_lit := 0, lz_out := out'\<rparr>"
    using some by simp
  then show ?thesis using dec enc n(3) by (simp add: lzf_inv_def out_def)
qed

lemma lzf_is_matchD:
  assumes "lzf_is_match inp (unat (slot :: u32)) ip" "ip < 2 ^ 32"
  shows "unat slot < ip" "ip - unat slot - 1 < 8192" "inp ! unat slot = inp ! ip"
    "inp ! (unat slot + 1) = inp ! (ip + 1)" "inp ! (unat slot + 2) = inp ! (ip + 2)"
proof -
  let ?r = "unat slot"
  have "unat slot < 2 ^ LENGTH(32)" by (rule unsigned_less)
  then have r32: "?r < 2 ^ 32" by simp
  have off: "(int ip - int ?r - 1) mod 2 ^ 64 < 8192"
    using assms(1) unfolding lzf_is_match_def MAX_OFF_def by blast
  show lt: "?r < ip"
  proof (rule ccontr)
    assume "\<not> ?r < ip"
    then have neg: "- (2 ^ 32) \<le> int ip - int ?r - 1" "int ip - int ?r - 1 < 0"
      using r32 by (simp_all del: of_nat_unat)
    have "x mod 2 ^ 64 = x + 2 ^ 64" if "- (2 ^ 32) \<le> x" "x < 0" for x :: int
    proof -
      have "x mod 2 ^ 64 = (x + 2 ^ 64) mod 2 ^ 64" by simp
      also have "\<dots> = x + 2 ^ 64" using that by (intro mod_pos_pos_trivial) simp_all
      finally show ?thesis .
    qed
    from this [OF neg] off neg show False by simp
  qed
  then have "int ip - int ?r - 1 = int (ip - ?r - 1)" by linarith
  moreover have "int (ip - ?r - 1) < 2 ^ 64" using assms(2) by simp
  ultimately have "(int ip - int ?r - 1) mod 2 ^ 64 = int (ip - ?r - 1)"
    by (metis mod_pos_pos_trivial of_nat_0_le_iff)
  then show "ip - ?r - 1 < 8192" using off by linarith
  show "inp ! ?r = inp ! ip" "inp ! (?r + 1) = inp ! (ip + 1)" "inp ! (?r + 2) = inp ! (ip + 2)"
    using assms(1) by (auto simp: lzf_is_match_def)
qed

lemma lzf_step_inv:
  assumes inv: "lzf_inv N inp s" and lit: "lz_lit s < 32" and N: "length inp \<le> N"
    and ip: "lz_ip s + 2 < length inp" "length inp < 2 ^ 32"
    and some: "lzf_step past inp s = Some (s', brk)"
  shows "lzf_inv N inp s' \<and> lz_lit s' < 32 \<and> length (lz_out s') = length (lz_out s) \<and>
    (brk \<longrightarrow> length inp \<le> lz_ip s' + 2)"
proof -
  define hval where "hval = NEXT (lz_hval s) inp (lz_ip s)"
  define slot where "slot = lz_htab s (IDX hval)"
  define s1 where "s1 = s\<lparr>lz_hval := hval, lz_htab := (lz_htab s)(IDX hval := of_nat (lz_ip s))\<rparr>"
  have inv1: "lzf_inv N inp s1" using inv by (simp add: lzf_inv_def s1_def)
  have f1: "lz_ip s1 = lz_ip s" "lz_op s1 = lz_op s" "lz_lit s1 = lz_lit s" "lz_out s1 = lz_out s"
    by (simp_all add: s1_def)
  have step: "lzf_step past inp s =
      (if lzf_is_match inp (unat slot) (lz_ip s)
       then lzf_backref past inp (unat slot) (lz_ip s - unat slot - 1) s1
       else if lz_op s1 \<ge> length (lz_out s1) then None else Some (lzf_literal inp s1, False))"
    by (simp add: lzf_step_def Let_def hval_def slot_def s1_def)
  show ?thesis
  proof (cases "lzf_is_match inp (unat slot) (lz_ip s)")
    case False
    then have "lz_op s1 < length (lz_out s1)" "s' = lzf_literal inp s1" "\<not> brk"
      using some step by (auto split: if_splits)
    then show ?thesis using lzf_literal_inv [OF inv1 _ N] lit ip f1 by simp
  next
    case True
    have "lz_ip s < 2 ^ 32" using ip by simp
    note m = lzf_is_matchD [OF True this]
    have some1: "lzf_backref past inp (unat slot) (lz_ip s1 - unat slot - 1) s1 = Some (s', brk)"
      using some step True f1 by simp
    then obtain s2 where s2: "lzf_emit inp (unat slot) (lz_ip s1 - unat slot - 1) s1 = Some s2"
      by (auto simp: lzf_backref_def split: option.splits)
    have e: "lzf_inv N inp s2" "lz_lit s2 < 32" "length (lz_out s2) = length (lz_out s1)"
      using lzf_emit_inv [OF inv1 N _ _ _ _ _ _ s2] m ip f1 by auto
    have "2 \<le> lz_ip s2" using lzf_emit_progress [OF s2] by simp
    note fr = lzf_rehash_frame(1) [OF this] lzf_rehash_frame(2-)
    show ?thesis using some1 s2 e fr f1
      by (auto simp: lzf_backref_def lzf_inv_def split: if_splits)
  qed
qed

lemma lzf_main_inv:
  "\<lbrakk>lzf_inv N inp s; lz_lit s < 32; length inp \<le> N; length inp < 2 ^ 32;
    lzf_main past inp s = Some s'\<rbrakk> \<Longrightarrow>
   lzf_inv N inp s' \<and> lz_lit s' < 32 \<and> length (lz_out s') = length (lz_out s) \<and>
   length inp \<le> lz_ip s' + 2"
proof (induction past inp s rule: lzf_main.induct)
  case (1 past inp s)
  show ?case
  proof (cases "lz_ip s + 2 < length inp")
    case False
    then show ?thesis using "1.prems" by (simp add: lzf_main.simps [of past inp s])
  next
    case True
    then obtain s1 brk where st: "lzf_step past inp s = Some (s1, brk)"
      using "1.prems"(5) by (auto simp: lzf_main.simps [of past inp s] split: option.splits)
    note inv = lzf_step_inv [OF "1.prems"(1,2,3) True "1.prems"(4) st]
    show ?thesis
    proof (cases brk)
      case True
      then show ?thesis using inv st "1.prems"(5) \<open>lz_ip s + 2 < length inp\<close>
        by (simp add: lzf_main.simps [of past inp s])
    next
      case False
      then have "lzf_main past inp s1 = Some s'"
        using st "1.prems"(5) True by (simp add: lzf_main.simps [of past inp s])
      then show ?thesis
        using "1.IH" [OF True st refl False] inv "1.prems"(3,4) by simp
    qed
  qed
qed

section \<open>A compressed example\<close>

lemmas lzf_eval = lzf_step_def IDX_def NEXT_def FRST_def lzf_is_match_def MAX_OFF_def Let_def
  lzf_literal_def MAX_LIT_def lzf_backref_def lzf_emit_def MAX_REF_def stop_run_def
  lzf_match_len_def

lemma lzf_main_cont:
  "lzf_step past inp s = Some (s', False) \<Longrightarrow> lz_ip s + 2 < length inp \<Longrightarrow>
   lzf_main past inp s = lzf_main past inp s'"
  by (simp add: lzf_main.simps [of past inp s])

lemma lzf_main_stop:
  "lzf_step past inp s = Some (s', True) \<Longrightarrow> lz_ip s + 2 < length inp \<Longrightarrow>
   lzf_main past inp s = Some s'"
  by (simp add: lzf_main.simps [of past inp s])

lemma lzf_example_1: "lzf_step 0 [7,7,7,7,7,7]
    \<lparr>lz_ip = 0, lz_op = 1, lz_lit = 0, lz_hval = FRST 0 [7,7,7,7,7,7] 0,
      lz_htab = \<lambda>_. 0, lz_out = [0,0,0,0,0,0,0,0,0,0,0,0]\<rparr> =
      Some (\<lparr>lz_ip = 1, lz_op = 2, lz_lit = 1, lz_hval = 0x70707,
      lz_htab = \<lambda>_. 0, lz_out = [0,7,0,0,0,0,0,0,0,0,0,0]\<rparr>, False)"
  by (simp add: lzf_eval fun_eq_iff)

lemma lzf_example_2: "lzf_step 0 [7,7,7,7,7,7]
    \<lparr>lz_ip = 1, lz_op = 2, lz_lit = 1, lz_hval = 0x70707,
      lz_htab = \<lambda>_. 0, lz_out = [0,7,0,0,0,0,0,0,0,0,0,0]\<rparr> =
      Some (\<lparr>lz_ip = 2, lz_op = 3, lz_lit = 2, lz_hval = 0x7070707,
      lz_htab = (\<lambda>_. 0)(IDX 0x7070707 := 1), lz_out = [0,7,7,0,0,0,0,0,0,0,0,0]\<rparr>, False)"
  by (simp add: lzf_eval)

lemma lzf_rest_2: "lzf_rest inp r p (Suc (Suc 0)) 2 = 3"
  by (subst lzf_rest.simps) simp

lemma lzf_example_3: "lzf_step 0 [7,7,7,7,7,7]
    \<lparr>lz_ip = 2, lz_op = 3, lz_lit = 2, lz_hval = 0x7070707,
      lz_htab = (\<lambda>_. 0)(IDX 0x7070707 := 1), lz_out = [0,7,7,0,0,0,0,0,0,0,0,0]\<rparr> =
      Some (\<lparr>lz_ip = 5, lz_op = 6, lz_lit = 0, lz_hval = 0x7070707,
      lz_htab = (\<lambda>_. 0)(IDX 0x7070707 := 2), lz_out = [1,7,7,32,0,0,0,0,0,0,0,0]\<rparr>, True)"
  by (simp add: lzf_eval lzf_rest_2)

lemma lzf_example_main: "lzf_main 0 [7,7,7,7,7,7]
    \<lparr>lz_ip = 0, lz_op = 1, lz_lit = 0, lz_hval = FRST 0 [7,7,7,7,7,7] 0,
      lz_htab = \<lambda>_. 0, lz_out = [0,0,0,0,0,0,0,0,0,0,0,0]\<rparr> =
      Some (\<lparr>lz_ip = 5, lz_op = 6, lz_lit = 0, lz_hval = 0x7070707,
        lz_htab = (\<lambda>_. 0)(IDX 0x7070707 := 2), lz_out = [1,7,7,32,0,0,0,0,0,0,0,0]\<rparr>)"
  by (rule trans [OF lzf_main_cont [OF lzf_example_1] trans [OF lzf_main_cont [OF lzf_example_2] lzf_main_stop [OF lzf_example_3]]])
      simp_all

lemma lzf_example:
  "lzf_compress (\<lambda>_. 0) 0 [7,7,7,7,7,7] [0,0,0,0,0,0,0,0,0,0,0,0] =
     (7, [1, 7, 7, 32, 0, 0, 7, 0, 0, 0, 0, 0])"
  by (simp add: lzf_example_main [simplified] lzf_compress_def lzf_literal_def MAX_LIT_def stop_run_def)

section \<open>Round trip\<close>

lemma lzf_literal_op: "lz_op (lzf_literal inp s) = lz_op s + (if lz_lit s = 31 then 2 else 1)"
  by (simp add: lzf_literal_def Let_def MAX_LIT_def)

lemma lzf_tail_inv:
  assumes inv: "lzf_inv N inp s" and lit: "lz_lit s < 32" and N: "length inp \<le> N"
    and ip: "lz_ip s + k = length inp" "k \<le> 2" and room: "lz_op s + 3 \<le> length (lz_out s)"
  shows "lzf_inv N inp (lzf_tail k inp s) \<and> lz_ip (lzf_tail k inp s) = length inp \<and>
    length (lz_out (lzf_tail k inp s)) = length (lz_out s)"
proof (cases k)
  case 0
  then show ?thesis using inv ip by simp
next
  case (Suc m)
  have 1: "lzf_inv N inp (lzf_literal inp s)" "lz_lit (lzf_literal inp s) < 32"
      "length (lz_out (lzf_literal inp s)) = length (lz_out s)"
    using lzf_literal_inv [OF inv lit N] ip Suc room by auto
  show ?thesis
  proof (cases m)
    case 0
    then show ?thesis using 1 Suc ip by simp
  next
    case m: (Suc m')
    then have k: "k = 2" using ip(2) Suc by simp
    have "lz_op (lzf_literal inp s) < length (lz_out (lzf_literal inp s))"
      using room 1(3) by (simp add: lzf_literal_op)
    then have "lzf_inv N inp (lzf_literal inp (lzf_literal inp s))"
      "length (lz_out (lzf_literal inp (lzf_literal inp s))) = length (lz_out s)"
      using lzf_literal_inv [OF 1(1,2) N] ip k 1(3) by auto
    then show ?thesis using k ip by (simp add: numeral_2_eq_2)
  qed
qed

lemma decodes_decompress:
  assumes "decodes N P X" "0 < length X"
  shows "lzf_decompress P N = Inr X"
proof -
  have "lzf_loop N (P @ []) [] = lzf_loop N [] X" using assms(1) unfolding decodes_def by blast
  then have "lzf_loop N P [] = Inr X" by simp
  moreover have "P \<noteq> []"
  proof
    assume "P = []"
    then have "X = []" using calculation by simp
    then show False using assms(2) by simp
  qed
  ultimately show ?thesis by (simp add: lzf_decompress_def)
qed

text \<open>
  C14: the round trip. Whatever the uninitialised hash table (and the byte behind a one-byte
  input) held, if \<open>lzf_compress\<close> reports a length \<open>n > 0\<close>, then \<open>n\<close> bytes fit in the output
  buffer and \<open>lzf_decompress\<close> of them, into any buffer at least as long as the input, gives
  back the input. The bound is the one of the 32-bit hash table entries.
\<close>
theorem lzf_roundtrip:
  assumes c: "lzf_compress htab past inp out = (n, out')" and n: "0 < n"
    and len: "length inp < 2 ^ 32" "length inp \<le> N"
  shows "n \<le> length out' \<and> length out' = length out \<and> lzf_decompress (take n out') N = Inr inp"
proof -
  define s0 where "s0 = \<lparr>lz_ip = 0, lz_op = 1, lz_lit = 0, lz_hval = FRST past inp 0,
                lz_htab = htab, lz_out = out\<rparr>"
  have ne: "0 < length inp" "0 < length out" using c n by (auto simp: lzf_compress_def)
  then obtain s where s: "lzf_main past inp s0 = Some s"
    and room: "lz_op s + 3 \<le> length (lz_out s)"
    and res: "(n, out') = (let s = lzf_tail (length inp - lz_ip s) inp s
       in (lz_op s - of_bool (lz_lit s = 0), stop_run (lz_op s) (lz_lit s) (lz_out s)))"
    using c n by (auto simp: lzf_compress_def s0_def Let_def split: option.splits if_splits)
  have "lzf_inv N inp s0" using ne by (simp add: lzf_inv_def s0_def)
  then have m: "lzf_inv N inp s" "lz_lit s < 32" "length (lz_out s) = length out"
      "length inp \<le> lz_ip s + 2"
    using lzf_main_inv [of N inp s0 past s] s len by (simp_all add: s0_def)
  define t where "t = lzf_tail (length inp - lz_ip s) inp s"
  have "lz_ip s \<le> length inp" using m(1) by (simp add: lzf_inv_def)
  then have t: "lzf_inv N inp t" "lz_ip t = length inp" "length (lz_out t) = length out"
    using lzf_tail_inv [OF m(1,2) len(2) _ _ room, of "length inp - lz_ip s"] m(3,4)
    by (auto simp: t_def)
  have n': "n = lz_op t - of_bool (lz_lit t = 0)" "out' = stop_run (lz_op t) (lz_lit t) (lz_out t)"
    using res by (simp_all add: t_def Let_def)
  have "lz_op t \<le> length (lz_out t) + of_bool (lz_lit t = 0)"
    using t(1) by (simp add: lzf_inv_def)
  then have "n \<le> length out'" "length out' = length out"
    using n' t(3) by (auto simp: stop_run_def)
  moreover have "lzf_decompress (take n out') N = Inr (take (length inp) inp)"
    using stop_run_decodes [OF t(1) len(2)] ne(1) n' t(2)
    by (intro decodes_decompress) simp_all
  ultimately show ?thesis by simp
qed

theorem lzf_roundtrip_witness:
  "lzf_decompress [1, 7, 7, 32, 0, 0, 7] 6 = Inr [7, 7, 7, 7, 7, 7]"
  using lzf_roundtrip [OF lzf_example, of 6] by simp




end
