(* ===== verification/Sds.thy ===== *)
theory Sds
  imports NumText
begin

text \<open>
  The text operations on dynamic strings of \<open>src/sds.c\<close>: decimal conversion, trimming, ranges,
  comparison, splitting and joining, the quoted representation and the parser of quoted
  argument lines. A string is the list of its bytes; reading the byte at its end gives the NUL
  that every \<open>sds\<close> carries. The memory layout is in the theory \<open>SdsBuf\<close>. Characters are
  compared as bytes; \<open>isspace\<close>, \<open>isprint\<close> and \<open>tolower\<close> are those of the C locale.
\<close>

section \<open>Decimal numerals\<close>

text \<open>The two pointers that swap the bytes of the buffer until they meet.\<close>

function reverse_loop :: "nat \<Rightarrow> nat \<Rightarrow> bytes \<Rightarrow> bytes" where
  "reverse_loop i j s =
     (if i < j then
        let aux = s ! i; s = s[i := s ! j]; s = s[j := aux]
        in reverse_loop (i + 1) (j - 1) s
      else s)"
  by pat_completeness auto
termination by (relation "measure (\<lambda>(i, j, s). j - i)") auto

declare reverse_loop.simps [simp del]

text \<open>The \<open>do ... while\<close> that writes the digits from the last to the first.\<close>

function digits_loop :: "nat \<Rightarrow> bytes \<Rightarrow> bytes" where
  "digits_loop v p =
     (let p = p @ [of_nat (48 + v mod 10)]; v = v div 10
      in if v \<noteq> 0 then digits_loop v p else p)"
  by pat_completeness auto
termination by (relation "measure (\<lambda>(v, p). v)") auto

declare digits_loop.simps [simp del]

text \<open>\<open>-value\<close> of the least \<open>long long\<close> wraps, as two's complement compilers do it.\<close>

definition sdsll2str :: "i64 \<Rightarrow> bytes" where
  "sdsll2str value =
     (let v = unat (if sint value < 0 then - value else value);
          p = digits_loop v [];
          p = (if sint value < 0 then p @ [45] else p)
      in reverse_loop 0 (length p - 1) p)"

definition sdsull2str :: "u64 \<Rightarrow> bytes" where
  "sdsull2str v = (let p = digits_loop (unat v) [] in reverse_loop 0 (length p - 1) p)"

definition sdsfromlonglong :: "i64 \<Rightarrow> bytes" where
  "sdsfromlonglong value = sdsll2str value"

section \<open>Trimming, ranges, case, comparison\<close>

text \<open>\<open>strchr\<close> also finds the NUL that ends the set.\<close>

definition in_cset :: "bytes \<Rightarrow> u8 \<Rightarrow> bool" where
  "in_cset cset c \<longleftrightarrow> c = 0 \<or> c \<in> set (takeWhile (\<lambda>c. c \<noteq> 0) cset)"

function trim_right :: "(u8 \<Rightarrow> bool) \<Rightarrow> bytes \<Rightarrow> int \<Rightarrow> int \<Rightarrow> int" where
  "trim_right P s sp ep =
     (if ep > sp \<and> P (s ! nat ep) then trim_right P s sp (ep - 1) else ep)"
  by pat_completeness auto
termination by (relation "measure (\<lambda>(P, s, sp, ep). nat (ep - sp))") auto

declare trim_right.simps [simp del]

definition sdstrim :: "bytes \<Rightarrow> bytes \<Rightarrow> bytes" where
  "sdstrim s cset =
     (let sp = length (takeWhile (in_cset cset) s);
          ep = trim_right (in_cset cset) s (int sp) (int (length s) - 1);
          len = (if int sp > ep then 0 else nat (ep - int sp) + 1)
      in take len (drop sp s))"

definition sdsrange :: "bytes \<Rightarrow> int \<Rightarrow> int \<Rightarrow> bytes" where
  "sdsrange s start end' =
     (let len = int (length s)
      in if len = 0 then s
         else
           let start = (if start < 0 then (if len + start < 0 then 0 else len + start) else start);
               end' = (if end' < 0 then (if len + end' < 0 then 0 else len + end') else end');
               newlen = (if start > end' then 0 else (end' - start) + 1);
               (start, newlen) =
                 (if newlen \<noteq> 0 then
                    (if start \<ge> len then (start, 0)
                     else if end' \<ge> len then
                       let end' = len - 1
                       in (start, if start > end' then 0 else (end' - start) + 1)
                     else (start, newlen))
                  else (0, newlen))
           in take (nat newlen) (drop (nat start) s))"

definition sdstolower :: "bytes \<Rightarrow> bytes" where
  "sdstolower s = map (\<lambda>c. if 65 \<le> unat c \<and> unat c \<le> 90 then c + 32 else c) s"

definition sdstoupper :: "bytes \<Rightarrow> bytes" where
  "sdstoupper s = map (\<lambda>c. if 97 \<le> unat c \<and> unat c \<le> 122 then c - 32 else c) s"

text \<open>The sign of \<open>memcmp\<close>.\<close>

fun memcmp :: "bytes \<Rightarrow> bytes \<Rightarrow> nat \<Rightarrow> int" where
  "memcmp a b 0 = 0"
| "memcmp a b (Suc n) =
     (if c_hd a \<noteq> c_hd b then (if unat (c_hd a) < unat (c_hd b) then - 1 else 1)
      else memcmp (tl a) (tl b) n)"

definition sdscmp :: "bytes \<Rightarrow> bytes \<Rightarrow> int" where
  "sdscmp s1 s2 =
     (let l1 = length s1; l2 = length s2;
          minlen = (if l1 < l2 then l1 else l2);
          cmp = memcmp s1 s2 minlen
      in if cmp = 0 then (if l1 > l2 then 1 else if l1 < l2 then - 1 else 0) else cmp)"

section \<open>Splitting and joining\<close>

lemma split_measure:
  assumes "int j < int n - (int k - 1)" "0 < k"
  shows "n - (j + k) < n - j \<and> n - Suc j < n - j"
  using assms by linarith

text \<open>\<open>j\<close> runs over the positions where the separator still fits; the tokens so far are kept in
  order.\<close>

function split_loop :: "bytes \<Rightarrow> bytes \<Rightarrow> nat \<Rightarrow> nat \<Rightarrow> bytes list \<Rightarrow> bytes list" where
  "split_loop s sep start j tokens =
     (if int j < int (length s) - (int (length sep) - 1) \<and> sep \<noteq> [] then
        if (length sep = 1 \<and> s ! j = sep ! 0) \<or> memcmp (drop j s) sep (length sep) = 0 then
          let tokens = tokens @ [take (j - start) (drop start s)];
              start = j + length sep;
              j = j + length sep - 1
          in split_loop s sep start (j + 1) tokens
        else split_loop s sep start (j + 1) tokens
      else tokens @ [drop start s])"
  by pat_completeness auto
termination
  by (relation "measure (\<lambda>(s, sep, start, j, tokens). length s - j)")
    (auto dest!: split_measure)

declare split_loop.simps [simp del]

definition sdssplitlen :: "bytes \<Rightarrow> bytes \<Rightarrow> bytes list option" where
  "sdssplitlen s sep =
     (if length sep < 1 then None
      else if length s = 0 then Some []
      else Some (split_loop s sep 0 0 []))"

fun join_loop :: "bytes \<Rightarrow> bytes list \<Rightarrow> bytes \<Rightarrow> bytes" where
  "join_loop sep [] join = join"
| "join_loop sep (a # argv) join =
     (let join = join @ a; join = (if argv \<noteq> [] then join @ sep else join)
      in join_loop sep argv join)"

definition sdsjoinsds :: "bytes list \<Rightarrow> bytes \<Rightarrow> bytes" where
  "sdsjoinsds argv sep = join_loop sep argv []"

fun map_char :: "bytes \<Rightarrow> bytes \<Rightarrow> u8 \<Rightarrow> u8" where
  "map_char (f # from) (t # to) c = (if c = f then t else map_char from to c)"
| "map_char from to c = c"

definition sdsmapchars :: "bytes \<Rightarrow> bytes \<Rightarrow> bytes \<Rightarrow> nat \<Rightarrow> bytes" where
  "sdsmapchars s from to setlen = map (map_char (take setlen from) (take setlen to)) s"

section \<open>The quoted representation\<close>

definition is_print :: "u8 \<Rightarrow> bool" where
  "is_print c \<longleftrightarrow> 32 \<le> unat c \<and> unat c \<le> 126"

text \<open>A digit of \<open>%02x\<close>.\<close>

definition hex_char :: "nat \<Rightarrow> u8" where
  "hex_char n = of_nat (if n < 10 then 48 + n else 87 + n)"

definition repr_char :: "u8 \<Rightarrow> bytes" where
  "repr_char c =
     (if c = 92 \<or> c = 34 then [92, c]
      else if c = 10 then [92, 110]
      else if c = 13 then [92, 114]
      else if c = 9 then [92, 116]
      else if c = 7 then [92, 97]
      else if c = 8 then [92, 98]
      else if is_print c then [c]
      else [92, 120, hex_char (unat c div 16), hex_char (unat c mod 16)])"

fun repr_loop :: "bytes \<Rightarrow> bytes \<Rightarrow> bytes" where
  "repr_loop s [] = s"
| "repr_loop s (c # p) = repr_loop (s @ repr_char c) p"

definition sdscatrepr :: "bytes \<Rightarrow> bytes \<Rightarrow> bytes" where
  "sdscatrepr s p = repr_loop (s @ [34]) p @ [34]"

section \<open>Argument lines\<close>

definition is_hex_digit :: "u8 \<Rightarrow> bool" where
  "is_hex_digit c \<longleftrightarrow>
     (48 \<le> unat c \<and> unat c \<le> 57) \<or> (97 \<le> unat c \<and> unat c \<le> 102) \<or> (65 \<le> unat c \<and> unat c \<le> 70)"

definition hex_digit_to_int :: "u8 \<Rightarrow> nat" where
  "hex_digit_to_int c =
     (if 48 \<le> unat c \<and> unat c \<le> 57 then unat c - 48
      else if 97 \<le> unat c \<and> unat c \<le> 102 then unat c - 87
      else if 65 \<le> unat c \<and> unat c \<le> 70 then unat c - 55
      else 0)"

definition escape_char :: "u8 \<Rightarrow> u8" where
  "escape_char c =
     (if c = 110 then 10 else if c = 114 then 13 else if c = 116 then 9
      else if c = 98 then 8 else if c = 97 then 7 else c)"

datatype quoting = Unquoted | InDouble | InSingle

text \<open>One token: its bytes and what follows it, or \<open>None\<close> for the jump to \<open>err\<close>.\<close>

function token_loop :: "quoting \<Rightarrow> bytes \<Rightarrow> bytes \<Rightarrow> (bytes \<times> bytes) option" where
  "token_loop q current p =
     (let c = c_hd p; c1 = c_hd (tl p)
      in case q of
           InDouble \<Rightarrow>
             if c = 92 \<and> c1 = 120 \<and> is_hex_digit (c_hd (drop 2 p)) \<and>
                is_hex_digit (c_hd (drop 3 p)) then
               token_loop q (current @ [of_nat (hex_digit_to_int (c_hd (drop 2 p)) * 16 +
                 hex_digit_to_int (c_hd (drop 3 p)))]) (drop 4 p)
             else if c = 92 \<and> c1 \<noteq> 0 then
               token_loop q (current @ [escape_char c1]) (drop 2 p)
             else if c = 34 then
               if c1 \<noteq> 0 \<and> \<not> is_space c1 then None else Some (current, tl p)
             else if c = 0 then None
             else token_loop q (current @ [c]) (tl p)
         | InSingle \<Rightarrow>
             if c = 92 \<and> c1 = 39 then token_loop q (current @ [39]) (drop 2 p)
             else if c = 39 then
               if c1 \<noteq> 0 \<and> \<not> is_space c1 then None else Some (current, tl p)
             else if c = 0 then None
             else token_loop q (current @ [c]) (tl p)
         | Unquoted \<Rightarrow>
             if c = 32 \<or> c = 10 \<or> c = 13 \<or> c = 9 then Some (current, tl p)
             else if c = 0 then Some (current, p)
             else if c = 34 then token_loop InDouble current (tl p)
             else if c = 39 then token_loop InSingle current (tl p)
             else token_loop q (current @ [c]) (tl p))"
  by pat_completeness auto
termination
  by (relation "measure (\<lambda>(q, current, p). length p)") (auto simp: c_hd_def split: list.splits)

declare token_loop.simps [simp del]

definition skip_blanks :: "bytes \<Rightarrow> bytes" where
  "skip_blanks p = dropWhile is_space p"

lemma skip_blanks_length: "length (skip_blanks p) \<le> length p"
  by (simp add: skip_blanks_def length_dropWhile_le)

lemma token_loop_length: "token_loop q cur p = Some (tok, rest) \<Longrightarrow> length rest \<le> length p"
proof (induction q cur p rule: token_loop.induct)
  case (1 q cur p)
  note step = token_loop.simps [of q cur p]
  show ?case
  proof (cases q)
    case Unquoted
    then show ?thesis
      using 1 step by (auto simp: Let_def intro: order_trans [OF _ diff_le_self] split: if_splits)
  next
    case InDouble
    then show ?thesis
      using 1 step by (auto simp: Let_def intro: order_trans [OF _ diff_le_self] split: if_splits)
  next
    case InSingle
    then show ?thesis
      using 1 step by (auto simp: Let_def intro: order_trans [OF _ diff_le_self] split: if_splits)
  qed
qed

lemma token_loop_shrinks:
  assumes "token_loop Unquoted cur p = Some (tok, rest)" "c_hd p \<noteq> 0"
  shows "length rest < length p"
proof -
  from assms(2) have "p \<noteq> []" by auto
  then have tl: "length (tl p) < length p" by simp
  from assms have "length rest \<le> length (tl p)"
    by (subst (asm) token_loop.simps) (auto simp: Let_def dest!: token_loop_length split: if_splits)
  with tl show ?thesis by simp
qed

text \<open>The loop over the tokens; the vector of the tokens read so far is \<open>vector\<close>.\<close>

function args_loop :: "bytes list \<Rightarrow> bytes \<Rightarrow> bytes list option" where
  "args_loop vector p =
     (let p = skip_blanks p
      in if c_hd p \<noteq> 0 then
           (case token_loop Unquoted [] p of
              None \<Rightarrow> None
            | Some (current, p) \<Rightarrow> args_loop (vector @ [current]) p)
         else Some vector)"
  by pat_completeness auto
termination
proof (relation "measure (\<lambda>(vector, p). length p)", goal_cases)
  case (2 vector p p' tok current rest)
  then show ?case
    using token_loop_shrinks [of "[]" p' current rest] skip_blanks_length [of p] by simp
qed simp

declare args_loop.simps [simp del]

definition sdssplitargs :: "bytes \<Rightarrow> bytes list option" where
  "sdssplitargs line = args_loop [] line"

section \<open>Formatted output\<close>

text \<open>The variable arguments, by the type \<open>va_arg\<close> reads them with.\<close>

datatype fmt_arg = CString bytes | SdsString bytes | CInt u32 | LongLong i64 | CUInt u32 | ULongLong u64

text \<open>
  \<open>None\<close> stands for the undefined behaviours: an argument that is missing or of another type,
  and reading behind the terminator of the format, after a \<open>%\<close> that ends it.
\<close>

fun fmt_loop :: "bytes \<Rightarrow> bytes \<Rightarrow> fmt_arg list \<Rightarrow> bytes option" where
  "fmt_loop s [] ap = Some s"
| "fmt_loop s [f] ap = (if f = 0 then Some s else if f = 37 then None else Some (s @ [f]))"
| "fmt_loop s (f # next # fmt) ap =
     (if f = 0 then Some s
      else if f = 37 then
        (if next = 0 then None
         else if next = 115 then
           (case ap of CString str # ap \<Rightarrow> fmt_loop (s @ takeWhile (\<lambda>c. c \<noteq> 0) str) fmt ap | _ \<Rightarrow> None)
         else if next = 83 then
           (case ap of SdsString str # ap \<Rightarrow> fmt_loop (s @ str) fmt ap | _ \<Rightarrow> None)
         else if next = 105 then
           (case ap of CInt num # ap \<Rightarrow> fmt_loop (s @ sdsll2str (scast num)) fmt ap | _ \<Rightarrow> None)
         else if next = 73 then
           (case ap of LongLong num # ap \<Rightarrow> fmt_loop (s @ sdsll2str num) fmt ap | _ \<Rightarrow> None)
         else if next = 117 then
           (case ap of CUInt unum # ap \<Rightarrow> fmt_loop (s @ sdsull2str (ucast unum)) fmt ap | _ \<Rightarrow> None)
         else if next = 85 then
           (case ap of ULongLong unum # ap \<Rightarrow> fmt_loop (s @ sdsull2str unum) fmt ap | _ \<Rightarrow> None)
         else fmt_loop (s @ [next]) fmt ap)
      else fmt_loop (s @ [f]) (next # fmt) ap)"

definition sdscatfmt :: "bytes \<Rightarrow> bytes \<Rightarrow> fmt_arg list \<Rightarrow> bytes option" where
  "sdscatfmt s fmt ap = fmt_loop s fmt ap"

section \<open>Proofs: numerals\<close>

lemma digits_loop_dec: "digits_loop v p = p @ rev (dec v)"
proof (induction v p rule: digits_loop.induct)
  case (1 v p)
  show ?case
  proof (cases "v div 10 = 0")
    case True
    then have "v < 10" by (simp add: div_eq_0_iff)
    then show ?thesis
      using digits_loop.simps [of v p] by (simp add: dec_small del: of_nat_add)
  next
    case False
    then have v: "10 \<le> v" by (simp add: div_eq_0_iff)
    have "digits_loop v p = digits_loop (v div 10) (p @ [of_nat (48 + v mod 10)])"
      using digits_loop.simps [of v p] False by (simp add: Let_def del: of_nat_add)
    also have "\<dots> = p @ rev (dec v)"
      using "1.IH" [OF refl refl False] dec_step [OF v] by (simp del: of_nat_add)
    finally show ?thesis .
  qed
qed

lemma reverse_loop_length [simp]: "length (reverse_loop i j s) = length s"
  by (induction i j s rule: reverse_loop.induct) (subst reverse_loop.simps, auto simp: Let_def)

lemma reverse_loop_nth:
  "\<lbrakk>j < length s; k < length s; i \<le> Suc j\<rbrakk> \<Longrightarrow>
   reverse_loop i j s ! k = (if i \<le> k \<and> k \<le> j then s ! (i + j - k) else s ! k)"
proof (induction i j s rule: reverse_loop.induct)
  case (1 i j s)
  show ?case
  proof (cases "i < j")
    case True
    let ?t = "s[i := s ! j, j := s ! i]"
    have eq: "reverse_loop i j s = reverse_loop (i + 1) (j - 1) ?t"
      using reverse_loop.simps [of i j s] True by (simp add: Let_def)
    have "reverse_loop (i + 1) (j - 1) ?t ! k =
        (if i + 1 \<le> k \<and> k \<le> j - 1 then ?t ! (i + 1 + (j - 1) - k) else ?t ! k)"
      using "1.IH" [OF True refl refl refl] 1(2,3) True by simp
    also have "\<dots> = (if i \<le> k \<and> k \<le> j then s ! (i + j - k) else s ! k)"
      using 1(2,3) True by (auto simp: nth_list_update)
    finally show ?thesis using eq by simp
  next
    case False
    then have "i + j - k = k" if "i \<le> k" "k \<le> j" using that by linarith
    with False show ?thesis using reverse_loop.simps [of i j s] by auto
  qed
qed

lemma reverse_loop_rev: "reverse_loop 0 (length s - 1) s = rev s"
proof (cases "s = []")
  case True
  then show ?thesis by (subst reverse_loop.simps) simp
next
  case False
  then show ?thesis
    by (intro nth_equalityI) (auto simp: reverse_loop_nth rev_nth)
qed

lemma sdsull2str_dec: "sdsull2str v = dec (unat v)"
  using reverse_loop_rev [of "rev (dec (unat v))"]
  by (simp add: sdsull2str_def digits_loop_dec Let_def)

lemma sdsll2str_dec: "sdsll2str v = dec_int (sint v)"
proof (cases "sint v < 0")
  case True
  then have "unat (- v) = nat (- sint v)" using unat_uminus64 [of v] by linarith
  then show ?thesis
    using reverse_loop_rev [of "rev (dec (unat (- v))) @ [45]"] True
    by (simp add: sdsll2str_def digits_loop_dec Let_def dec_int_def)
next
  case False
  then have "unat v = nat (sint v)" using unat_sint64 [of v] by linarith
  then show ?thesis
    using reverse_loop_rev [of "rev (dec (unat v))"] False
    by (simp add: sdsll2str_def digits_loop_dec Let_def dec_int_def)
qed

section \<open>Proofs: trimming and comparison\<close>

lemma trim_right_spec:
  "sp \<le> ep \<Longrightarrow> sp \<le> trim_right P s sp ep \<and> trim_right P s sp ep \<le> ep \<and>
   (\<forall>k. trim_right P s sp ep < k \<and> k \<le> ep \<longrightarrow> P (s ! nat k)) \<and>
   (trim_right P s sp ep = sp \<or> \<not> P (s ! nat (trim_right P s sp ep)))"
proof (induction P s sp ep rule: trim_right.induct)
  case (1 P s sp ep)
  show ?case
  proof (cases "ep > sp \<and> P (s ! nat ep)")
    case True
    then have eq: "trim_right P s sp ep = trim_right P s sp (ep - 1)"
      by (subst trim_right.simps) simp
    have "P (s ! nat k)" if "trim_right P s sp (ep - 1) < k" "k \<le> ep" for k
      using "1.IH" [OF True] that True by (cases "k = ep") auto
    with "1.IH" [OF True] True show ?thesis unfolding eq by auto
  next
    case False
    then have eq: "trim_right P s sp ep = ep" by (subst trim_right.simps) auto
    show ?thesis unfolding eq using False 1(2) by auto
  qed
qed

lemma memcmp_eq_0:
  "\<lbrakk>n \<le> length a; n \<le> length b\<rbrakk> \<Longrightarrow> memcmp a b n = 0 \<longleftrightarrow> take n a = take n b"
proof (induction a b n rule: memcmp.induct)
  case (2 a b n)
  then show ?case by (cases a; cases b) auto
qed simp

lemma memcmp_lex:
  "\<lbrakk>n \<le> length a; n \<le> length b; memcmp a b n \<noteq> 0\<rbrakk> \<Longrightarrow>
   (memcmp a b n = 1 \<and> ord_class.lexordp b a) \<or> (memcmp a b n = - 1 \<and> ord_class.lexordp a b)"
proof (induction a b n rule: memcmp.induct)
  case (2 a b n)
  then show ?case by (cases a; cases b) (auto simp: word_less_nat_alt word_unat_eq_iff split: if_splits)
qed simp

lemma sdscmp_self: "sdscmp s s = 0"
  by (simp add: sdscmp_def memcmp_eq_0)

lemma sdscmp_less: "s1 \<noteq> s2 \<Longrightarrow>
  (sdscmp s1 s2 = 1 \<and> ord_class.lexordp s2 s1) \<or> (sdscmp s1 s2 = - 1 \<and> ord_class.lexordp s1 s2)"
proof (cases "memcmp s1 s2 (min (length s1) (length s2)) = 0")
  case True
  assume "s1 \<noteq> s2"
  let ?m = "min (length s1) (length s2)"
  have p: "take ?m s1 = take ?m s2" using True memcmp_eq_0 [of ?m s1 s2] by simp
  consider "length s1 < length s2" | "length s2 < length s1"
    using p \<open>s1 \<noteq> s2\<close> by (cases "length s1" "length s2" rule: linorder_cases) auto
  then show ?thesis
  proof cases
    case 1
    then have "s2 = s1 @ drop (length s1) s2" "drop (length s1) s2 \<noteq> []"
      using p append_take_drop_id [of "length s1" s2] by auto
    then have "ord_class.lexordp s1 s2" by (metis lexordp_append_rightI)
    with 1 True show ?thesis by (simp add: sdscmp_def min_def)
  next
    case 2
    then have "s1 = s2 @ drop (length s2) s1" "drop (length s2) s1 \<noteq> []"
      using p append_take_drop_id [of "length s2" s1] by auto
    then have "ord_class.lexordp s2 s1" by (metis lexordp_append_rightI)
    with 2 True show ?thesis by (simp add: sdscmp_def min_def)
  qed
next
  case False
  have "sdscmp s1 s2 = memcmp s1 s2 (min (length s1) (length s2))"
    using False by (simp add: sdscmp_def Let_def min_def split: if_splits)
  with False memcmp_lex [of "min (length s1) (length s2)" s1 s2] show ?thesis by auto
qed


lemma takeWhile_dropWhile_len: "drop (length (takeWhile P s)) s = dropWhile P s"
  by (metis append_eq_conv_conj takeWhile_dropWhile_id)

lemma sdstrim_spec:
  "\<exists>l r. s = l @ sdstrim s cset @ r \<and> (\<forall>c\<in>set l \<union> set r. in_cset cset c) \<and>
     (sdstrim s cset \<noteq> [] \<longrightarrow>
        \<not> in_cset cset (hd (sdstrim s cset)) \<and> \<not> in_cset cset (last (sdstrim s cset)))"
proof -
  let ?P = "in_cset cset"
  define l where "l = takeWhile ?P s"
  define m where "m = dropWhile ?P s"
  define ep where "ep = trim_right ?P s (int (length l)) (int (length s) - 1)"
  have s: "s = l @ m" by (simp add: l_def m_def)
  show ?thesis
  proof (cases "m = []")
    case True
    then have "ep = int (length s) - 1"
      unfolding ep_def using s by (subst trim_right.simps) auto
    then have "sdstrim s cset = []"
      using s True unfolding sdstrim_def Let_def l_def [symmetric] ep_def [symmetric] by simp
    moreover have "\<forall>c\<in>set s. ?P c" using True by (simp add: m_def)
    ultimately show ?thesis by (intro exI [of _ s] exI [of _ "[]"]) simp
  next
    case False
    then have le: "int (length l) \<le> int (length s) - 1" using s by (cases m) auto
    have tr: "int (length l) \<le> ep" "ep \<le> int (length s) - 1"
      "\<And>k. \<lbrakk>ep < k; k \<le> int (length s) - 1\<rbrakk> \<Longrightarrow> ?P (s ! nat k)"
      "ep = int (length l) \<or> \<not> ?P (s ! nat ep)"
      using trim_right_spec [OF le, of ?P s, folded ep_def] by simp_all
    define k where "k = nat (ep - int (length l)) + 1"
    have kl: "1 \<le> k" "k \<le> length m" using tr(1,2) s by (auto simp: k_def nat_le_iff)
    have nth: "s ! nat (int (length l) + int i) = m ! i" for i
      using s by (simp add: nat_int_add nth_append)
    have trim: "sdstrim s cset = take k m"
      using s tr(1,2) unfolding sdstrim_def Let_def l_def [symmetric] ep_def [symmetric]
      by (simp add: k_def)
    have hd: "\<not> ?P (hd m)" using False hd_dropWhile [of ?P s] by (simp add: m_def)
    have "?P c" if "c \<in> set (drop k m)" for c
    proof -
      from that obtain i where i: "i < length m - k" "c = m ! (k + i)"
        by (auto simp: in_set_conv_nth)
      have "ep < int (length l) + int (k + i)" "int (length l) + int (k + i) \<le> int (length s) - 1"
        using i(1) s tr(1,2) by (auto simp: k_def)
      then have "?P (s ! nat (int (length l) + int (k + i)))" by (rule tr(3))
      then show ?thesis by (simp only: i(2) nth)
    qed
    moreover have "\<not> ?P (last (take k m))"
    proof -
      have last: "last (take k m) = m ! (k - 1)"
        using kl by (subst last_conv_nth) auto
      have ep: "nat ep = nat (int (length l) + int (k - 1))" using tr(1) by (simp add: k_def)
      show ?thesis
      proof (cases "k = 1")
        case True
        then show ?thesis using hd last False by (simp add: hd_conv_nth)
      next
        case False
        then have "ep \<noteq> int (length l)" by (auto simp: k_def)
        then have "\<not> ?P (s ! nat ep)" using tr(4) by blast
        then show ?thesis using last ep nth by simp
      qed
    qed
    moreover have "\<forall>c\<in>set l. ?P c" by (auto simp: l_def dest: set_takeWhileD)
    moreover have "hd (take k m) = hd m" using kl False by (cases m; cases k) auto
    ultimately show ?thesis
      using s hd unfolding trim
      by (intro exI [of _ l] exI [of _ "drop k m"]) auto
  qed
qed

section \<open>Proofs: splitting\<close>

lemma join_loop_eq: "join_loop sep argv acc = acc @ join_loop sep argv []"
proof (induction argv arbitrary: acc)
  case (Cons a argv)
  show ?case
    using Cons [of "(acc @ a) @ sep"] Cons [of "a @ sep"] by (cases "argv = []") simp_all
qed simp

lemma sdsjoinsds_simps [simp]:
  "sdsjoinsds [] sep = []"
  "sdsjoinsds [a] sep = a"
  "sdsjoinsds (a # b # argv) sep = a @ sep @ sdsjoinsds (b # argv) sep"
  using join_loop_eq [of sep "b # argv" "a @ sep"]
  by (simp_all add: sdsjoinsds_def)

lemma sdsjoinsds_snoc:
  "sdsjoinsds (ts @ [t]) sep = concat (map (\<lambda>t. t @ sep) ts) @ t"
proof (induction ts)
  case (Cons a ts)
  then show ?case by (cases ts) auto
qed simp

text \<open>\<open>sep\<close> occurs in \<open>s\<close> at position \<open>p\<close>.\<close>

definition occurs_at :: "bytes \<Rightarrow> bytes \<Rightarrow> nat \<Rightarrow> bool" where
  "occurs_at s sep p \<longleftrightarrow> p + length sep \<le> length s \<and> take (length sep) (drop p s) = sep"

lemma occurs_at_part:
  assumes "occurs_at (take n (drop start s)) sep p" "start + n \<le> length s"
  shows "occurs_at s sep (start + p)" "start + p + length sep \<le> start + n"
  using assms by (auto simp: occurs_at_def drop_take add.commute min_def split: if_splits)

lemma match_test:
  assumes "j + length sep \<le> length s" "sep \<noteq> []"
  shows "(length sep = 1 \<and> s ! j = sep ! 0) \<or> memcmp (drop j s) sep (length sep) = 0 \<longleftrightarrow>
    occurs_at s sep j"
proof -
  have "memcmp (drop j s) sep (length sep) = 0 \<longleftrightarrow> occurs_at s sep j"
    using assms memcmp_eq_0 [of "length sep" "drop j s" sep] by (auto simp: occurs_at_def)
  moreover have "occurs_at s sep j" if "length sep = 1" "s ! j = sep ! 0"
    using that assms by (cases sep) (auto simp: occurs_at_def take_Suc_conv_app_nth hd_drop_conv_nth take_Suc)
  ultimately show ?thesis by blast
qed

definition split_inv :: "bytes \<Rightarrow> bytes \<Rightarrow> nat \<Rightarrow> nat \<Rightarrow> bytes list \<Rightarrow> bool" where
  "split_inv s sep start j tokens \<longleftrightarrow>
     start \<le> j \<and> start \<le> length s \<and>
     concat (map (\<lambda>t. t @ sep) tokens) @ drop start s = s \<and>
     (\<forall>t\<in>set tokens. \<forall>p. \<not> occurs_at t sep p) \<and>
     (\<forall>p. start \<le> p \<and> p < j \<longrightarrow> \<not> occurs_at s sep p)"

lemma split_loop_spec:
  "\<lbrakk>split_inv s sep start j tokens; sep \<noteq> []\<rbrakk> \<Longrightarrow>
   sdsjoinsds (split_loop s sep start j tokens) sep = s \<and>
   (\<forall>t\<in>set (split_loop s sep start j tokens). \<forall>p. \<not> occurs_at t sep p)"
proof (induction s sep start j tokens rule: split_loop.induct)
  case (1 s sep start j tokens)
  note inv = "1.prems"(1)
  let ?guard = "int j < int (length s) - (int (length sep) - 1) \<and> sep \<noteq> []"
  let ?test = "(length sep = 1 \<and> s ! j = sep ! 0) \<or> memcmp (drop j s) sep (length sep) = 0"
  show ?case
  proof (cases ?guard)
    case guard: True
    then have fit: "j + length sep \<le> length s" by linarith
    note test = match_test [OF fit \<open>sep \<noteq> []\<close>]
    show ?thesis
    proof (cases ?test)
      case True
      define t where "t = take (j - start) (drop start s)"
      have occ: "occurs_at s sep j" using True test by blast
      have step: "split_loop s sep start j tokens =
          split_loop s sep (j + length sep) (j + length sep - 1 + 1) (tokens @ [t])"
        using split_loop.simps [of s sep start j tokens] guard True by (simp add: Let_def t_def)
      have no: "\<not> occurs_at t sep p" for p
      proof
        assume "occurs_at t sep p"
        then have "occurs_at s sep (start + p)" "start + p + length sep \<le> j"
          using occurs_at_part [of "j - start" start s sep p] inv fit
          by (auto simp: t_def split_inv_def)
        moreover from this(2) have "start + p < j"
          using length_greater_0_conv [of sep] \<open>sep \<noteq> []\<close> by linarith
        ultimately show False using inv by (auto simp: split_inv_def)
      qed
      have "drop start s = t @ sep @ drop (j + length sep) s"
      proof -
        have "drop start s = t @ drop j s"
          using inv by (simp add: t_def split_inv_def)
            (metis append_take_drop_id drop_drop le_add_diff_inverse2)
        also have "drop j s = sep @ drop (j + length sep) s"
          using occ by (metis append_take_drop_id drop_drop occurs_at_def add.commute)
        finally show ?thesis .
      qed
      moreover have "Suc (j + length sep - Suc 0) = j + length sep"
        using \<open>sep \<noteq> []\<close> by (cases sep) auto
      ultimately have "split_inv s sep (j + length sep) (j + length sep - 1 + 1) (tokens @ [t])"
        using inv no fit by (auto simp: split_inv_def)
      then show ?thesis
        using "1.IH"(1) [OF guard True] \<open>sep \<noteq> []\<close> unfolding step t_def by blast
    next
      case False
      have step: "split_loop s sep start j tokens = split_loop s sep start (j + 1) tokens"
        using split_loop.simps [of s sep start j tokens] guard False
        by (simp only: simp_thms if_True if_False)
      have "\<not> occurs_at s sep j" using False test by blast
      then have "split_inv s sep start (j + 1) tokens"
        using inv by (auto simp: split_inv_def less_Suc_eq)
      then show ?thesis
        using "1.IH"(2) [OF guard False] \<open>sep \<noteq> []\<close> unfolding step by blast
    qed
  next
    case False
    then have step: "split_loop s sep start j tokens = tokens @ [drop start s]"
      using split_loop.simps [of s sep start j tokens] by (simp only: if_False)
    have "\<not> occurs_at (drop start s) sep p" for p
    proof
      assume "occurs_at (drop start s) sep p"
      then have "occurs_at s sep (start + p)"
        using inv by (auto simp: occurs_at_def split_inv_def add.commute)
      moreover then have "start + p < j" using False \<open>sep \<noteq> []\<close> by (auto simp: occurs_at_def)
      ultimately show False using inv by (auto simp: split_inv_def)
    qed
    then show ?thesis
      using inv unfolding step by (auto simp: split_inv_def sdsjoinsds_snoc)
  qed
qed


section \<open>Proofs: quoting\<close>

lemma hex_char_small:
  assumes "n < 16"
  shows "is_hex_digit (hex_char n)" "hex_digit_to_int (hex_char n) = n" "hex_char n \<noteq> 0"
proof -
  have "unat (hex_char n) = (if n < 10 then 48 + n else 87 + n)"
    unfolding hex_char_def using assms by (intro unat_of_nat_u8) simp
  then show "is_hex_digit (hex_char n)" "hex_digit_to_int (hex_char n) = n" "hex_char n \<noteq> 0"
    using assms by (auto simp: is_hex_digit_def hex_digit_to_int_def split: if_splits)
qed

lemma token_loop_repr_char:
  "token_loop InDouble cur (repr_char c @ p) = token_loop InDouble (cur @ [c]) p"
proof -
  have plain: "token_loop InDouble cur (c # p) = token_loop InDouble (cur @ [c]) p"
    if "is_print c" "c \<noteq> 92" "c \<noteq> 34"
  proof -
    have "c \<noteq> 0" using that(1) by (auto simp: is_print_def)
    then show ?thesis using that(2,3) by (subst token_loop.simps) (simp add: Let_def)
  qed
  have esc: "token_loop InDouble cur (92 # e # p) = token_loop InDouble (cur @ [escape_char e]) p"
    if "e \<noteq> 120" "e \<noteq> 0" for e
    using that by (subst token_loop.simps) (simp add: Let_def)
  have "unat c < 256" by (rule order_less_le_trans [OF unsigned_less]) simp
  then have "unat c div 16 < 16" "unat c mod 16 < 16" by simp_all
  note d = hex_char_small [OF this(1)] hex_char_small [OF this(2)]
  have hex: "token_loop InDouble cur (92 # 120 # hex_char (unat c div 16) # hex_char (unat c mod 16) # p) =
      token_loop InDouble (cur @ [c]) p"
  proof -
    define h l where "h = hex_char (unat c div 16)" and "l = hex_char (unat c mod 16)"
    have "of_nat (hex_digit_to_int h * 16 + hex_digit_to_int l) = c"
      unfolding h_def l_def d div_mult_mod_eq by simp
    moreover have "is_hex_digit h" "is_hex_digit l" using d by (simp_all add: h_def l_def)
    ultimately show ?thesis unfolding h_def [symmetric] l_def [symmetric]
      by (subst token_loop.simps) (simp add: Let_def del: of_nat_add of_nat_mult)
  qed
  show ?thesis
    using plain hex esc [of c] esc [of 110] esc [of 114] esc [of 116] esc [of 97] esc [of 98]
    by (auto simp: repr_char_def escape_char_def)
qed

lemma repr_loop_eq: "repr_loop s p = s @ concat (map repr_char p)"
  by (induction s p rule: repr_loop.induct) simp_all

lemma sdscatrepr_eq: "sdscatrepr s p = s @ 34 # concat (map repr_char p) @ [34]"
  by (simp add: sdscatrepr_def repr_loop_eq)

lemma token_loop_repr:
  assumes "c_hd rest = 0 \<or> is_space (c_hd rest)"
  shows "token_loop InDouble cur (concat (map repr_char s) @ 34 # rest) = Some (cur @ s, rest)"
proof (induction s arbitrary: cur)
  case Nil
  show ?case using assms by (subst token_loop.simps) (auto simp: Let_def)
next
  case (Cons c s)
  then show ?case by (simp add: token_loop_repr_char)
qed

lemma is_space_quote: "\<not> is_space 34" "is_space 32"
  by (simp_all add: is_space_def)

lemma args_loop_repr:
  assumes "c_hd rest = 0 \<or> is_space (c_hd rest)" "blanks = [] \<or> blanks = [32]"
  shows "args_loop vector (blanks @ sdscatrepr [] a @ rest) = args_loop (vector @ [a]) rest"
proof -
  have "token_loop Unquoted [] (34 # concat (map repr_char a) @ 34 # rest) = Some (a, rest)"
    by (subst token_loop.simps) (simp add: Let_def token_loop_repr [OF assms(1)])
  moreover have "skip_blanks (blanks @ sdscatrepr [] a @ rest) = 34 # concat (map repr_char a) @ 34 # rest"
    using assms(2) by (auto simp: skip_blanks_def sdscatrepr_eq is_space_quote)
  ultimately show ?thesis
    using args_loop.simps [of vector "blanks @ sdscatrepr [] a @ rest"] by (simp add: Let_def)
qed

lemma args_loop_args:
  "args_loop vector (concat (map (\<lambda>a. 32 # sdscatrepr [] a) args)) = Some (vector @ args)"
proof (induction args arbitrary: vector)
  case Nil
  show ?case by (subst args_loop.simps) (simp add: skip_blanks_def)
next
  case (Cons a args)
  have "c_hd (concat (map (\<lambda>a. 32 # sdscatrepr [] a) args)) = 0 \<or>
      is_space (c_hd (concat (map (\<lambda>a. 32 # sdscatrepr [] a) args)))"
    by (cases args) (simp_all add: is_space_quote)
  from args_loop_repr [OF this, of "[32]"] Cons show ?case by simp
qed

lemma sdsjoinsds_sep: "sdsjoinsds (a # argv) sep = a @ concat (map (\<lambda>b. sep @ b) argv)"
  by (induction argv arbitrary: a) simp_all

section \<open>Proofs: formats\<close>

text \<open>
  A format as a list of items: what each contributes to the format string, to the arguments
  and to the output.
\<close>

datatype fmt_item = Literal u8 | Str_s bytes | Sds_S bytes | Int_i u32 | Long_I i64
  | UInt_u u32 | ULong_U u64

fun item_fmt :: "fmt_item \<Rightarrow> bytes" where
  "item_fmt (Literal c) = (if c = 37 then [37, 37] else [c])"
| "item_fmt (Str_s t) = [37, 115]"
| "item_fmt (Sds_S t) = [37, 83]"
| "item_fmt (Int_i n) = [37, 105]"
| "item_fmt (Long_I n) = [37, 73]"
| "item_fmt (UInt_u n) = [37, 117]"
| "item_fmt (ULong_U n) = [37, 85]"

fun item_arg :: "fmt_item \<Rightarrow> fmt_arg list" where
  "item_arg (Literal c) = []"
| "item_arg (Str_s t) = [CString t]"
| "item_arg (Sds_S t) = [SdsString t]"
| "item_arg (Int_i n) = [CInt n]"
| "item_arg (Long_I n) = [LongLong n]"
| "item_arg (UInt_u n) = [CUInt n]"
| "item_arg (ULong_U n) = [ULongLong n]"

fun item_out :: "fmt_item \<Rightarrow> bytes" where
  "item_out (Literal c) = [c]"
| "item_out (Str_s t) = takeWhile (\<lambda>c. c \<noteq> 0) t"
| "item_out (Sds_S t) = t"
| "item_out (Int_i n) = dec_int (sint n)"
| "item_out (Long_I n) = dec_int (sint n)"
| "item_out (UInt_u n) = dec (unat n)"
| "item_out (ULong_U n) = dec (unat n)"

lemma fmt_loop_literal:
  "\<lbrakk>f \<noteq> 0; f \<noteq> 37\<rbrakk> \<Longrightarrow> fmt_loop s (f # fmt) ap = fmt_loop (s @ [f]) fmt ap"
  by (cases fmt) simp_all

lemma unat_up_ucast: "unat (ucast (n :: u32) :: u64) = unat n"
proof -
  have "unat n < 2 ^ 64" by (rule order_less_le_trans [OF unsigned_less]) simp
  then show ?thesis by (simp add: unsigned_ucast_eq take_bit_nat_eq_self_iff)
qed

lemma fmt_loop_item:
  "it \<noteq> Literal 0 \<Longrightarrow>
   fmt_loop s (item_fmt it @ fmt) (item_arg it @ ap) = fmt_loop (s @ item_out it) fmt ap"
proof (cases it)
  case (Literal c)
  moreover assume "it \<noteq> Literal 0"
  ultimately show ?thesis by (simp add: fmt_loop_literal)
next
  case (Int_i n)
  then show ?thesis
    by (simp add: sdsll2str_dec sint_up_scast is_up)
next
  case (UInt_u n)
  then show ?thesis by (simp add: sdsull2str_dec unat_up_ucast)
qed (simp_all add: sdsll2str_dec sdsull2str_dec)

lemma fmt_loop_items:
  "Literal 0 \<notin> set its \<Longrightarrow>
   fmt_loop s (concat (map item_fmt its) @ fmt) (concat (map item_arg its) @ ap) =
   fmt_loop (s @ concat (map item_out its)) fmt ap"
proof (induction its arbitrary: s)
  case (Cons it its)
  then have "it \<noteq> Literal 0" by auto
  note fmt_loop_item [OF this, of s "concat (map item_fmt its) @ fmt" "concat (map item_arg its) @ ap"]
  with Cons show ?case by simp
qed simp

section \<open>Proofs: ranges\<close>

lemma take_drop_nths: "take k (drop a s) = nths s {a..<a + k}"
proof -
  have "take k (drop a s) = nths (drop a s) {..<k}" by simp
  also have "\<dots> = nths s ((+) a ` {..<k})" by (rule nths_drop)
  also have "(+) a ` {..<k} = {a..<a + k}" by (simp add: lessThan_atLeast0 add.commute)
  finally show ?thesis .
qed

lemma nths_cong_set:
  assumes "\<And>i. i < length s \<Longrightarrow> i \<in> A \<longleftrightarrow> i \<in> B"
  shows "nths s A = nths s B"
  unfolding nths_def using assms by (intro arg_cong [where f = "map fst"] filter_cong)
    (auto simp: in_set_zip)

text \<open>An index of \<open>sdsrange\<close>: negative indices count from the end and stop at the first byte.\<close>

definition range_index :: "nat \<Rightarrow> int \<Rightarrow> int" where
  "range_index n i = (if i < 0 then max 0 (int n + i) else i)"

section \<open>Properties\<close>

text \<open>
  C29: \<open>sdssplitargs\<close> reads back the quoted representations \<open>sdscatrepr\<close> writes, separated by
  spaces, whatever bytes the arguments hold.
\<close>

theorem sdssplitargs_repr:
  "sdssplitargs (sdsjoinsds (map (sdscatrepr []) args) [32]) = Some args"
proof (cases args)
  case Nil
  then show ?thesis using args_loop_args [of "[]" "[]"] by (simp add: sdssplitargs_def)
next
  case (Cons a as)
  let ?rest = "concat (map (\<lambda>a. 32 # sdscatrepr [] a) as)"
  have "c_hd ?rest = 0 \<or> is_space (c_hd ?rest)" by (cases as) (simp_all add: is_space_quote)
  from args_loop_repr [OF this, of "[]" "[]" a] show ?thesis
    using args_loop_args [of "[a]" as]
    by (simp add: sdssplitargs_def Cons sdsjoinsds_sep comp_def)
qed


text \<open>
  C30: \<open>sdssplitlen\<close> cuts a non-empty string at every occurrence of the separator, from the
  left: joining the tokens gives the string back, and the separator occurs in no token.
\<close>

theorem sdssplitlen_join:
  assumes "s \<noteq> []" "sep \<noteq> []"
  shows "\<exists>tokens. sdssplitlen s sep = Some tokens \<and> sdsjoinsds tokens sep = s \<and>
    (\<forall>t p. t \<in> set tokens \<longrightarrow> \<not> occurs_at t sep p)"
proof -
  have "split_inv s sep 0 0 []" by (simp add: split_inv_def)
  from split_loop_spec [OF this assms(2)] show ?thesis
    using assms by (auto simp: sdssplitlen_def Suc_le_eq)
qed

theorem sdssplitlen_join_witness:
  "\<exists>tokens. sdssplitlen [1, 44, 2] [44] = Some tokens \<and> sdsjoinsds tokens [44] = [1, 44, 2] \<and>
    (\<forall>t p. t \<in> set tokens \<longrightarrow> \<not> occurs_at t [44] p)"
  by (rule sdssplitlen_join) simp_all

text \<open>
  \<open>string2ll\<close> accepts exactly what \<open>sdsfromlonglong\<close> writes, and reads the number back.
\<close>

theorem sdsfromlonglong_roundtrip:
  "string2ll s = Some v \<longleftrightarrow> s = sdsfromlonglong v"
  using string2ll_dec_int [of v] string2ll_SomeD [of s v]
  by (auto simp: sdsfromlonglong_def sdsll2str_dec)

text \<open>
  C31: \<open>sdscmp\<close> decides the lexicographic order of the strings, its bytes unsigned.
\<close>

theorem sdscmp_order:
  "sdscmp s1 s2 = (if s1 = s2 then 0 else if ord_class.lexordp s1 s2 then - 1 else 1)"
  using sdscmp_self [of s1] sdscmp_less [of s1 s2] lexordp_antisym [of s1 s2] by auto

text \<open>
  C32: \<open>sdscatfmt\<close> writes every item of a format as its directive says, consuming one argument
  per directive; a format that ends in a single \<open>%\<close> makes it read behind the terminator.
\<close>

theorem sdscatfmt_items:
  assumes "Literal 0 \<notin> set its"
  shows "sdscatfmt s (concat (map item_fmt its)) (concat (map item_arg its)) =
      Some (s @ concat (map item_out its)) \<and>
    sdscatfmt s (concat (map item_fmt its) @ [37]) (concat (map item_arg its)) = None"
  using fmt_loop_items [OF assms, of s "[]" "[]"] fmt_loop_items [OF assms, of s "[37]" "[]"]
  by (simp add: sdscatfmt_def)

theorem sdscatfmt_items_witness:
  "sdscatfmt [1] (concat (map item_fmt [Literal 65, Str_s [66], Long_I 7]))
      (concat (map item_arg [Literal 65, Str_s [66], Long_I 7])) = Some [1, 65, 66, 55] \<and>
    sdscatfmt [1] (concat (map item_fmt [Literal 65, Str_s [66], Long_I 7]) @ [37])
      (concat (map item_arg [Literal 65, Str_s [66], Long_I 7])) = None"
  using sdscatfmt_items [of "[Literal 65, Str_s [66], Long_I 7]" "[1]"]
  by (simp add: dec_int_def dec_small)

text \<open>
  C33: \<open>sdstrim\<close> removes characters of the set from both ends, and none is left there. The NUL
  byte counts as a character of every set, as \<open>strchr\<close> finds the terminator.
\<close>

theorem sdstrim_ends:
  "(\<exists>l r. s = l @ sdstrim s cset @ r \<and> set l \<union> set r \<subseteq> Collect (in_cset cset)) \<and>
   (sdstrim s cset = [] \<or>
    {hd (sdstrim s cset), last (sdstrim s cset)} \<inter> Collect (in_cset cset) = {}) \<and>
   in_cset cset 0"
proof -
  obtain l r where "s = l @ sdstrim s cset @ r" "\<forall>c\<in>set l \<union> set r. in_cset cset c"
    and "sdstrim s cset \<noteq> [] \<longrightarrow>
        \<not> in_cset cset (hd (sdstrim s cset)) \<and> \<not> in_cset cset (last (sdstrim s cset))"
    using sdstrim_spec by blast
  moreover have "in_cset cset 0" by (simp add: in_cset_def)
  ultimately show ?thesis by blast
qed

text \<open>
  C34: \<open>sdsrange\<close> keeps the bytes from \<open>start\<close> to \<open>end\<close>, both included, for all indices.
\<close>

theorem sdsrange_nths:
  "sdsrange s a b =
    nths s {i. range_index (length s) a \<le> int i \<and> int i \<le> range_index (length s) b}"
proof (cases "s = []")
  case False
  define x where "x = range_index (length s) a"
  define y where "y = range_index (length s) b"
  have xy: "0 \<le> x" "0 \<le> y" by (simp_all add: x_def y_def range_index_def)
  have n: "0 < int (length s)" using False by simp
  define e where "e = min y (int (length s) - 1)"
  have "sdsrange s a b = (if x \<le> y \<and> x < int (length s) then take (nat (e - x + 1)) (drop (nat x) s) else [])"
    using False n unfolding sdsrange_def Let_def x_def y_def e_def range_index_def
    by (auto simp: max_def min_def)
  also have "\<dots> = nths s {i. x \<le> int i \<and> int i \<le> y}"
  proof (cases "x \<le> y \<and> x < int (length s)")
    case True
    then show ?thesis using xy
      by (simp add: take_drop_nths) (intro nths_cong_set, auto simp: e_def)
  next
    case c: False
    have "nths s {i. x \<le> int i \<and> int i \<le> y} = nths s {}"
      using c by (intro nths_cong_set) auto
    then show ?thesis using c by (simp only: if_False nths_empty)
  qed
  finally show ?thesis by (simp add: x_def y_def)
qed (simp add: sdsrange_def)

end
