(* ===== verification/SdsBuf.thy ===== *)
theory SdsBuf
  imports Sds
begin

text \<open>
  The memory of dynamic strings, \<open>src/sds.h\<close> and the allocating operations of \<open>src/sds.c\<close>: the
  flags byte in front of the text, the length and allocation fields at the width of the header
  type, and the bytes behind the header, terminator included. The content of fresh memory is
  the argument \<open>junk\<close>; sizes are computed modulo \<open>2 ^ 64\<close> as \<open>size_t\<close> does; an access outside
  the allocation, or a failed assertion, is \<open>None\<close>. The allocator itself aborts rather than
  return NULL.
\<close>

section \<open>Headers\<close>

record sds =
  sh_flags :: u8
  sh_len :: nat
  sh_alloc :: nat
  sh_buf :: bytes

definition SDS_MAX_PREALLOC :: nat where "SDS_MAX_PREALLOC = 1024 * 1024"

definition sds_type :: "sds \<Rightarrow> nat" where
  "sds_type s = unat (sh_flags s AND 7)"

definition SDS_TYPE_5_LEN :: "u8 \<Rightarrow> nat" where
  "SDS_TYPE_5_LEN f = unat (drop_bit 3 f)"

text \<open>The width of the header fields of the types 8 to 64.\<close>

definition hdr_bits :: "nat \<Rightarrow> nat" where
  "hdr_bits t = (if t = 1 then 8 else if t = 2 then 16 else if t = 3 then 32 else 64)"

definition sdsHdrSize :: "nat \<Rightarrow> nat" where
  "sdsHdrSize t = (if t = 0 then 1 else if t = 1 then 3 else if t = 2 then 5 else if t = 3 then 9
     else if t = 4 then 17 else 0)"

definition sdsReqType :: "nat \<Rightarrow> nat" where
  "sdsReqType string_size =
     (if string_size < 2 ^ 5 then 0 else if string_size < 2 ^ 8 then 1
      else if string_size < 2 ^ 16 then 2 else if string_size < 2 ^ 32 then 3 else 4)"

definition sdslen :: "sds \<Rightarrow> nat" where
  "sdslen s = (if sds_type s = 0 then SDS_TYPE_5_LEN (sh_flags s)
     else if sds_type s \<le> 4 then sh_len s else 0)"

definition sdsalloc :: "sds \<Rightarrow> nat" where
  "sdsalloc s = (if sds_type s = 0 then SDS_TYPE_5_LEN (sh_flags s)
     else if sds_type s \<le> 4 then sh_alloc s else 0)"

text \<open>The difference is an \<open>int\<close> for the two narrow types, converted to \<open>size_t\<close>.\<close>

definition sdsavail :: "sds \<Rightarrow> nat" where
  "sdsavail s = (if sds_type s = 0 then 0
     else if sds_type s = 3 then nat ((int (sh_alloc s) - int (sh_len s)) mod 2 ^ 32)
     else if sds_type s \<le> 4 then nat ((int (sh_alloc s) - int (sh_len s)) mod 2 ^ 64) else 0)"

definition sdssetlen :: "sds \<Rightarrow> nat \<Rightarrow> sds" where
  "sdssetlen s newlen =
     (if sds_type s = 0 then s\<lparr>sh_flags := push_bit 3 (of_nat newlen)\<rparr>
      else if sds_type s \<le> 4 then s\<lparr>sh_len := newlen mod 2 ^ hdr_bits (sds_type s)\<rparr> else s)"

definition sdsinclen :: "sds \<Rightarrow> nat \<Rightarrow> sds" where
  "sdsinclen s inc =
     (if sds_type s = 0 then
        s\<lparr>sh_flags := push_bit 3 (of_nat ((SDS_TYPE_5_LEN (sh_flags s) + inc) mod 256))\<rparr>
      else if sds_type s \<le> 4 then
        s\<lparr>sh_len := (sh_len s + inc) mod 2 ^ hdr_bits (sds_type s)\<rparr> else s)"

definition sdssetalloc :: "sds \<Rightarrow> nat \<Rightarrow> sds" where
  "sdssetalloc s newlen =
     (if sds_type s = 0 then s
      else if sds_type s \<le> 4 then s\<lparr>sh_alloc := newlen mod 2 ^ hdr_bits (sds_type s)\<rparr> else s)"

section \<open>Memory\<close>

text \<open>The room behind a header of \<open>hdrlen\<close> bytes in an allocation for \<open>n\<close> bytes and a NUL.\<close>

definition room_behind :: "nat \<Rightarrow> nat \<Rightarrow> nat option" where
  "room_behind hdrlen n =
     (let total = (hdrlen + n + 1) mod 2 ^ 64 in if total < hdrlen then None else Some (total - hdrlen))"

definition fresh :: "(nat \<Rightarrow> u8) \<Rightarrow> nat \<Rightarrow> bytes" where
  "fresh junk n = map junk [0..<n]"

definition realloc :: "(nat \<Rightarrow> u8) \<Rightarrow> bytes \<Rightarrow> nat \<Rightarrow> bytes" where
  "realloc junk buf n = take n buf @ map junk [length buf..<n]"

text \<open>\<open>memcpy\<close> of \<open>t\<close> to offset \<open>off\<close> of the buffer.\<close>

definition sds_write_at :: "nat \<Rightarrow> bytes \<Rightarrow> bytes \<Rightarrow> bytes option" where
  "sds_write_at off t buf =
     (if off + length t \<le> length buf then Some (take off buf @ t @ drop (off + length t) buf) else None)"

definition write_sds :: "nat \<Rightarrow> bytes \<Rightarrow> sds \<Rightarrow> sds option" where
  "write_sds off t s = map_option (\<lambda>b. s\<lparr>sh_buf := b\<rparr>) (sds_write_at off t (sh_buf s))"

section \<open>Operations\<close>

text \<open>The \<open>init\<close> pointer of \<open>sdsnewlen\<close>: NULL, \<open>SDS_NOINIT\<close>, or bytes.\<close>

datatype sds_init = Null_init | No_init | Init bytes

definition sdsnewlen :: "(nat \<Rightarrow> u8) \<Rightarrow> sds_init \<Rightarrow> nat \<Rightarrow> sds option" where
  "sdsnewlen junk init initlen =
     (let type = sdsReqType initlen;
          type = (if type = 0 \<and> initlen = 0 then 1 else type);
          hdrlen = sdsHdrSize type
      in case room_behind hdrlen initlen of
           None \<Rightarrow> None
         | Some room \<Rightarrow>
             let buf = (if init = Null_init then replicate room 0 else fresh junk room);
                 s = (if type = 0 then
                        \<lparr>sh_flags = push_bit 3 (of_nat initlen), sh_len = 0, sh_alloc = 0, sh_buf = buf\<rparr>
                      else
                        \<lparr>sh_flags = of_nat type, sh_len = initlen mod 2 ^ hdr_bits type,
                         sh_alloc = initlen mod 2 ^ hdr_bits type, sh_buf = buf\<rparr>)
             in Option.bind
                  (case init of
                     Init t \<Rightarrow>
                       if initlen = 0 then Some s
                       else if initlen \<le> length t then write_sds 0 (take initlen t) s else None
                   | _ \<Rightarrow> Some s)
                  (write_sds initlen [0]))"

definition sdsempty :: "(nat \<Rightarrow> u8) \<Rightarrow> sds option" where
  "sdsempty junk = sdsnewlen junk (Init []) 0"

definition sdsnew :: "(nat \<Rightarrow> u8) \<Rightarrow> bytes option \<Rightarrow> sds option" where
  "sdsnew junk init =
     (case init of
        None \<Rightarrow> sdsnewlen junk Null_init 0
      | Some t \<Rightarrow> sdsnewlen junk (Init t) (length (takeWhile (\<lambda>c. c \<noteq> 0) t)))"

definition sdsdup :: "(nat \<Rightarrow> u8) \<Rightarrow> sds \<Rightarrow> sds option" where
  "sdsdup junk s = sdsnewlen junk (Init (sh_buf s)) (sdslen s)"

definition sdsupdatelen :: "sds \<Rightarrow> sds option" where
  "sdsupdatelen s =
     (let reallen = length (takeWhile (\<lambda>c. c \<noteq> 0) (sh_buf s))
      in if reallen = length (sh_buf s) then None else Some (sdssetlen s reallen))"

definition sdsclear :: "sds \<Rightarrow> sds option" where
  "sdsclear s = write_sds 0 [0] (sdssetlen s 0)"

text \<open>The string moves to a header of another type: its bytes and its NUL are copied.\<close>

definition move_sds :: "(nat \<Rightarrow> u8) \<Rightarrow> sds \<Rightarrow> nat \<Rightarrow> nat \<Rightarrow> sds option" where
  "move_sds junk s type newlen =
     (let len = sdslen s
      in case room_behind (sdsHdrSize type) newlen of
           None \<Rightarrow> None
         | Some room \<Rightarrow>
             if length (sh_buf s) < len + 1 then None
             else map_option (\<lambda>buf. sdssetlen \<lparr>sh_flags = of_nat type, sh_len = 0, sh_alloc = 0, sh_buf = buf\<rparr> len)
                    (sds_write_at 0 (take (len + 1) (sh_buf s)) (fresh junk room)))"

definition sdsMakeRoomFor :: "(nat \<Rightarrow> u8) \<Rightarrow> sds \<Rightarrow> nat \<Rightarrow> sds option" where
  "sdsMakeRoomFor junk s addlen =
     (let avail = sdsavail s; oldtype = sds_type s
      in if avail \<ge> addlen then Some s
         else
           let len = sdslen s;
               newlen = (len + addlen) mod 2 ^ 64;
               newlen = (if newlen < SDS_MAX_PREALLOC then newlen * 2
                         else (newlen + SDS_MAX_PREALLOC) mod 2 ^ 64);
               type = sdsReqType newlen;
               type = (if type = 0 then 1 else type);
               hdrlen = sdsHdrSize type
           in map_option (\<lambda>s. sdssetalloc s newlen)
                (if oldtype = type then
                   map_option (\<lambda>room. s\<lparr>sh_buf := realloc junk (sh_buf s) room\<rparr>) (room_behind hdrlen newlen)
                 else move_sds junk s type newlen))"

definition sdsRemoveFreeSpace :: "(nat \<Rightarrow> u8) \<Rightarrow> sds \<Rightarrow> sds option" where
  "sdsRemoveFreeSpace junk s =
     (let oldtype = sds_type s; oldhdrlen = sdsHdrSize oldtype; len = sdslen s; avail = sdsavail s
      in if avail = 0 then Some s
         else
           let type = sdsReqType len; hdrlen = sdsHdrSize type
           in map_option (\<lambda>s. sdssetalloc s len)
                (if oldtype = type \<or> type > 1 then
                   map_option (\<lambda>room. s\<lparr>sh_buf := realloc junk (sh_buf s) room\<rparr>) (room_behind oldhdrlen len)
                 else move_sds junk s type len))"

definition sdsAllocSize :: "sds \<Rightarrow> nat" where
  "sdsAllocSize s = (sdsHdrSize (sds_type s) + sdsalloc s + 1) mod 2 ^ 64"

text \<open>The assertion of \<open>sdsIncrLen\<close>, with the conversions of each header type.\<close>

definition incr_ok :: "sds \<Rightarrow> int \<Rightarrow> bool" where
  "incr_ok s incr =
     (let len = int (sdslen s); free = int (sh_alloc s) - int (sh_len s)
      in if sds_type s = 0 then
           (incr > 0 \<and> len + incr < 32) \<or> (incr < 0 \<and> len \<ge> (- incr) mod 2 ^ 32)
         else if sds_type s = 3 then
           (incr \<ge> 0 \<and> free mod 2 ^ 32 \<ge> incr mod 2 ^ 32) \<or> (incr < 0 \<and> len \<ge> (- incr) mod 2 ^ 32)
         else if sds_type s = 4 then
           (incr \<ge> 0 \<and> free mod 2 ^ 64 \<ge> incr mod 2 ^ 64) \<or> (incr < 0 \<and> len \<ge> (- incr) mod 2 ^ 64)
         else (incr \<ge> 0 \<and> free \<ge> incr) \<or> (incr < 0 \<and> len \<ge> (- incr) mod 2 ^ 32))"

definition sdsIncrLen :: "sds \<Rightarrow> int \<Rightarrow> sds option" where
  "sdsIncrLen s incr =
     (if sds_type s > 4 then write_sds 0 [0] s
      else if \<not> incr_ok s incr then None
      else if sds_type s = 0 then
        let len = nat ((int (sdslen s) + incr) mod 2 ^ 64)
        in write_sds len [0] (s\<lparr>sh_flags := push_bit 3 (of_nat len)\<rparr>)
      else
        let len = nat ((int (sh_len s) + incr) mod 2 ^ hdr_bits (sds_type s))
        in write_sds len [0] (s\<lparr>sh_len := len\<rparr>))"

definition sdsgrowzero :: "(nat \<Rightarrow> u8) \<Rightarrow> sds \<Rightarrow> nat \<Rightarrow> sds option" where
  "sdsgrowzero junk s len =
     (let curlen = sdslen s
      in if len \<le> curlen then Some s
         else
           Option.bind (sdsMakeRoomFor junk s (len - curlen)) (\<lambda>s.
           Option.bind (write_sds curlen (replicate (len - curlen + 1) 0) s) (\<lambda>s.
           Some (sdssetlen s len))))"

definition sdscatlen :: "(nat \<Rightarrow> u8) \<Rightarrow> sds \<Rightarrow> bytes \<Rightarrow> sds option" where
  "sdscatlen junk s t =
     (let len = length t; curlen = sdslen s
      in Option.bind (sdsMakeRoomFor junk s len) (\<lambda>s.
         Option.bind (write_sds curlen t s) (\<lambda>s.
         write_sds (curlen + len) [0] (sdssetlen s (curlen + len)))))"

definition sdscat :: "(nat \<Rightarrow> u8) \<Rightarrow> sds \<Rightarrow> bytes \<Rightarrow> sds option" where
  "sdscat junk s t = sdscatlen junk s (takeWhile (\<lambda>c. c \<noteq> 0) t)"

definition sdscatsds :: "(nat \<Rightarrow> u8) \<Rightarrow> sds \<Rightarrow> sds \<Rightarrow> sds option" where
  "sdscatsds junk s t = sdscatlen junk s (take (sdslen t) (sh_buf t))"

definition sdscpylen :: "(nat \<Rightarrow> u8) \<Rightarrow> sds \<Rightarrow> bytes \<Rightarrow> sds option" where
  "sdscpylen junk s t =
     (let len = length t
      in Option.bind
           (if sdsalloc s < len then
              sdsMakeRoomFor junk s (nat ((int len - int (sdslen s)) mod 2 ^ 64)) else Some s) (\<lambda>s.
         Option.bind (write_sds 0 t s) (\<lambda>s.
         Option.bind (write_sds len [0] s) (\<lambda>s.
         Some (sdssetlen s len)))))"

definition sdscpy :: "(nat \<Rightarrow> u8) \<Rightarrow> sds \<Rightarrow> bytes \<Rightarrow> sds option" where
  "sdscpy junk s t = sdscpylen junk s (takeWhile (\<lambda>c. c \<noteq> 0) t)"


section \<open>Representation invariant\<close>

definition hdr_ok :: "sds \<Rightarrow> bool" where
  "hdr_ok s \<longleftrightarrow> sds_type s \<le> 4 \<and> sdsalloc s < length (sh_buf s) \<and>
     (sds_type s > 0 \<longrightarrow> sh_alloc s < 2 ^ hdr_bits (sds_type s) \<and> sh_alloc s + 19 \<le> 2 ^ 64)"

definition sds_ok :: "sds \<Rightarrow> bool" where
  "sds_ok s \<longleftrightarrow> hdr_ok s \<and> sdslen s \<le> sdsalloc s \<and> sh_buf s ! sdslen s = 0"

definition sds_str :: "sds \<Rightarrow> bytes" where
  "sds_str s = take (sdslen s) (sh_buf s)"

lemma and7: "unat ((x :: u8) AND 7) = unat x mod 8"
proof -
  have "x AND 7 = take_bit 3 x" by (simp add: take_bit_eq_mask mask_eq_exp_minus_1)
  then show ?thesis by (simp add: take_bit_eq_mod unat_mod)
qed

lemma unat_shift3: "unat (push_bit 3 (of_nat n :: u8)) = n * 8 mod 256"
  by (simp add: push_bit_eq_mult unat_word_ariths unat_of_nat take_bit_eq_mod mod_mult_right_eq
      mult.commute)

lemma sds_type_simps [simp]:
  "sds_type (s\<lparr>sh_len := a\<rparr>) = sds_type s" "sds_type (s\<lparr>sh_alloc := a\<rparr>) = sds_type s"
  "sds_type (s\<lparr>sh_buf := b\<rparr>) = sds_type s"
  by (simp_all add: sds_type_def)

lemma sdsalloc_buf [simp]:
  "sdsalloc (s\<lparr>sh_buf := b\<rparr>) = sdsalloc s" "sdslen (s\<lparr>sh_buf := b\<rparr>) = sdslen s"
  by (simp_all add: sdsalloc_def sdslen_def)

lemma sds_type_shift3: "unat (push_bit 3 (of_nat n) AND (7 :: u8)) = 0"
proof -
  have "n * 8 mod 256 mod 8 = 0" by (simp add: mod_mod_cancel)
  then show ?thesis by (simp only: and7 unat_shift3)
qed

lemma sds_type_of_nat: "t < 8 \<Longrightarrow> unat (of_nat t AND (7 :: u8)) = t"
  by (simp add: and7 unat_of_nat_u8)

lemma TYPE_5_LEN_div: "SDS_TYPE_5_LEN f = unat f div 8"
  by (simp add: SDS_TYPE_5_LEN_def drop_bit_eq_div unat_div)

lemma TYPE_5_LEN_shift3: "n < 32 \<Longrightarrow> SDS_TYPE_5_LEN (push_bit 3 (of_nat n)) = n"
  by (simp add: TYPE_5_LEN_div unat_shift3)

lemma TYPE_5_LEN_bound: "SDS_TYPE_5_LEN f < 32"
proof -
  have "unat f < 256" by (rule order_less_le_trans [OF unsigned_less]) simp
  then show ?thesis
    by (simp add: TYPE_5_LEN_div)
qed

lemma hdr_bits_cases: "hdr_bits t \<in> {8, 16, 32, 64}"
  by (simp add: hdr_bits_def)

lemma sdssetlen_simps [simp]:
  "sh_buf (sdssetlen s n) = sh_buf s" "sh_alloc (sdssetlen s n) = sh_alloc s"
  "sds_type (sdssetlen s n) = sds_type s"
  by (simp_all add: sdssetlen_def sds_type_def sds_type_shift3)

lemma sdssetalloc_simps [simp]:
  "sh_buf (sdssetalloc s n) = sh_buf s" "sh_len (sdssetalloc s n) = sh_len s"
  "sh_flags (sdssetalloc s n) = sh_flags s"
  "sds_type (sdssetalloc s n) = sds_type s" "sdslen (sdssetalloc s n) = sdslen s"
  by (simp_all add: sdssetalloc_def sds_type_def sdslen_def)

text \<open>What a length must satisfy to be stored in the header of type \<open>t\<close>.\<close>

definition hdr_fits :: "nat \<Rightarrow> nat \<Rightarrow> bool" where
  "hdr_fits t n \<longleftrightarrow> n < (if t = 0 then 32 else 2 ^ hdr_bits t)"

lemma fits_req: "n < 2 ^ 64 \<Longrightarrow> hdr_fits (sdsReqType n) n \<and> sdsReqType n \<le> 4"
  by (simp add: hdr_fits_def sdsReqType_def hdr_bits_def)

lemma sdslen_setlen: "\<lbrakk>sds_type s \<le> 4; hdr_fits (sds_type s) n\<rbrakk> \<Longrightarrow> sdslen (sdssetlen s n) = n"
  unfolding sdslen_def sdssetlen_simps(3)
  by (auto simp: sdssetlen_def hdr_fits_def TYPE_5_LEN_shift3)

lemma sdsalloc_setlen:
  "sds_type s \<le> 4 \<Longrightarrow> sdsalloc (sdssetlen s n) = (if sds_type s = 0 then sdslen (sdssetlen s n) else sh_alloc s)"
  by (simp add: sdsalloc_def sdslen_def)

lemma sdsalloc_setalloc:
  "\<lbrakk>0 < sds_type s; sds_type s \<le> 4; hdr_fits (sds_type s) n\<rbrakk> \<Longrightarrow> sdsalloc (sdssetalloc s n) = n"
  by (simp add: sdsalloc_def sdssetalloc_def hdr_fits_def)

lemma hdr_ok_fits: "\<lbrakk>hdr_ok s; n \<le> sdsalloc s\<rbrakk> \<Longrightarrow> hdr_fits (sds_type s) n"
  using TYPE_5_LEN_bound [of "sh_flags s"]
  by (auto simp: hdr_ok_def hdr_fits_def sdsalloc_def split: if_splits)

text \<open>The last step of the operations: the new length is stored over a buffer that ends in NUL.\<close>

lemma sds_ok_setlen:
  assumes h: "hdr_ok s" and n: "n \<le> sdsalloc s" "sh_buf s ! n = 0"
  shows "sds_ok (sdssetlen s n)" "sds_str (sdssetlen s n) = take n (sh_buf s)"
    "sdslen (sdssetlen s n) = n"
proof -
  have t: "sds_type s \<le> 4" using h by (simp add: hdr_ok_def)
  show l: "sdslen (sdssetlen s n) = n"
    using sdslen_setlen [OF t hdr_ok_fits [OF h n(1)]] .
  have "n \<le> sdsalloc (sdssetlen s n)" "sdsalloc (sdssetlen s n) < length (sh_buf s)"
    using h n l t unfolding sdsalloc_setlen [OF t]
    by (auto simp: hdr_ok_def sdsalloc_def split: if_splits)
  then show "sds_ok (sdssetlen s n)"
    using h n l by (simp add: sds_ok_def hdr_ok_def)
  show "sds_str (sdssetlen s n) = take n (sh_buf s)" by (simp add: sds_str_def l)
qed

lemma sdsavail_ok: "sds_ok s \<Longrightarrow> sdsavail s = sdsalloc s - sdslen s"
proof -
  assume ok: "sds_ok s"
  show ?thesis
  proof (cases "sds_type s = 0")
    case False
    then have t: "sds_type s \<le> 4" "sh_len s \<le> sh_alloc s" "sh_alloc s < 2 ^ hdr_bits (sds_type s)"
      "sh_alloc s < 2 ^ 64"
      using ok by (auto simp: sds_ok_def hdr_ok_def sdsalloc_def sdslen_def)
    define d where "d = sh_alloc s - sh_len s"
    have d: "int (sh_alloc s) - int (sh_len s) = int d" using t(2) by (simp add: d_def)
    have "int d mod 2 ^ 64 = int d" using t(4) by (simp add: d_def)
    moreover have "int d mod 2 ^ 32 = int d" if "sds_type s = 3"
      using t(3) that by (simp add: d_def hdr_bits_def)
    ultimately show ?thesis
      using t(1) False by (simp add: sdsavail_def sdsalloc_def sdslen_def d d_def)
  qed (simp add: sdsavail_def sdsalloc_def sdslen_def)
qed

lemma write_sds_Some:
  "off + length t \<le> length (sh_buf s) \<Longrightarrow>
   write_sds off t s = Some (s\<lparr>sh_buf := take off (sh_buf s) @ t @ drop (off + length t) (sh_buf s)\<rparr>)"
  by (simp add: write_sds_def sds_write_at_def)

lemma room_behind_Some:
  "hdrlen + n + 1 < 2 ^ 64 \<Longrightarrow> room_behind hdrlen n = Some (n + 1)"
  by (simp add: room_behind_def)

lemma sdsHdrSize_bound: "sdsHdrSize t \<le> 17"
  by (simp add: sdsHdrSize_def)

lemma realloc_nth: "\<lbrakk>i < length buf; i < n\<rbrakk> \<Longrightarrow> realloc junk buf n ! i = buf ! i"
  by (simp add: realloc_def nth_append)

lemma realloc_length [simp]: "length (realloc junk buf n) = n"
  by (simp add: realloc_def)

lemma fresh_length [simp]: "length (fresh junk n) = n"
  by (simp add: fresh_def)


lemma move_sds_ok:
  assumes ok: "sds_ok s" and t: "t \<le> 4" "sdslen s \<le> n" "hdr_fits t n" "n + 19 \<le> 2 ^ 64"
    and t0: "t = 0 \<longrightarrow> n = sdslen s"
  obtains s' where "move_sds junk s t n = Some s'" "sds_type s' = t" "sdslen s' = sdslen s"
    "length (sh_buf s') = n + 1" "take (sdslen s + 1) (sh_buf s') = take (sdslen s + 1) (sh_buf s)"
proof -
  define len where "len = sdslen s"
  have l: "len + 1 \<le> length (sh_buf s)"
    using ok by (simp add: sds_ok_def hdr_ok_def len_def)
  have room: "room_behind (sdsHdrSize t) n = Some (n + 1)"
    using t(4) sdsHdrSize_bound [of t] by (intro room_behind_Some) simp
  define buf where "buf = take (len + 1) (sh_buf s) @ drop (len + 1) (fresh junk (n + 1))"
  let ?s = "\<lparr>sh_flags = of_nat t, sh_len = 0, sh_alloc = 0, sh_buf = buf\<rparr>"
  have ty: "sds_type ?s = t" using t(1) by (simp add: sds_type_def sds_type_of_nat)
  have "sds_write_at 0 (take (len + 1) (sh_buf s)) (fresh junk (n + 1)) = Some buf"
    using l t(2) by (simp add: sds_write_at_def buf_def len_def min_def)
  then have "move_sds junk s t n = Some (sdssetlen ?s len)"
    using room l unfolding move_sds_def len_def [symmetric] Let_def by simp
  moreover have "sds_type (sdssetlen ?s len) = t" using ty by simp
  moreover have "hdr_fits t len"
    using t(2,3) by (auto simp: hdr_fits_def len_def)
  then have "sdslen (sdssetlen ?s len) = len" using sdslen_setlen [of ?s len] ty t(1) by simp
  moreover have "length buf = n + 1" using l t(2) by (simp add: buf_def len_def min_def)
  moreover have "take (len + 1) buf = take (len + 1) (sh_buf s)" using l by (simp add: buf_def)
  ultimately show ?thesis using that unfolding len_def by simp
qed

lemma sds_ok_resized:
  assumes ok: "sds_ok s" and s': "sds_type s' = t" "sdslen s' = sdslen s"
    "length (sh_buf s') = n + 1" "take (sdslen s + 1) (sh_buf s') = take (sdslen s + 1) (sh_buf s)"
    and n: "t \<le> 4" "hdr_fits t n" "sdslen s \<le> n" "n + 19 \<le> 2 ^ 64" "t = 0 \<longrightarrow> n = sdslen s"
  shows "sds_ok (sdssetalloc s' n)" "sds_str (sdssetalloc s' n) = sds_str s"
    "sdslen (sdssetalloc s' n) = sdslen s" "sdsalloc (sdssetalloc s' n) = n"
proof -
  show alloc: "sdsalloc (sdssetalloc s' n) = n"
  proof (cases "t = 0")
    case True
    then show ?thesis using s' n(5) by (simp add: sdsalloc_def sdslen_def sdssetalloc_def)
  next
    case False
    then show ?thesis using s'(1) n by (intro sdsalloc_setalloc) simp_all
  qed
  show len: "sdslen (sdssetalloc s' n) = sdslen s" using s'(2) by simp
  have nul: "sh_buf s' ! sdslen s = 0"
  proof -
    have "sh_buf s' ! sdslen s = take (sdslen s + 1) (sh_buf s') ! sdslen s" by simp
    also have "\<dots> = sh_buf s ! sdslen s" unfolding s'(4) by simp
    finally show ?thesis using ok by (simp add: sds_ok_def)
  qed
  have "sh_alloc (sdssetalloc s' n) = n" if "t > 0"
    using alloc that s'(1) n(1) by (simp add: sdsalloc_def)
  then have "hdr_ok (sdssetalloc s' n)"
    using s' n alloc by (auto simp: hdr_ok_def hdr_fits_def)
  then show "sds_ok (sdssetalloc s' n)"
    using nul s' n alloc len by (simp add: sds_ok_def)
  have "take (sdslen s) (sh_buf s') = take (sdslen s) (sh_buf s)"
    using s'(4) by (metis add_diff_cancel_right' diff_le_self take_take min.absorb1)
  then show "sds_str (sdssetalloc s' n) = sds_str s"
    using s' by (simp add: sds_str_def)
qed

lemma sdsMakeRoomFor_ok:
  assumes ok: "sds_ok s" and add: "sdslen s + addlen + SDS_MAX_PREALLOC + 19 \<le> 2 ^ 64"
  obtains s' where "sdsMakeRoomFor junk s addlen = Some s'" "sds_ok s'" "sds_str s' = sds_str s"
    "sdslen s' = sdslen s" "sdslen s + addlen \<le> sdsalloc s'"
proof (cases "sdsavail s \<ge> addlen")
  case True
  then have "sdsMakeRoomFor junk s addlen = Some s" by (simp add: sdsMakeRoomFor_def)
  moreover have "sdslen s + addlen \<le> sdsalloc s"
    using True ok sdsavail_ok [OF ok] by (auto simp: sds_ok_def)
  ultimately show ?thesis using that ok by blast
next
  case False
  define len where "len = sdslen s"
  define newlen where "newlen = (if len + addlen < SDS_MAX_PREALLOC then (len + addlen) * 2
      else len + addlen + SDS_MAX_PREALLOC)"
  define t where "t = (if sdsReqType newlen = 0 then 1 else sdsReqType newlen)"
  have nl: "len + addlen \<le> newlen" "newlen + 19 \<le> 2 ^ 64"
    using add by (auto simp: newlen_def len_def SDS_MAX_PREALLOC_def)
  have "hdr_fits (sdsReqType newlen) newlen" "sdsReqType newlen \<le> 4"
    using fits_req [of newlen] nl(2) by auto
  then have t: "0 < t" "t \<le> 4" "hdr_fits t newlen"
    by (auto simp: t_def hdr_fits_def hdr_bits_def split: if_splits)
  have mod: "(len + addlen) mod 2 ^ 64 = len + addlen"
    "(len + addlen + SDS_MAX_PREALLOC) mod 2 ^ 64 = len + addlen + SDS_MAX_PREALLOC"
    using add by (simp_all add: len_def SDS_MAX_PREALLOC_def)
  have step: "sdsMakeRoomFor junk s addlen = map_option (\<lambda>s. sdssetalloc s newlen)
      (if sds_type s = t then map_option (\<lambda>room. s\<lparr>sh_buf := realloc junk (sh_buf s) room\<rparr>)
        (room_behind (sdsHdrSize t) newlen) else move_sds junk s t newlen)"
    using False unfolding sdsMakeRoomFor_def Let_def len_def [symmetric] mod newlen_def [symmetric]
      t_def [symmetric] by simp
  have lb: "len < length (sh_buf s)"
    using ok by (simp add: sds_ok_def hdr_ok_def len_def)
  obtain s' where s': "sdsMakeRoomFor junk s addlen = Some (sdssetalloc s' newlen)"
    "sds_type s' = t" "sdslen s' = len" "length (sh_buf s') = newlen + 1"
    "take (len + 1) (sh_buf s') = take (len + 1) (sh_buf s)"
  proof (cases "sds_type s = t")
    case True
    have "room_behind (sdsHdrSize t) newlen = Some (newlen + 1)"
      using nl(2) sdsHdrSize_bound [of t] by (intro room_behind_Some) simp
    then show ?thesis
      using that [of "s\<lparr>sh_buf := realloc junk (sh_buf s) (newlen + 1)\<rparr>"] True step nl(1) lb
      by (simp add: sdslen_def len_def realloc_def)
  next
    case False
    obtain s' where "move_sds junk s t newlen = Some s'" "sds_type s' = t" "sdslen s' = sdslen s"
      "length (sh_buf s') = newlen + 1"
      "take (sdslen s + 1) (sh_buf s') = take (sdslen s + 1) (sh_buf s)"
      using move_sds_ok [OF ok t(2) _ t(3) nl(2)] nl(1) t(1) unfolding len_def by auto
    then show ?thesis using that [of s'] False step by (simp add: len_def)
  qed
  have "len \<le> newlen" using nl(1) by simp
  note r = sds_ok_resized [OF ok s'(2) s'(3-5) [unfolded len_def] t(2,3) this [unfolded len_def] nl(2)]
  show ?thesis
    using that [OF s'(1)] r t(1) nl(1) by (simp add: len_def)
qed


section \<open>The operations on the text\<close>

text \<open>Storing bytes and a NUL behind them in a buffer with room for both.\<close>

lemma hdr_ok_buf: "\<lbrakk>hdr_ok s; length b = length (sh_buf s)\<rbrakk> \<Longrightarrow> hdr_ok (s\<lparr>sh_buf := b\<rparr>)"
  by (simp add: hdr_ok_def)

lemma write_tail:
  assumes ok: "sds_ok s" and off: "off \<le> sdslen s" and room: "off + length t \<le> sdsalloc s"
    and w: "write_sds off t s = Some s1"
  shows "\<exists>s2. write_sds (off + length t) [0] (sdssetlen s1 (off + length t)) = Some s2 \<and>
      sds_ok s2 \<and> sds_str s2 = take off (sds_str s) @ t"
    "\<exists>s3. write_sds (off + length t) [0] s1 = Some s3 \<and>
      sds_ok (sdssetlen s3 (off + length t)) \<and>
      sds_str (sdssetlen s3 (off + length t)) = take off (sds_str s) @ t"
proof -
  let ?n = "off + length t"
  define b1 where "b1 = take off (sh_buf s) @ t @ drop ?n (sh_buf s)"
  define b2 where "b2 = take ?n b1 @ [0] @ drop (?n + 1) b1"
  have lb: "?n < length (sh_buf s)" using ok room by (simp add: sds_ok_def hdr_ok_def)
  then have lb1: "length b1 = length (sh_buf s)" by (simp add: b1_def)
  have s1: "s1 = s\<lparr>sh_buf := b1\<rparr>" using w lb by (simp add: write_sds_Some b1_def)
  let ?s2 = "s\<lparr>sh_buf := b2\<rparr>"
  have "length b2 = length (sh_buf s)" using lb lb1 by (simp add: b2_def)
  then have "hdr_ok ?s2" using ok by (intro hdr_ok_buf) (simp_all add: sds_ok_def)
  moreover have "?n \<le> sdsalloc ?s2" using room by simp
  moreover have "sh_buf ?s2 ! ?n = 0" using lb lb1 by (simp add: b2_def nth_append)
  ultimately have r: "sds_ok (sdssetlen ?s2 ?n)" "sds_str (sdssetlen ?s2 ?n) = take ?n b2"
    using sds_ok_setlen [of ?s2 ?n] by simp_all
  have str: "take ?n b2 = take off (sds_str s) @ t"
    using lb lb1 off by (simp add: b2_def b1_def sds_str_def min_def)
  have w3: "write_sds ?n [0] s1 = Some ?s2"
    using lb lb1 by (simp add: s1 write_sds_Some b2_def)
  have comm: "sdssetlen ?s2 ?n = (sdssetlen s1 ?n)\<lparr>sh_buf := b2\<rparr>"
    by (simp add: s1 sdssetlen_def)
  have w2: "write_sds ?n [0] (sdssetlen s1 ?n) = Some (sdssetlen ?s2 ?n)"
    unfolding comm using lb lb1 by (simp add: s1 write_sds_Some b2_def)
  show "\<exists>s2. write_sds ?n [0] (sdssetlen s1 ?n) = Some s2 \<and>
      sds_ok s2 \<and> sds_str s2 = take off (sds_str s) @ t"
    using w2 r str by auto
  show "\<exists>s3. write_sds ?n [0] s1 = Some s3 \<and> sds_ok (sdssetlen s3 ?n) \<and>
      sds_str (sdssetlen s3 ?n) = take off (sds_str s) @ t"
    using w3 r str by auto
qed

lemma write_sds_ex:
  assumes "sds_ok s" "off + length t \<le> sdsalloc s"
  obtains s1 where "write_sds off t s = Some s1"
  using assms by (simp add: write_sds_def sds_write_at_def sds_ok_def hdr_ok_def)

lemma sdslen_str [simp]: "sds_ok s \<Longrightarrow> length (sds_str s) = sdslen s"
  by (simp add: sds_str_def sds_ok_def hdr_ok_def)

lemma take_sds_str [simp]: "sds_ok s \<Longrightarrow> sdslen s \<le> n \<Longrightarrow> take n (sds_str s) = sds_str s"
  by (simp add: sds_str_def min_def)

lemma sdscatlen_ok:
  assumes ok: "sds_ok s" and add: "sdslen s + length t + SDS_MAX_PREALLOC + 19 \<le> 2 ^ 64"
  shows "\<exists>s'. sdscatlen junk s t = Some s' \<and> sds_ok s' \<and> sds_str s' = sds_str s @ t"
proof -
  obtain r where r: "sdsMakeRoomFor junk s (length t) = Some r" "sds_ok r" "sds_str r = sds_str s"
    "sdslen r = sdslen s" "sdslen s + length t \<le> sdsalloc r"
    using sdsMakeRoomFor_ok [OF ok add] .
  obtain s1 where w: "write_sds (sdslen s) t r = Some s1"
    using write_sds_ex [OF r(2), of "sdslen s" t] r(5) by auto
  show ?thesis
    using write_tail(1) [OF r(2) _ _ w] r(1,2,3,4,5) w sdslen_str [OF ok]
    by (auto simp: sdscatlen_def Let_def)
qed

lemma sdscpylen_ok:
  assumes ok: "sds_ok s" and add: "length t + SDS_MAX_PREALLOC + 19 \<le> 2 ^ 64"
  shows "\<exists>s'. sdscpylen junk s t = Some s' \<and> sds_ok s' \<and> sds_str s' = t"
proof -
  let ?grow = "nat ((int (length t) - int (sdslen s)) mod 2 ^ 64)"
  obtain r where r: "(if sdsalloc s < length t then sdsMakeRoomFor junk s ?grow else Some s) = Some r"
    "sds_ok r" "length t \<le> sdsalloc r"
  proof (cases "sdsalloc s < length t")
    case True
    then have le: "sdslen s \<le> length t" using ok by (simp add: sds_ok_def)
    then have "(int (length t) - int (sdslen s)) mod 2 ^ 64 = int (length t) - int (sdslen s)"
      using add by simp
    with le have grow: "?grow = length t - sdslen s" by simp
    have "sdslen s + (length t - sdslen s) + SDS_MAX_PREALLOC + 19 \<le> 2 ^ 64"
      using add le by simp
    from sdsMakeRoomFor_ok [OF ok this, of junk] obtain r where
      r: "sdsMakeRoomFor junk s (length t - sdslen s) = Some r" "sds_ok r"
        "sdslen s + (length t - sdslen s) \<le> sdsalloc r" .
    have "(if sdsalloc s < length t then sdsMakeRoomFor junk s ?grow else Some s) = Some r"
      using True r(1) by (simp only: grow if_True)
    moreover have "length t \<le> sdsalloc r" using r(3) le by simp
    ultimately show ?thesis using that r(2) by blast
  qed (use that [of s] ok in simp)
  obtain s1 where w: "write_sds 0 t r = Some s1"
    using write_sds_ex [OF r(2), of 0 t] r(3) by auto
  show ?thesis
    using write_tail(2) [OF r(2) _ _ w] r w by (auto simp: sdscpylen_def Let_def)
qed

lemma sdsgrowzero_ok:
  assumes ok: "sds_ok s" and add: "n + SDS_MAX_PREALLOC + 19 \<le> 2 ^ 64"
  shows "\<exists>s'. sdsgrowzero junk s n = Some s' \<and> sds_ok s' \<and>
    sds_str s' = sds_str s @ replicate (n - sdslen s) 0"
proof (cases "n \<le> sdslen s")
  case False
  then have "sdslen s + (n - sdslen s) + SDS_MAX_PREALLOC + 19 \<le> 2 ^ 64" using add by simp
  from sdsMakeRoomFor_ok [OF ok this, of junk] obtain r where
    r: "sdsMakeRoomFor junk s (n - sdslen s) = Some r" "sds_ok r" "sds_str r = sds_str s"
      "sdslen r = sdslen s" "sdslen s + (n - sdslen s) \<le> sdsalloc r" .
  let ?z = "replicate (n - sdslen s) (0 :: u8) @ [0]"
  have z: "replicate (n - sdslen s + 1) (0 :: u8) = ?z" by (simp add: replicate_append_same)
  let ?b = "take (sdslen s) (sh_buf r) @ ?z @ drop (n + 1) (sh_buf r)"
  have lb: "n < length (sh_buf r)" using r(2,5) False by (simp add: sds_ok_def hdr_ok_def)
  then have w: "write_sds (sdslen s) ?z r = Some (r\<lparr>sh_buf := ?b\<rparr>)"
    using False write_sds_Some [of "sdslen s" ?z r] by simp
  let ?r = "r\<lparr>sh_buf := ?b\<rparr>"
  have "length ?b = length (sh_buf r)" using lb False by simp
  then have "hdr_ok ?r" using r(2) by (intro hdr_ok_buf) (simp_all add: sds_ok_def)
  moreover have "n \<le> sdsalloc ?r" using r(5) False by simp
  moreover have "sh_buf ?r ! n = 0" using lb False by (simp add: nth_append)
  ultimately have "sds_ok (sdssetlen ?r n)" "sds_str (sdssetlen ?r n) = take n ?b"
    using sds_ok_setlen [of ?r n] by simp_all
  moreover have "take n ?b = sds_str s @ replicate (n - sdslen s) 0"
    using lb False r(3,4) ok by (auto simp: sds_str_def sds_ok_def hdr_ok_def min_def)
  ultimately show ?thesis using r(1) w False unfolding sdsgrowzero_def Let_def z by simp
qed (use ok in \<open>simp add: sdsgrowzero_def\<close>)

lemma sdsclear_ok:
  assumes ok: "sds_ok s"
  shows "\<exists>s'. sdsclear s = Some s' \<and> sds_ok s' \<and> sds_str s' = []"
proof -
  obtain s1 where w: "write_sds 0 [] s = Some s1"
    using write_sds_ex [OF ok, of 0 "[]"] by auto
  then have "s1 = s" by (simp add: write_sds_def sds_write_at_def)
  with write_tail(1) [OF ok _ _ w] show ?thesis by (simp add: sdsclear_def)
qed

lemma sdsRemoveFreeSpace_ok:
  assumes ok: "sds_ok s"
  shows "\<exists>s'. sdsRemoveFreeSpace junk s = Some s' \<and> sds_ok s' \<and> sds_str s' = sds_str s \<and>
    sdsavail s' = 0"
proof (cases "sdsavail s = 0")
  case True
  then show ?thesis using ok by (simp add: sdsRemoveFreeSpace_def)
next
  case False
  define len where "len = sdslen s"
  define t where "t = sdsReqType len"
  have s: "0 < sds_type s" "sds_type s \<le> 4" "len \<le> sdsalloc s" "sdsalloc s + 19 \<le> 2 ^ 64"
      "len < length (sh_buf s)"
    using False ok by (auto simp: sds_ok_def hdr_ok_def sdsavail_def sdsalloc_def len_def split: if_splits)
  have t: "hdr_fits t len" "t \<le> 4" using fits_req [of len] s(3,4) by (auto simp: t_def)
  have n19: "len + 19 \<le> 2 ^ 64" using s(3,4) by simp
  have old: "hdr_fits (sds_type s) len"
    using hdr_ok_fits [of s len] ok s(3) by (simp add: sds_ok_def)
  define t' where "t' = (if sds_type s = t \<or> t > 1 then sds_type s else t)"
  have step: "sdsRemoveFreeSpace junk s = map_option (\<lambda>s. sdssetalloc s len)
      (if sds_type s = t \<or> t > 1 then map_option (\<lambda>room. s\<lparr>sh_buf := realloc junk (sh_buf s) room\<rparr>)
        (room_behind (sdsHdrSize (sds_type s)) len) else move_sds junk s t len)"
    using False unfolding sdsRemoveFreeSpace_def Let_def len_def [symmetric] t_def [symmetric] by simp
  obtain s' where s': "sdsRemoveFreeSpace junk s = Some (sdssetalloc s' len)"
    "sds_type s' = t'" "sdslen s' = sdslen s" "length (sh_buf s') = len + 1"
    "take (sdslen s + 1) (sh_buf s') = take (sdslen s + 1) (sh_buf s)"
  proof (cases "sds_type s = t \<or> t > 1")
    case True
    have "room_behind (sdsHdrSize (sds_type s)) len = Some (len + 1)"
      using n19 sdsHdrSize_bound [of "sds_type s"] by (intro room_behind_Some) simp
    then show ?thesis
      using that [of "s\<lparr>sh_buf := realloc junk (sh_buf s) (len + 1)\<rparr>"] True step s(5)
      by (simp add: sdslen_def len_def realloc_def t'_def)
  next
    case False
    obtain s' where "move_sds junk s t len = Some s'" "sds_type s' = t" "sdslen s' = sdslen s"
      "length (sh_buf s') = len + 1"
      "take (sdslen s + 1) (sh_buf s') = take (sdslen s + 1) (sh_buf s)"
      using move_sds_ok [OF ok t(2) _ t(1) n19] unfolding len_def by auto
    then show ?thesis using that [of s'] False step by (simp add: t'_def)
  qed
  have "t' \<le> 4" "hdr_fits t' len" "sdslen s \<le> len" "t' = 0 \<longrightarrow> len = sdslen s"
    using t s old by (auto simp: t'_def len_def)
  note r = sds_ok_resized [OF ok s'(2-5) this(1-3) n19 this(4)]
  have "sdsavail (sdssetalloc s' len) = 0"
    using sdsavail_ok [OF r(1)] r(3,4) by (simp add: len_def)
  then show ?thesis using s'(1) r by auto
qed


lemma sdsnewlen_ok:
  assumes n: "n + 19 \<le> 2 ^ 64" "n \<le> length t"
  shows "\<exists>s. sdsnewlen junk (Init t) n = Some s \<and> sds_ok s \<and> sds_str s = take n t"
proof -
  define ty where "ty = (if sdsReqType n = 0 \<and> n = 0 then 1 else sdsReqType n)"
  have fit: "hdr_fits ty n" "ty \<le> 4"
    using fits_req [of n] n(1) by (auto simp: ty_def hdr_fits_def hdr_bits_def)
  define h where "h = (if ty = 0 then \<lparr>sh_flags = push_bit 3 (of_nat n), sh_len = 0, sh_alloc = 0,
      sh_buf = fresh junk (n + 1)\<rparr>
    else \<lparr>sh_flags = of_nat ty, sh_len = n mod 2 ^ hdr_bits ty, sh_alloc = n mod 2 ^ hdr_bits ty,
      sh_buf = fresh junk (n + 1)\<rparr>)"
  have room: "room_behind (sdsHdrSize ty) n = Some (n + 1)"
    using n(1) sdsHdrSize_bound [of ty] by (intro room_behind_Some) simp
  have step: "sdsnewlen junk (Init t) n =
      Option.bind (if n = 0 then Some h else if n \<le> length t then write_sds 0 (take n t) h else None)
        (write_sds n [0])"
    unfolding sdsnewlen_def Let_def ty_def [symmetric] room h_def by simp
  have type: "sds_type h = ty"
    using fit(2) by (simp add: h_def sds_type_def sds_type_shift3 sds_type_of_nat)
  have len: "sdslen h = n" "sdsalloc h = n" "0 < ty \<Longrightarrow> sh_alloc h = n"
    using fit type by (auto simp: sdslen_def sdsalloc_def h_def TYPE_5_LEN_shift3 hdr_fits_def)
  have buf: "length (sh_buf h) = n + 1" by (simp add: h_def)
  let ?b = "take n t @ [0 :: u8]"
  have lb: "length ?b = n + 1" using n(2) by simp
  have "write_sds n [0] (h\<lparr>sh_buf := take n t @ drop n (sh_buf h)\<rparr>) = Some (h\<lparr>sh_buf := ?b\<rparr>)"
    using buf n(2) by (subst write_sds_Some) simp_all
  moreover have "write_sds 0 (take n t) h = Some (h\<lparr>sh_buf := take n t @ drop n (sh_buf h)\<rparr>)"
    using buf n(2) by (subst write_sds_Some) (simp_all add: min_def)
  moreover have "h\<lparr>sh_buf := drop 0 (sh_buf h)\<rparr> = h" by simp
  ultimately have "sdsnewlen junk (Init t) n = Some (h\<lparr>sh_buf := ?b\<rparr>)"
    using n(2) unfolding step by (cases "n = 0") simp_all
  moreover have "sds_ok (h\<lparr>sh_buf := ?b\<rparr>)"
  proof -
    have "hdr_ok (h\<lparr>sh_buf := ?b\<rparr>)"
      using len type fit lb n(1) by (auto simp: hdr_ok_def hdr_fits_def)
    then show ?thesis using len n(2) by (simp add: sds_ok_def nth_append)
  qed
  moreover have "sds_str (h\<lparr>sh_buf := ?b\<rparr>) = take n t" using len n(2) by (simp add: sds_str_def)
  ultimately show ?thesis by blast
qed

lemma sdsIncrLen_ok:
  assumes ok: "sds_ok s" and incr: "- (2 ^ 31) < incr" "incr < 0" "- incr \<le> int (sdslen s)"
  shows "\<exists>s'. sdsIncrLen s incr = Some s' \<and> sds_ok s' \<and>
    sds_str s' = take (nat (int (sdslen s) + incr)) (sds_str s)"
proof -
  define n where "n = nat (int (sdslen s) + incr)"
  have n: "n \<le> sdslen s" "int n = int (sdslen s) + incr" using incr by (simp_all add: n_def)
  have alloc: "sdslen s \<le> sdsalloc s" "sdsalloc s < length (sh_buf s)" "sds_type s \<le> 4"
    using ok by (simp_all add: sds_ok_def hdr_ok_def)
  have fit: "hdr_fits (sds_type s) (sdslen s)"
    using hdr_ok_fits [of s "sdslen s"] ok by (simp add: sds_ok_def)
  have "incr_ok s incr"
    using incr by (simp add: incr_ok_def Let_def)
  obtain b where w: "sds_write_at n [0] (sh_buf s) = Some b" and b: "length b = length (sh_buf s)"
    "b ! n = 0" "take n b = take n (sh_buf s)"
    using n alloc by (simp add: write_sds_def sds_write_at_def nth_append)
  have m: "n mod 2 ^ 64 = n" "sds_type s > 0 \<Longrightarrow> n mod 2 ^ hdr_bits (sds_type s) = n"
    using fit n(1) by (auto simp: hdr_fits_def hdr_bits_def split: if_splits)
  then have mods: "nat (int n mod 2 ^ 64) = n"
    "sds_type s > 0 \<Longrightarrow> nat (int n mod 2 ^ hdr_bits (sds_type s)) = n"
    by (metis nat_int of_nat_numeral of_nat_power zmod_int)+
  have "sdsIncrLen s incr = write_sds n [0] (sdssetlen s n)"
  proof (cases "sds_type s = 0")
    case True
    then show ?thesis using \<open>incr_ok s incr\<close> mods(1)
      by (simp add: sdsIncrLen_def sdssetlen_def n(2) [symmetric])
  next
    case False
    then have "int (sh_len s) + incr = int n" using n(2) alloc(3) by (simp add: sdslen_def)
    then show ?thesis using \<open>incr_ok s incr\<close> mods(2) m(2) False alloc(3)
      by (simp add: sdsIncrLen_def sdssetlen_def)
  qed
  also have "\<dots> = Some (sdssetlen (s\<lparr>sh_buf := b\<rparr>) n)"
    using w by (cases s) (simp add: write_sds_def sdssetlen_def sds_type_def)
  finally have "sdsIncrLen s incr = Some (sdssetlen (s\<lparr>sh_buf := b\<rparr>) n)" .
  moreover have "hdr_ok (s\<lparr>sh_buf := b\<rparr>)" using ok b by (intro hdr_ok_buf) (simp_all add: sds_ok_def)
  ultimately show ?thesis
    using sds_ok_setlen [of "s\<lparr>sh_buf := b\<rparr>" n] n alloc b by (simp add: n_def [symmetric] sds_str_def min_def)
qed


section \<open>Runs of operations\<close>

datatype sds_op = Cat bytes | Cpy bytes | Grow nat | Make_room nat | Remove_free | Clear | Cut nat

fun sds_step :: "(nat \<Rightarrow> u8) \<Rightarrow> sds_op \<Rightarrow> sds \<Rightarrow> sds option" where
  "sds_step junk (Cat t) s = sdscatlen junk s t"
| "sds_step junk (Cpy t) s = sdscpylen junk s t"
| "sds_step junk (Grow n) s = sdsgrowzero junk s n"
| "sds_step junk (Make_room n) s = sdsMakeRoomFor junk s n"
| "sds_step junk Remove_free s = sdsRemoveFreeSpace junk s"
| "sds_step junk Clear s = sdsclear s"
| "sds_step junk (Cut n) s = (if n = 0 then Some s else sdsIncrLen s (- int n))"

text \<open>What each operation means for the text.\<close>

fun text_step :: "sds_op \<Rightarrow> bytes \<Rightarrow> bytes" where
  "text_step (Cat t) s = s @ t"
| "text_step (Cpy t) s = t"
| "text_step (Grow n) s = s @ replicate (n - length s) 0"
| "text_step Clear s = []"
| "text_step (Cut n) s = take (length s - n) s"
| "text_step op s = s"

text \<open>The caller cuts no more than there is, and keeps the sizes below half the address space.\<close>

fun op_allowed :: "sds_op \<Rightarrow> bytes \<Rightarrow> bool" where
  "op_allowed (Cat t) s = (length s + length t < 2 ^ 63)"
| "op_allowed (Cpy t) s = (length t < 2 ^ 63)"
| "op_allowed (Grow n) s = (n < 2 ^ 63)"
| "op_allowed (Make_room n) s = (length s + n < 2 ^ 63)"
| "op_allowed (Cut n) s = (n \<le> length s \<and> n < 2 ^ 31)"
| "op_allowed op s = True"

fun sds_run :: "(nat \<Rightarrow> u8) \<Rightarrow> sds_op list \<Rightarrow> sds \<Rightarrow> sds option" where
  "sds_run junk [] s = Some s"
| "sds_run junk (op # ops) s = Option.bind (sds_step junk op s) (sds_run junk ops)"

fun run_allowed :: "sds_op list \<Rightarrow> bytes \<Rightarrow> bool" where
  "run_allowed [] s = True"
| "run_allowed (op # ops) s = (op_allowed op s \<and> run_allowed ops (text_step op s))"

lemma sds_step_ok:
  assumes ok: "sds_ok s" and a: "op_allowed op (sds_str s)"
  shows "\<exists>s'. sds_step junk op s = Some s' \<and> sds_ok s' \<and> sds_str s' = text_step op (sds_str s)"
proof (cases op)
  case (Make_room n)
  then have "sdslen s + n + SDS_MAX_PREALLOC + 19 \<le> 2 ^ 64"
    using a ok by (simp add: SDS_MAX_PREALLOC_def)
  from sdsMakeRoomFor_ok [OF ok this, of junk] show ?thesis using Make_room by auto
next
  case (Cut n)
  show ?thesis
  proof (cases "n = 0")
    case False
    have "nat (int (sdslen s) + - int n) = sdslen s - n" by simp
    then show ?thesis
      using sdsIncrLen_ok [OF ok, of "- int n"] Cut a ok False by auto
  qed (use Cut ok in auto)
next
  case (Cat t)
  then show ?thesis using sdscatlen_ok [OF ok, of t junk] a ok by (simp add: SDS_MAX_PREALLOC_def)
next
  case (Cpy t)
  then show ?thesis using sdscpylen_ok [OF ok, of t junk] a ok by (simp add: SDS_MAX_PREALLOC_def)
next
  case (Grow n)
  then show ?thesis using sdsgrowzero_ok [OF ok, of n junk] a ok by (simp add: SDS_MAX_PREALLOC_def)
next
  case Remove_free
  then show ?thesis using sdsRemoveFreeSpace_ok [OF ok, of junk] by auto
next
  case Clear
  then show ?thesis using sdsclear_ok [OF ok] by simp
qed

lemma sds_run_ok:
  "\<lbrakk>sds_ok s; run_allowed ops (sds_str s)\<rbrakk> \<Longrightarrow>
   \<exists>s'. sds_run junk ops s = Some s' \<and> sds_ok s' \<and> sds_str s' = foldl (\<lambda>t op. text_step op t) (sds_str s) ops"
proof (induction ops arbitrary: s)
  case (Cons op ops)
  obtain s1 where s1: "sds_step junk op s = Some s1" "sds_ok s1" "sds_str s1 = text_step op (sds_str s)"
    using sds_step_ok [OF Cons.prems(1), of op junk] Cons.prems(2) by auto
  then show ?case using Cons.IH [OF s1(2)] Cons.prems(2) by simp
qed simp

section \<open>Properties\<close>

text \<open>
  C28: a string made by \<open>sdsnewlen\<close> and changed by any allowed sequence of appends, copies,
  zero-filled growth, reservations, shrinking, clearing and cuts is never accessed outside its
  allocation, keeps its representation invariant - the header type holds the allocation, the
  text hdr_fits and ends in NUL - and holds the text the list operations give, whatever fresh
  memory contains.
\<close>

theorem sds_run_refines:
  assumes "n + 19 \<le> 2 ^ 64" "n \<le> length t" "run_allowed ops (take n t)"
  shows "\<exists>s s'. sdsnewlen junk (Init t) n = Some s \<and> sds_run junk ops s = Some s' \<and> sds_ok s' \<and>
    sds_str s' = foldl (\<lambda>t op. text_step op t) (take n t) ops"
proof -
  obtain s where "sdsnewlen junk (Init t) n = Some s" "sds_ok s" "sds_str s = take n t"
    using sdsnewlen_ok [OF assms(1,2)] by blast
  with sds_run_ok [of s ops junk] assms(3) show ?thesis by auto
qed

theorem sds_run_refines_witness:
  "\<exists>s s'. sdsnewlen (\<lambda>_. 7) (Init [1, 2]) 2 = Some s \<and>
    sds_run (\<lambda>_. 7) [Cat [3], Cut 2, Grow 3, Remove_free] s = Some s' \<and> sds_ok s' \<and>
    sds_str s' = foldl (\<lambda>t op. text_step op t) (take 2 [1, 2]) [Cat [3], Cut 2, Grow 3, Remove_free]"
  by (rule sds_run_refines) simp_all

end
