(* ===== verification/SetType.thy ===== *)
theory SetType
  imports Intset DictMap Sds
begin

text \<open>
  The set objects of \<open>src/t_set.c\<close>: an integer set while every member is a canonical 64-bit
  integer and there are at most \<open>set_max_intset_entries\<close> of them, a hash table otherwise. The
  operations return \<open>None\<close> where the code fails an assertion, panics or would write outside of the
  array of an integer set.
\<close>

section \<open>Objects and conversion\<close>

text \<open>
  What the operations depend on: the byte order of the host, the content of fresh memory, the
  hash function of the key type, whether tables may be resized, and the configured limit.
\<close>

record server =
  big_endian :: bool
  fresh_byte :: "nat \<Rightarrow> u8"
  hash_function :: "bytes \<Rightarrow> u64"
  dict_can_resize :: bool
  set_max_intset_entries :: nat

datatype set_obj = IntsetObj intset | HtObj "(bytes, unit) dict"

definition isSdsRepresentableAsLongLong :: "bytes \<Rightarrow> int option" where
  "isSdsRepresentableAsLongLong s = map_option sint (string2ll s)"

definition setTypeCreate :: "server \<Rightarrow> bytes \<Rightarrow> set_obj" where
  "setTypeCreate sv value =
     (if isSdsRepresentableAsLongLong value \<noteq> None then IntsetObj (intsetNew (big_endian sv))
      else HtObj dictCreate)"

text \<open>The loop over the iterator of an integer set, adding the texts to the new table.\<close>

function convert_loop :: "server \<Rightarrow> intset \<Rightarrow> int \<Rightarrow> (bytes, unit) dict \<Rightarrow> (bytes, unit) dict option" where
  "convert_loop sv is ii d =
     (case intsetGet (big_endian sv) is ii of
        None \<Rightarrow> Some d
      | Some intele \<Rightarrow>
          let element = sdsfromlonglong (word_of_int intele);
              (d, added) = dictAdd (hash_function sv) (dict_can_resize sv) () d element ()
          in if added then convert_loop sv is (ii + 1) d else None)"
  by pat_completeness auto
termination
  by (relation "measure (\<lambda>(sv, is, ii, d). nat (intsetLen (big_endian sv) is - ii))")
    (auto simp: intsetGet_def intsetLen_def split: if_splits)

declare convert_loop.simps [simp del]

definition setTypeConvert :: "server \<Rightarrow> set_obj \<Rightarrow> set_obj option" where
  "setTypeConvert sv setobj =
     (case setobj of
        HtObj d \<Rightarrow> None
      | IntsetObj is \<Rightarrow>
          let d = dictCreate; (d, expanded) = dictExpand d (nat (intsetLen (big_endian sv) is))
          in map_option HtObj (convert_loop sv is 0 d))"

section \<open>Operations\<close>

definition setTypeAdd :: "server \<Rightarrow> set_obj \<Rightarrow> bytes \<Rightarrow> (set_obj \<times> bool) option" where
  "setTypeAdd sv subject value =
     (case subject of
        HtObj ht \<Rightarrow>
          (case dictAddRaw (hash_function sv) (dict_can_resize sv) () ht value of
             (ht, Added de) \<Rightarrow> Some (HtObj (dictSetVal ht de ()), True)
           | (ht, NotAdded e) \<Rightarrow> Some (HtObj ht, False))
      | IntsetObj is \<Rightarrow>
          (case isSdsRepresentableAsLongLong value of
             Some llval \<Rightarrow>
               Option.bind (intsetAdd (big_endian sv) (fresh_byte sv) is llval) (\<lambda>(is, success).
                 if success then
                   (if intsetLen (big_endian sv) is > int (set_max_intset_entries sv)
                    then map_option (\<lambda>ob. (ob, True)) (setTypeConvert sv (IntsetObj is))
                    else Some (IntsetObj is, True))
                 else Some (IntsetObj is, False))
           | None \<Rightarrow>
               (case setTypeConvert sv (IntsetObj is) of
                  Some (HtObj d) \<Rightarrow>
                    let (d, added) = dictAdd (hash_function sv) (dict_can_resize sv) () d value ()
                    in if added then Some (HtObj d, True) else None
                | _ \<Rightarrow> None)))"

definition HASHTABLE_MIN_FILL :: nat where "HASHTABLE_MIN_FILL = 10"

text \<open>\<open>long long\<close> arithmetic; \<open>used * 100\<close> stays below its range for the sizes of a table.\<close>

definition htNeedsResize :: "('k, 'v) dict \<Rightarrow> bool" where
  "htNeedsResize d =
     (let sz = ht_size (dict_ht0 d) + ht_size (dict_ht1 d); used = dictSize d
      in sz > DICT_HT_INITIAL_SIZE \<and> used * 100 div sz < HASHTABLE_MIN_FILL)"

definition setTypeRemove :: "server \<Rightarrow> set_obj \<Rightarrow> bytes \<Rightarrow> (set_obj \<times> bool) option" where
  "setTypeRemove sv setobj value =
     (case setobj of
        HtObj d \<Rightarrow>
          let (d, deleted) = dictDelete (hash_function sv) d value
          in if deleted then
               Some (HtObj (if htNeedsResize d then fst (dictResize (dict_can_resize sv) d) else d), True)
             else Some (HtObj d, False)
      | IntsetObj is \<Rightarrow>
          (case isSdsRepresentableAsLongLong value of
             Some llval \<Rightarrow>
               map_option (\<lambda>(is, success). (IntsetObj is, success))
                 (intsetRemove (big_endian sv) (fresh_byte sv) is llval)
           | None \<Rightarrow> Some (IntsetObj is, False)))"

text \<open>A lookup in a table may move it one step on in rehashing.\<close>

definition setTypeIsMember :: "server \<Rightarrow> set_obj \<Rightarrow> bytes \<Rightarrow> set_obj \<times> bool" where
  "setTypeIsMember sv subject value =
     (case subject of
        HtObj d \<Rightarrow> let (d, he) = dictFind (hash_function sv) d value in (HtObj d, he \<noteq> None)
      | IntsetObj is \<Rightarrow>
          (IntsetObj is,
           case isSdsRepresentableAsLongLong value of
             Some llval \<Rightarrow> intsetFind (big_endian sv) is llval
           | None \<Rightarrow> False))"

definition setTypeSize :: "server \<Rightarrow> set_obj \<Rightarrow> int" where
  "setTypeSize sv subject =
     (case subject of HtObj d \<Rightarrow> int (dictSize d) | IntsetObj is \<Rightarrow> intsetLen (big_endian sv) is)"

section \<open>Abstraction\<close>

definition obj_ok :: "server \<Rightarrow> set_obj \<Rightarrow> bool" where
  "obj_ok sv ob =
     (case ob of
        HtObj d \<Rightarrow> dict_ok (hash_function sv) d
      | IntsetObj is \<Rightarrow> intset_ok (big_endian sv) is \<and>
          length (intset_elems (big_endian sv) is) \<le> set_max_intset_entries sv)"

definition members :: "server \<Rightarrow> set_obj \<Rightarrow> bytes set" where
  "members sv ob =
     (case ob of
        HtObj d \<Rightarrow> dom (dict_map d)
      | IntsetObj is \<Rightarrow> dec_int ` set (intset_elems (big_endian sv) is))"

lemma sint_word_of_int: "fits 8 i \<Longrightarrow> sint (word_of_int i :: i64) = i"
  by (simp add: sint_sbintrunc' fits_def signed_take_bit_int_eq_self)

lemma dec_int_inj:
  assumes "fits 8 i" "fits 8 j" "dec_int i = dec_int j"
  shows "i = j"
proof -
  let ?v = "word_of_int i :: i64" and ?w = "word_of_int j :: i64"
  have "Some ?v = Some ?w"
    using string2ll_dec_int [of ?v] string2ll_dec_int [of ?w] assms sint_word_of_int by simp
  then show ?thesis using sint_word_of_int assms(1,2) by (metis option.inject)
qed

lemma representable_Some:
  "isSdsRepresentableAsLongLong s = Some i \<longleftrightarrow> fits 8 i \<and> s = dec_int i"
proof
  assume "isSdsRepresentableAsLongLong s = Some i"
  then obtain v where v: "string2ll s = Some v" "i = sint v"
    by (auto simp: isSdsRepresentableAsLongLong_def)
  then show "fits 8 i \<and> s = dec_int i"
    using string2ll_SomeD [OF v(1)] sint_range64 [of v] by (simp add: fits_def)
next
  assume i: "fits 8 i \<and> s = dec_int i"
  then show "isSdsRepresentableAsLongLong s = Some i"
    using string2ll_dec_int [of "word_of_int i"] sint_word_of_int [of i]
    by (simp add: isSdsRepresentableAsLongLong_def)
qed

lemma intset_elems_fit:
  assumes "intset_ok be is" "i \<in> set (intset_elems be is)"
  shows "fits 8 i"
proof -
  obtain n where r: "is_rep be n is (intset_elems be is)" using ok_is_rep [OF assms(1)] by blast
  then have raw: "is_raw be n is (intset_elems be is)" by (simp add: is_rep_def)
  then have "fits n i" using assms(2) by (simp add: is_raw_def)
  then show ?thesis using is_raw_width [OF raw] by (auto simp: fits_def)
qed

lemma intset_elems_distinct: "intset_ok be is \<Longrightarrow> distinct (intset_elems be is)"
  using ok_is_rep [of be "is"] by (auto simp: is_rep_def strict_sorted_iff)

lemma intsetGet_elems:
  assumes "intset_ok be is"
  shows "intsetGet be is (int k) =
    (if k < length (intset_elems be is) then Some (intset_elems be is ! k) else None)"
proof -
  obtain n where r: "is_rep be n is (intset_elems be is)" using ok_is_rep [OF assms(1)] by blast
  then have raw: "is_raw be n is (intset_elems be is)" by (simp add: is_rep_def)
  show ?thesis using is_raw_get [OF raw, of k] by (simp add: intsetGet_def is_rep_len [OF r])
qed

lemma intsetLen_elems: "intset_ok be is \<Longrightarrow> intsetLen be is = int (length (intset_elems be is))"
  using ok_is_rep [of be "is"] is_rep_len by (auto simp: intsetLen_def)

lemma dictAdd_dom:
  fixes d :: "(bytes, unit) dict"
  assumes ok: "dict_ok hash d" and small: "card (dom (dict_map d)) < 2 ^ 62"
  obtains d' where "dictAdd hash can () d v () = (d', v \<notin> dom (dict_map d))" "dict_ok hash d'"
    "dom (dict_map d') = insert v (dom (dict_map d))"
proof -
  obtain d' b where a: "dictAdd hash can () d v () = (d', b)" by fastforce
  have "dictSize d < 2 ^ 62" using small dict_dom(2) [OF ok] by simp
  note c = dictAdd_correct [OF ok this a]
  show ?thesis
  proof (cases "v \<in> dom (dict_map d)")
    case True
    then have "\<not> b" using c by auto
    then show ?thesis using that [of d'] a c True by (simp add: insert_absorb)
  next
    case False
    then have b using c by auto
    then show ?thesis using that [of d'] a c False by simp
  qed
qed

section \<open>Conversion keeps the members\<close>

lemma convert_loop_ok:
  assumes is_ok: "intset_ok (big_endian sv) is"
    and small: "length (intset_elems (big_endian sv) is) < 2 ^ 62"
  shows "\<lbrakk>dict_ok (hash_function sv) d;
    dom (dict_map d) = dec_int ` set (take k (intset_elems (big_endian sv) is))\<rbrakk> \<Longrightarrow>
   \<exists>d'. convert_loop sv is (int k) d = Some d' \<and> dict_ok (hash_function sv) d' \<and>
     dom (dict_map d') = dec_int ` set (intset_elems (big_endian sv) is)"
proof (induction "length (intset_elems (big_endian sv) is) - k" arbitrary: k d)
  case 0
  then have "intsetGet (big_endian sv) is (int k) = None"
    using intsetGet_elems [OF is_ok, of k] by simp
  then show ?case using 0 by (subst convert_loop.simps) simp
next
  case (Suc m)
  let ?es = "intset_elems (big_endian sv) is"
  have k: "k < length ?es" using Suc.hyps(2) by simp
  define e where "e = ?es ! k"
  have get: "intsetGet (big_endian sv) is (int k) = Some e"
    using intsetGet_elems [OF is_ok, of k] k by (simp add: e_def)
  have fit: "fits 8 i" if "i \<in> set ?es" for i using intset_elems_fit [OF is_ok that] .
  have e: "e \<in> set ?es" using k by (simp add: e_def)
  have rep: "sdsfromlonglong (word_of_int e) = dec_int e"
    using sint_word_of_int [OF fit [OF e]] by (simp add: sdsfromlonglong_def sdsll2str_dec)
  have new: "dec_int e \<notin> dom (dict_map d)"
  proof
    assume "dec_int e \<in> dom (dict_map d)"
    then obtain i where i: "i \<in> set (take k ?es)" "dec_int e = dec_int i"
      using Suc.prems(2) by auto
    then have "e = i" using dec_int_inj fit e in_set_takeD [OF i(1)] by blast
    moreover obtain j where "j < k" "i = ?es ! j"
      using i(1) by (auto simp: in_set_conv_nth)
    ultimately show False
      using intset_elems_distinct [OF is_ok] k by (auto simp: e_def nth_eq_iff_index_eq)
  qed
  have "card (dom (dict_map d)) \<le> length (take k ?es)"
    unfolding Suc.prems(2) by (rule order_trans [OF card_image_le card_length]) simp
  also have "\<dots> \<le> length ?es" by simp
  finally have sz: "card (dom (dict_map d)) < 2 ^ 62" using small by simp
  obtain d1 where c: "dictAdd (hash_function sv) (dict_can_resize sv) () d (dec_int e) () = (d1, True)"
    "dict_ok (hash_function sv) d1" "dom (dict_map d1) = insert (dec_int e) (dom (dict_map d))"
    using dictAdd_dom [OF Suc.prems(1) sz] new by metis
  have "convert_loop sv is (int k) d = convert_loop sv is (int (Suc k)) d1"
    using get c(1) rep by (subst convert_loop.simps) (simp add: add.commute)
  moreover have "dom (dict_map d1) = dec_int ` set (take (Suc k) ?es)"
    using c(3) k Suc.prems(2) by (simp add: take_Suc_conv_app_nth e_def)
  moreover have "m = length ?es - Suc k" using Suc.hyps(2) by simp
  ultimately show ?case using Suc.hyps(1) [of "Suc k" d1] c by simp
qed

lemma setTypeConvert_ok:
  assumes "intset_ok (big_endian sv) is" "length (intset_elems (big_endian sv) is) < 2 ^ 62"
  shows "\<exists>d. setTypeConvert sv (IntsetObj is) = Some (HtObj d) \<and> obj_ok sv (HtObj d) \<and>
    members sv (HtObj d) = dec_int ` set (intset_elems (big_endian sv) is)"
proof -
  let ?n = "nat (intsetLen (big_endian sv) is)"
  obtain d :: "(bytes, unit) dict" and b where e: "dictExpand dictCreate ?n = (d, b)" by fastforce
  have "dict_ok (hash_function sv) d" "dict_entries d = dict_entries dictCreate"
    using dictExpand_ok [OF dictCreate_ok(1) e] by auto
  moreover have "dom (dict_map d) = {}"
    using calculation(2) dictCreate_ok(2) by (auto simp: dict_map_def)
  ultimately show ?thesis
    using convert_loop_ok [OF assms, of d 0] e
    by (auto simp: setTypeConvert_def obj_ok_def members_def)
qed

section \<open>The operations on the members\<close>

lemma setTypeAdd_ok:
  assumes ok: "obj_ok sv ob" and small: "card (members sv ob) < 2 ^ 62"
    and max: "set_max_intset_entries sv < 2 ^ 29 - 1"
  shows "\<exists>ob'. setTypeAdd sv ob v = Some (ob', v \<notin> members sv ob) \<and> obj_ok sv ob' \<and>
    members sv ob' = insert v (members sv ob)"
proof (cases ob)
  case (HtObj d)
  have d: "dict_ok (hash_function sv) d" using ok HtObj by (simp add: obj_ok_def)
  obtain d' where a: "dictAdd (hash_function sv) (dict_can_resize sv) () d v () = (d', v \<notin> dom (dict_map d))"
    "dict_ok (hash_function sv) d'" "dom (dict_map d') = insert v (dom (dict_map d))"
    using dictAdd_dom [OF d, of "dict_can_resize sv" v] small HtObj by (auto simp: members_def)
  have "setTypeAdd sv ob v = Some (HtObj d', v \<notin> dom (dict_map d))"
    using a(1) by (auto simp: setTypeAdd_def HtObj dictAdd_def split: prod.splits add_result.splits)
  then show ?thesis using a HtObj by (simp add: obj_ok_def members_def)
next
  case (IntsetObj iset)
  let ?be = "big_endian sv"
  have i: "intset_ok ?be iset" "length (intset_elems ?be iset) \<le> set_max_intset_entries sv"
    using ok IntsetObj by (simp_all add: obj_ok_def)
  have len: "length (intset_elems ?be iset) < 2 ^ 62" using i(2) max by simp
  have fit: "fits 8 i" if "i \<in> set (intset_elems ?be iset)" for i
    using intset_elems_fit [OF i(1) that] .
  show ?thesis
  proof (cases "isSdsRepresentableAsLongLong v")
    case None
    then have new: "v \<notin> dec_int ` set (intset_elems ?be iset)"
      using representable_Some [of v] fit by force
    obtain d where c: "setTypeConvert sv (IntsetObj iset) = Some (HtObj d)" "dict_ok (hash_function sv) d"
      "dom (dict_map d) = dec_int ` set (intset_elems ?be iset)"
      using setTypeConvert_ok [OF i(1) len] by (auto simp: obj_ok_def members_def)
    have "card (dom (dict_map d)) < 2 ^ 62"
      using c(3) card_image_le [of "set (intset_elems ?be iset)" dec_int]
        card_length [of "intset_elems ?be iset"] len by simp
    then obtain d' where a: "dictAdd (hash_function sv) (dict_can_resize sv) () d v () = (d', True)"
      "dict_ok (hash_function sv) d'" "dom (dict_map d') = insert v (dom (dict_map d))"
      using dictAdd_dom [OF c(2)] new c(3) by metis
    show ?thesis
      using None c a new IntsetObj by (auto simp: setTypeAdd_def obj_ok_def members_def)
  next
    case (Some n)
    then have n: "fits 8 n" "v = dec_int n" using representable_Some [of v] by auto
    have mem: "v \<in> dec_int ` set (intset_elems ?be iset) \<longleftrightarrow> n \<in> set (intset_elems ?be iset)"
      using n fit dec_int_inj by blast
    have "card (set (intset_elems ?be iset)) < 2 ^ 29 - 1"
      using i(2) max card_length [of "intset_elems ?be iset"] by simp
    from intset_add_law [OF i(1) n(1) this, of "fresh_byte sv"] obtain iset' where
      iset': "intset_ok ?be iset'" "set (intset_elems ?be iset') = insert n (set (intset_elems ?be iset))"
      "intsetAdd ?be (fresh_byte sv) iset n = Some (iset', n \<notin> set (intset_elems ?be iset))"
      by blast
    have len': "length (intset_elems ?be iset') \<le> Suc (length (intset_elems ?be iset))"
      using iset'(2) intset_elems_distinct [OF iset'(1)] intset_elems_distinct [OF i(1)]
      by (metis card_insert_le_m1 card_length distinct_card diff_Suc_1 zero_less_Suc)
    show ?thesis
    proof (cases "n \<in> set (intset_elems ?be iset)")
      case True
      then have "length (intset_elems ?be iset') = length (intset_elems ?be iset)"
        using iset'(2) intset_elems_distinct [OF iset'(1)] intset_elems_distinct [OF i(1)]
        by (metis distinct_card insert_absorb)
      then show ?thesis using Some iset' True n(2) mem IntsetObj i
        by (auto simp: setTypeAdd_def obj_ok_def members_def insert_absorb)
    next
      case False
      show ?thesis
      proof (cases "intsetLen ?be iset' > int (set_max_intset_entries sv)")
        case True
        have "length (intset_elems ?be iset') < 2 ^ 62" using len' i(2) max by simp
        from setTypeConvert_ok [OF iset'(1) this] show ?thesis
          using Some iset'(2,3) False True n(2) mem IntsetObj
          by (auto simp: setTypeAdd_def members_def)
      next
        case small: False
        then show ?thesis
          using Some iset' False n(2) mem IntsetObj intsetLen_elems [OF iset'(1)]
          by (auto simp: setTypeAdd_def members_def obj_ok_def)
      qed
    qed
  qed
qed


lemma setTypeRemove_ok:
  assumes ok: "obj_ok sv ob" and max: "set_max_intset_entries sv < 2 ^ 29 - 1"
  shows "\<exists>ob'. setTypeRemove sv ob v = Some (ob', v \<in> members sv ob) \<and> obj_ok sv ob' \<and>
    members sv ob' = members sv ob - {v}"
proof (cases ob)
  case (HtObj d)
  have d: "dict_ok (hash_function sv) d" using ok HtObj by (simp add: obj_ok_def)
  obtain d1 he where del: "dictGenericDelete (hash_function sv) d v = (d1, he)" by fastforce
  note c = dictGenericDelete_correct [OF d del]
  obtain d2 b where res: "dictResize (dict_can_resize sv) d1 = (d2, b)" by fastforce
  have "dict_ok (hash_function sv) d2" "dict_map d2 = dict_map d1"
    using dictResize_ok [OF _ res] c by (auto simp: dict_map_def)
  moreover have "he \<noteq> None \<longleftrightarrow> v \<in> dom (dict_map d)" using c by (cases he) auto
  moreover have "dom (dict_map d1) = dom (dict_map d) - {v}" using c by auto
  ultimately show ?thesis
    using c del res HtObj
    by (cases he) (auto simp: setTypeRemove_def dictDelete_def obj_ok_def members_def)
next
  case (IntsetObj iset)
  let ?be = "big_endian sv"
  have i: "intset_ok ?be iset" "length (intset_elems ?be iset) \<le> set_max_intset_entries sv"
    using ok IntsetObj by (simp_all add: obj_ok_def)
  have fit: "fits 8 i" if "i \<in> set (intset_elems ?be iset)" for i
    using intset_elems_fit [OF i(1) that] .
  show ?thesis
  proof (cases "isSdsRepresentableAsLongLong v")
    case None
    then have "v \<notin> dec_int ` set (intset_elems ?be iset)"
      using representable_Some [of v] fit by force
    then show ?thesis
      using None IntsetObj ok by (simp add: setTypeRemove_def members_def)
  next
    case (Some n)
    then have n: "fits 8 n" "v = dec_int n" using representable_Some [of v] by auto
    have inj: "inj_on dec_int (insert n (set (intset_elems ?be iset)))"
      using n(1) fit dec_int_inj by (fastforce intro: inj_onI)
    have mem: "v \<in> dec_int ` set (intset_elems ?be iset) \<longleftrightarrow> n \<in> set (intset_elems ?be iset)"
      using n fit dec_int_inj by blast
    have "card (set (intset_elems ?be iset)) \<le> 2 ^ 29 - 1"
      using i(2) max card_length [of "intset_elems ?be iset"] by simp
    from intset_remove_law [OF i(1) n(1) this, of "fresh_byte sv"] obtain iset' where
      r: "intset_ok ?be iset'" "set (intset_elems ?be iset') = set (intset_elems ?be iset) - {n}"
      "intsetRemove ?be (fresh_byte sv) iset n = Some (iset', n \<in> set (intset_elems ?be iset))"
      by blast
    have "length (intset_elems ?be iset') \<le> length (intset_elems ?be iset)"
      using r(2) intset_elems_distinct [OF r(1)] intset_elems_distinct [OF i(1)]
        card_Diff1_le [of "set (intset_elems ?be iset)" n] by (simp add: distinct_card [symmetric])
    moreover have "dec_int ` (set (intset_elems ?be iset) - {n}) =
        dec_int ` set (intset_elems ?be iset) - {v}"
      using n(2) fit dec_int_inj [OF _ n(1)] by blast
    ultimately show ?thesis
      using Some r mem IntsetObj i(2) by (auto simp: setTypeRemove_def obj_ok_def members_def)
  qed
qed

lemma setTypeIsMember_ok:
  assumes ok: "obj_ok sv ob"
  shows "snd (setTypeIsMember sv ob v) = (v \<in> members sv ob) \<and>
    obj_ok sv (fst (setTypeIsMember sv ob v)) \<and>
    members sv (fst (setTypeIsMember sv ob v)) = members sv ob"
proof (cases ob)
  case (HtObj d)
  then have d: "dict_ok (hash_function sv) d" using ok by (simp add: obj_ok_def)
  obtain d' he where f: "dictFind (hash_function sv) d v = (d', he)" by fastforce
  then show ?thesis
    using dictFind_correct [OF d f] HtObj
    by (cases he) (auto simp: setTypeIsMember_def obj_ok_def members_def)
next
  case (IntsetObj iset)
  then have i: "intset_ok (big_endian sv) iset" using ok by (simp add: obj_ok_def)
  have "(case isSdsRepresentableAsLongLong v of
      Some n \<Rightarrow> intsetFind (big_endian sv) iset n | None \<Rightarrow> False) =
      (v \<in> dec_int ` set (intset_elems (big_endian sv) iset))"
  proof (cases "isSdsRepresentableAsLongLong v")
    case None
    then show ?thesis using representable_Some [of v] intset_elems_fit [OF i] by force
  next
    case (Some n)
    then have n: "fits 8 n" "v = dec_int n" using representable_Some [of v] by auto
    then show ?thesis
      using Some intset.mem_law [of "big_endian sv" "Some iset", unfolded live_simps, OF i n(1)] intset_elems_fit [OF i] dec_int_inj by auto
  qed
  then show ?thesis using IntsetObj ok by (simp add: setTypeIsMember_def members_def)
qed

lemma setTypeSize_ok: "obj_ok sv ob \<Longrightarrow> setTypeSize sv ob = int (card (members sv ob))"
proof (cases ob)
  case (IntsetObj iset)
  assume "obj_ok sv ob"
  with IntsetObj have i: "intset_ok (big_endian sv) iset" by (simp add: obj_ok_def)
  have "inj_on dec_int (set (intset_elems (big_endian sv) iset))"
    using intset_elems_fit [OF i] dec_int_inj by (fastforce intro: inj_onI)
  then show ?thesis
    using IntsetObj intsetLen_elems [OF i] distinct_card [OF intset_elems_distinct [OF i]]
    by (simp add: setTypeSize_def members_def card_image)
qed (simp add: setTypeSize_def members_def obj_ok_def dict_dom(2))

lemma setTypeCreate_ok: "obj_ok sv (setTypeCreate sv v)" "members sv (setTypeCreate sv v) = {}"
proof -
  have "intset_ok be (intsetNew be)" "intset_elems be (intsetNew be) = []" for be
    using is_rep_ok [OF is_rep_new] is_rep_elems [OF is_rep_new] by simp_all
  then show "obj_ok sv (setTypeCreate sv v)" "members sv (setTypeCreate sv v) = {}"
    by (auto simp: setTypeCreate_def obj_ok_def members_def dictCreate_ok split: option.splits)
qed

section \<open>The set object provides the set interface\<close>

definition alive_ok :: "server \<Rightarrow> set_obj option \<Rightarrow> bool" where
  "alive_ok sv s \<longleftrightarrow>
     (case s of None \<Rightarrow> False | Some ob \<Rightarrow> obj_ok sv ob \<and> set_max_intset_entries sv < 2 ^ 29 - 1)"

definition alive_members :: "server \<Rightarrow> set_obj option \<Rightarrow> bytes set" where
  "alive_members sv s = (case s of None \<Rightarrow> {} | Some ob \<Rightarrow> members sv ob)"

definition alive_member :: "server \<Rightarrow> set_obj option \<Rightarrow> bytes \<Rightarrow> bool" where
  "alive_member sv s v = (case s of None \<Rightarrow> False | Some ob \<Rightarrow> snd (setTypeIsMember sv ob v))"

lemma members_finite: "obj_ok sv ob \<Longrightarrow> finite (members sv ob)"
  by (cases ob) (simp_all add: obj_ok_def members_def dict_dom(1))

interpretation set_object: set_store "alive_ok sv" "alive_members sv" "\<lambda>_. True" "2 ^ 62"
  "guard_op (setTypeAdd sv)" "guard_op (setTypeRemove sv)" "alive_member sv" for sv
proof (unfold_locales, goal_cases)
  case (1 s)
  then show ?case by (cases s) (auto simp: alive_ok_def alive_members_def members_finite)
next
  case (2 s v)
  then obtain ob where ob: "s = Some ob" "obj_ok sv ob" "card (members sv ob) < 2 ^ 62"
    "set_max_intset_entries sv < 2 ^ 29 - 1"
    by (auto simp: alive_ok_def alive_members_def split: option.splits)
  obtain ob' where "setTypeAdd sv ob v = Some (ob', v \<notin> members sv ob)" "obj_ok sv ob'"
    "members sv ob' = insert v (members sv ob)"
    using setTypeAdd_ok [OF ob(2-4), of v] by blast
  then show ?case using ob(1,4) by (simp add: guard_op_def alive_ok_def alive_members_def)
next
  case (3 s v)
  then obtain ob where ob: "s = Some ob" "obj_ok sv ob" "set_max_intset_entries sv < 2 ^ 29 - 1"
    by (auto simp: alive_ok_def split: option.splits)
  obtain ob' where "setTypeRemove sv ob v = Some (ob', v \<in> members sv ob)" "obj_ok sv ob'"
    "members sv ob' = members sv ob - {v}"
    using setTypeRemove_ok [OF ob(2,3), of v] by blast
  then show ?case using ob(1,3) by (simp add: guard_op_def alive_ok_def alive_members_def)
next
  case (4 s v)
  then obtain ob where "s = Some ob" "obj_ok sv ob"
    by (auto simp: alive_ok_def split: option.splits)
  then show ?case
    using setTypeIsMember_ok [of sv ob v] by (simp add: alive_member_def alive_members_def)
qed

section \<open>Properties\<close>

text \<open>
  C4: a set object made for any first value and changed by any sequence of additions and
  removals never fails an assertion, answers like the set of its members, and is an integer set
  only within the configured limit, whatever conversions and table resizes happen on the way.
\<close>

theorem set_object_refines:
  assumes "set_max_intset_entries sv < 2 ^ 29 - 1" "length ops \<le> 2 ^ 62"
  shows "\<exists>ob. store_run (guard_op (setTypeAdd sv)) (guard_op (setTypeRemove sv))
      (Some (setTypeCreate sv first)) ops = (Some ob, set_answers {} ops) \<and>
    obj_ok sv ob \<and> members sv ob = set_spec {} ops \<and>
    setTypeSize sv ob = int (card (set_spec {} ops))"
proof -
  let ?s = "Some (setTypeCreate sv first)"
  let ?r = "store_run (guard_op (setTypeAdd sv)) (guard_op (setTypeRemove sv)) ?s ops"
  have ok: "alive_ok sv ?s" "alive_members sv ?s = {}"
    using setTypeCreate_ok assms(1) by (simp_all add: alive_ok_def alive_members_def)
  have r: "alive_ok sv (fst ?r)" "alive_members sv (fst ?r) = set_spec {} ops"
    "snd ?r = set_answers {} ops"
    using set_object.run_law [OF ok(1), of ops] ok(2) assms(2) by simp_all
  then obtain ob where "fst ?r = Some ob" "obj_ok sv ob" "members sv ob = set_spec {} ops"
    by (auto simp: alive_ok_def alive_members_def split: option.splits)
  then show ?thesis using r(3) setTypeSize_ok by (metis prod.collapse)
qed

definition sample_server :: server where
  "sample_server = \<lparr>big_endian = False, fresh_byte = (\<lambda>_. 0), hash_function = (\<lambda>s. of_nat (length s)),
     dict_can_resize = True, set_max_intset_entries = 1\<rparr>"

definition sample_ops :: "bytes set_op list" where
  "sample_ops = [SAdd [49], SAdd [50], SAdd [97], SRem [49]]"

theorem set_object_refines_witness:
  "\<exists>ob. store_run (guard_op (setTypeAdd sample_server)) (guard_op (setTypeRemove sample_server))
      (Some (setTypeCreate sample_server [49])) sample_ops = (Some ob, set_answers {} sample_ops) \<and>
    obj_ok sample_server ob \<and> members sample_server ob = set_spec {} sample_ops \<and>
    setTypeSize sample_server ob = int (card (set_spec {} sample_ops))"
  by (rule set_object_refines) (simp_all add: sample_server_def sample_ops_def)

end
