(* ===== verification/ClientIndex.thy ===== *)
theory ClientIndex
  imports RedisPrelude
begin

text \<open>
  The tables that map a key to the list of the clients interested in it: the subscribers of
  channels and patterns in \<open>src/pubsub.c\<close>, the watchers of keys in \<open>src/multi.c\<close>. Every client
  also keeps its own collection of keys; the tables and the collections must describe the same
  relation. The three modules maintain their table with the same statements, modelled here once.
\<close>

type_synonym ('k, 'c) index = "'k \<Rightarrow> 'c list option"

section \<open>The table operations\<close>

text \<open>Look the key up, make an empty list when it is new, and append the client.\<close>

definition index_add :: "'k \<Rightarrow> 'c \<Rightarrow> ('k, 'c) index \<Rightarrow> ('k, 'c) index" where
  "index_add k c m =
     (let clients = (case m k of None \<Rightarrow> [] | Some clients \<Rightarrow> clients) in m(k \<mapsto> clients @ [c]))"

text \<open>
  Remove the client from the key's list, and the entry with its last client. \<open>None\<close>: the key or
  the client is missing, which the code asserts not to happen.
\<close>

definition index_del :: "'k \<Rightarrow> 'c \<Rightarrow> ('k, 'c) index \<Rightarrow> ('k, 'c) index option" where
  "index_del k c m =
     (case m k of
        None \<Rightarrow> None
      | Some clients \<Rightarrow>
          if c \<notin> set clients then None
          else
            let clients = remove1 c clients; m = m(k \<mapsto> clients)
            in Some (if clients = [] then m(k := None) else m))"

section \<open>Both directions agree\<close>

definition entry_ok :: "'c set \<Rightarrow> 'c list option \<Rightarrow> bool" where
  "entry_ok S e =
     (case e of
        None \<Rightarrow> S = {}
      | Some clients \<Rightarrow> clients \<noteq> [] \<and> distinct clients \<and> set clients = S)"

definition index_inv :: "('c \<Rightarrow> 'k set) \<Rightarrow> ('k, 'c) index \<Rightarrow> bool" where
  "index_inv own m \<longleftrightarrow> (\<forall>k. entry_ok {c. k \<in> own c} (m k))"

lemma index_invD: "index_inv own m \<Longrightarrow> entry_ok {c. k \<in> own c} (m k)"
  by (simp add: index_inv_def)

lemma entry_ok_cases [simp]:
  "entry_ok S None \<longleftrightarrow> S = {}"
  "entry_ok S (Some cl) \<longleftrightarrow> cl \<noteq> [] \<and> distinct cl \<and> set cl = S"
  by (simp_all add: entry_ok_def)

lemma index_inv_empty: "index_inv (\<lambda>_. {}) (\<lambda>_. None)"
  by (simp add: index_inv_def)

lemma index_inv_clients:
  assumes "index_inv own m"
  shows "set (case m k of None \<Rightarrow> [] | Some clients \<Rightarrow> clients) = {c. k \<in> own c}"
    and "distinct (case m k of None \<Rightarrow> [] | Some clients \<Rightarrow> clients)"
  using index_invD [OF assms, of k] by (cases "m k"; simp)+

lemma index_inv_dom: "index_inv own m \<Longrightarrow> k \<in> dom m \<longleftrightarrow> (\<exists>c. k \<in> own c)"
  using index_invD [of own m k] by (cases "m k") (auto simp: neq_Nil_conv)

text \<open>A change at one key.\<close>

lemma index_inv_upd:
  assumes inv: "index_inv own m" and entry: "entry_ok {c. k \<in> own' c} (m' k)"
    and other: "\<And>k'. k' \<noteq> k \<Longrightarrow> m' k' = m k' \<and> {c. k' \<in> own' c} = {c. k' \<in> own c}"
  shows "index_inv own' m'"
  unfolding index_inv_def
proof
  fix k'
  show "entry_ok {c. k' \<in> own' c} (m' k')"
    using entry other [of k'] index_invD [OF inv, of k'] by (cases "k' = k") simp_all
qed

lemma index_add_inv:
  assumes inv: "index_inv own m" and new: "k \<notin> own c"
  shows "index_inv (own(c := insert k (own c))) (index_add k c m)"
proof (rule index_inv_upd [OF inv, of k])
  define cs where "cs = (case m k of None \<Rightarrow> [] | Some cs \<Rightarrow> cs)"
  have cs: "set cs = {c. k \<in> own c}" "distinct cs"
    using index_inv_clients [OF inv, of k] by (simp_all add: cs_def)
  have "{c'. k \<in> (own(c := insert k (own c))) c'} = insert c {c. k \<in> own c}" by auto
  then show "entry_ok {c'. k \<in> (own(c := insert k (own c))) c'} (index_add k c m k)"
    using cs new by (simp add: index_add_def cs_def [symmetric])
qed (auto simp: index_add_def)

lemma index_del_inv:
  assumes inv: "index_inv own m" and mem: "k \<in> own c"
  obtains m' where "index_del k c m = Some m'" "index_inv (own(c := own c - {k})) m'"
    "dom m' \<subseteq> dom m"
proof -
  obtain cs where cs: "m k = Some cs" "distinct cs" "set cs = {c. k \<in> own c}"
    using index_invD [OF inv, of k] mem by (cases "m k") auto
  define m' where "m' = (if remove1 c cs = [] then m(k := None) else m(k \<mapsto> remove1 c cs))"
  have c: "c \<in> set cs" using cs(3) mem by simp
  have "index_del k c m = Some m'" using cs(1) c by (simp add: index_del_def m'_def)
  moreover have "index_inv (own(c := own c - {k})) m'"
  proof (rule index_inv_upd [OF inv, of k])
    have "{c'. k \<in> (own(c := own c - {k})) c'} = {c. k \<in> own c} - {c}" by auto
    then have "set (remove1 c cs) = {c'. k \<in> (own(c := own c - {k})) c'}"
      using cs by (simp add: set_remove1_eq)
    then show "entry_ok {c'. k \<in> (own(c := own c - {k})) c'} (m' k)"
      using distinct_remove1 [OF cs(2), of c] by (cases "remove1 c cs") (simp_all add: m'_def)
  qed (auto simp: m'_def)
  moreover have "dom m' \<subseteq> dom m" using cs(1) by (auto simp: m'_def split: if_splits)
  ultimately show ?thesis using that by blast
qed

section \<open>Loops\<close>

fun fold_opt :: "('a \<Rightarrow> 's \<Rightarrow> 's option) \<Rightarrow> 'a list \<Rightarrow> 's \<Rightarrow> 's option" where
  "fold_opt f [] s = Some s"
| "fold_opt f (x # xs) s = Option.bind (f x s) (fold_opt f xs)"

lemma fold_opt_append: "fold_opt f (xs @ ys) s = Option.bind (fold_opt f xs s) (fold_opt f ys)"
  by (induction xs arbitrary: s) (auto simp: bind_eq_Some_conv split: Option.bind_split)

text \<open>
  What the mass operations - unsubscribe from everything, unwatch everything - rely on: adding or
  removing one key changes only that client's collection, and nothing of the \<open>rest\<close> of the state.
  A \<open>strict\<close> provider removes only keys the client owns.
\<close>

locale client_index =
  fixes ok :: "'s \<Rightarrow> bool" and own :: "'s \<Rightarrow> 'c \<Rightarrow> 'k set" and rest :: "'s \<Rightarrow> 'r" and strict :: bool
    and add :: "'c \<Rightarrow> 'k \<Rightarrow> 's \<Rightarrow> 's" and del :: "'c \<Rightarrow> 'k \<Rightarrow> 's \<Rightarrow> 's option"
  assumes add: "ok s \<Longrightarrow>
      ok (add c k s) \<and> own (add c k s) = (own s)(c := insert k (own s c)) \<and> rest (add c k s) = rest s"
    and del: "\<lbrakk>ok s; strict \<longrightarrow> k \<in> own s c\<rbrakk> \<Longrightarrow>
      \<exists>s'. del c k s = Some s' \<and> ok s' \<and> own s' = (own s)(c := own s c - {k}) \<and> rest s' = rest s"
begin

lemma add_all:
  "ok s \<Longrightarrow> ok (fold (add c) ks s) \<and> own (fold (add c) ks s) = (own s)(c := own s c \<union> set ks) \<and>
     rest (fold (add c) ks s) = rest s"
proof (induction ks arbitrary: s)
  case Nil
  have "(own s)(c := own s c \<union> set []) = own s" by (rule ext) simp
  with Nil show ?case by simp
next
  case (Cons k ks)
  let ?s = "add c k s"
  note a = add [OF Cons.prems, of c k]
  then have "ok ?s" by blast
  note ih = Cons.IH [OF this]
  have upd: "(own ?s)(c := own ?s c \<union> set ks) = (own s)(c := own s c \<union> set (k # ks))"
    by (rule ext) (simp add: a)
  have step: "fold (add c) (k # ks) s = fold (add c) ks ?s" by simp
  show ?case unfolding step upd [symmetric] using ih a by metis
qed

lemma del_all:
  "\<lbrakk>ok s; strict \<longrightarrow> distinct ks \<and> set ks \<subseteq> own s c\<rbrakk> \<Longrightarrow>
   \<exists>s'. fold_opt (del c) ks s = Some s' \<and> ok s' \<and> own s' = (own s)(c := own s c - set ks) \<and>
     rest s' = rest s"
proof (induction ks arbitrary: s)
  case Nil
  have "(own s)(c := own s c - set []) = own s" by (rule ext) simp
  with Nil show ?case by simp
next
  case (Cons k ks)
  have own: "strict \<longrightarrow> k \<in> own s c" using Cons.prems(2) by simp
  obtain s1 where s1: "del c k s = Some s1" "ok s1" "own s1 = (own s)(c := own s c - {k})"
      "rest s1 = rest s"
    using del [OF Cons.prems(1) own] by blast
  have sub: "strict \<longrightarrow> distinct ks \<and> set ks \<subseteq> own s1 c"
    unfolding s1(3) using Cons.prems(2) by simp blast
  obtain s2 where s2: "fold_opt (del c) ks s1 = Some s2" "ok s2"
      "own s2 = (own s1)(c := own s1 c - set ks)" "rest s2 = rest s1"
    using Cons.IH [OF s1(2) sub] by blast
  have upd: "own s2 = (own s)(c := own s c - set (k # ks))"
    by (rule ext) (auto simp: s2(3) s1(3))
  have step: "fold_opt (del c) (k # ks) s = Some s2" using s1(1) s2(1) by simp
  show ?case by (intro exI [of _ s2] conjI step s2(2) upd trans [OF s2(4) s1(4)])
qed

end

end
