(* ===== verification/Pubsub.thy ===== *)
theory Pubsub
  imports ClientIndex Glob "HOL-Library.List_Lexorder"
begin

text \<open>
  Publish/subscribe, \<open>src/pubsub.c\<close>: every client has the set of its channels and the list of its
  patterns, the server the tables from channels and patterns to subscribers and the list of all
  pattern subscriptions. Replies are appended to the output of the client they go to. The order in
  which a hash table is iterated depends on the random seed of the hash function: it is the
  argument \<open>iter\<close>, which lists the keys of a table. \<open>None\<close> is a failed assertion.
\<close>

section \<open>State\<close>

type_synonym client = nat

text \<open>The pieces of a reply, as the \<open>addReply\<close> functions emit them.\<close>

datatype reply = Mbulkhdr nat | PushLen nat | ArrayLen nat | Bulk bytes | NullReply | Num int
  | HelpText | SyntaxError

record ps_client =
  resp :: nat
  cl_channels :: "bytes set"
  cl_patterns :: "bytes list"
  cl_pubsub :: bool
  cl_out :: "reply list"

record pubsub =
  ps_clients :: "client \<Rightarrow> ps_client"
  pubsub_channels :: "(bytes, client) index"
  pubsub_patterns :: "(client \<times> bytes) list"
  pubsub_patterns_dict :: "(bytes, client) index"

definition on_client :: "client \<Rightarrow> (ps_client \<Rightarrow> ps_client) \<Rightarrow> pubsub \<Rightarrow> pubsub" where
  "on_client c f s = s\<lparr>ps_clients := (ps_clients s)(c := f (ps_clients s c))\<rparr>"

definition addReply :: "client \<Rightarrow> reply list \<Rightarrow> pubsub \<Rightarrow> pubsub" where
  "addReply c r s = on_client c (\<lambda>cl. cl\<lparr>cl_out := cl_out cl @ r\<rparr>) s"

definition clientSubscriptionsCount :: "pubsub \<Rightarrow> client \<Rightarrow> nat" where
  "clientSubscriptionsCount s c =
     card (cl_channels (ps_clients s c)) + length (cl_patterns (ps_clients s c))"

section \<open>Replies\<close>

definition reply_head :: "ps_client \<Rightarrow> nat \<Rightarrow> reply" where
  "reply_head cl n = (if resp cl = 2 then Mbulkhdr n else PushLen n)"

definition message_reply :: "ps_client \<Rightarrow> bytes \<Rightarrow> bytes \<Rightarrow> reply list" where
  "message_reply cl channel msg =
     [reply_head cl 3, Bulk (ascii ''message''), Bulk channel, Bulk msg]"

definition addReplyPubsubMessage :: "client \<Rightarrow> bytes \<Rightarrow> bytes \<Rightarrow> pubsub \<Rightarrow> pubsub" where
  "addReplyPubsubMessage c channel msg s =
     addReply c (message_reply (ps_clients s c) channel msg) s"

definition pmessage_reply :: "ps_client \<Rightarrow> bytes \<Rightarrow> bytes \<Rightarrow> bytes \<Rightarrow> reply list" where
  "pmessage_reply cl pat channel msg =
     [reply_head cl 4, Bulk (ascii ''pmessage''), Bulk pat, Bulk channel, Bulk msg]"

definition addReplyPubsubPatMessage :: "client \<Rightarrow> bytes \<Rightarrow> bytes \<Rightarrow> bytes \<Rightarrow> pubsub \<Rightarrow> pubsub" where
  "addReplyPubsubPatMessage c pat channel msg s =
     addReply c (pmessage_reply (ps_clients s c) pat channel msg) s"

definition addReplyPubsubSubscribed :: "client \<Rightarrow> bytes \<Rightarrow> pubsub \<Rightarrow> pubsub" where
  "addReplyPubsubSubscribed c channel s =
     addReply c [reply_head (ps_clients s c) 3, Bulk (ascii ''subscribe''), Bulk channel,
       Num (int (clientSubscriptionsCount s c))] s"

definition addReplyPubsubUnsubscribed :: "client \<Rightarrow> bytes option \<Rightarrow> pubsub \<Rightarrow> pubsub" where
  "addReplyPubsubUnsubscribed c channel s =
     addReply c [reply_head (ps_clients s c) 3, Bulk (ascii ''unsubscribe''),
       (case channel of Some ch \<Rightarrow> Bulk ch | None \<Rightarrow> NullReply),
       Num (int (clientSubscriptionsCount s c))] s"

definition addReplyPubsubPatSubscribed :: "client \<Rightarrow> bytes \<Rightarrow> pubsub \<Rightarrow> pubsub" where
  "addReplyPubsubPatSubscribed c pattern s =
     addReply c [reply_head (ps_clients s c) 3, Bulk (ascii ''psubscribe''), Bulk pattern,
       Num (int (clientSubscriptionsCount s c))] s"

definition addReplyPubsubPatUnsubscribed :: "client \<Rightarrow> bytes option \<Rightarrow> pubsub \<Rightarrow> pubsub" where
  "addReplyPubsubPatUnsubscribed c pattern s =
     addReply c [reply_head (ps_clients s c) 3, Bulk (ascii ''punsubscribe''),
       (case pattern of Some p \<Rightarrow> Bulk p | None \<Rightarrow> NullReply),
       Num (int (clientSubscriptionsCount s c))] s"

section \<open>Subscribing\<close>

definition pubsubSubscribeChannel :: "client \<Rightarrow> bytes \<Rightarrow> pubsub \<Rightarrow> pubsub \<times> bool" where
  "pubsubSubscribeChannel c channel s =
     (let new = channel \<notin> cl_channels (ps_clients s c);
          s = (if new then
                 (on_client c (\<lambda>cl. cl\<lparr>cl_channels := insert channel (cl_channels cl)\<rparr>) s)
                   \<lparr>pubsub_channels := index_add channel c (pubsub_channels s)\<rparr>
               else s)
      in (addReplyPubsubSubscribed c channel s, new))"

definition pubsubUnsubscribeChannel ::
  "client \<Rightarrow> bytes \<Rightarrow> bool \<Rightarrow> pubsub \<Rightarrow> (pubsub \<times> bool) option" where
  "pubsubUnsubscribeChannel c channel notify s =
     (let done = (\<lambda>s. if notify then addReplyPubsubUnsubscribed c (Some channel) s else s)
      in if channel \<in> cl_channels (ps_clients s c) then
           (case index_del channel c (pubsub_channels s) of
              None \<Rightarrow> None
            | Some m \<Rightarrow>
                Some (done ((on_client c (\<lambda>cl. cl\<lparr>cl_channels := cl_channels cl - {channel}\<rparr>) s)
                  \<lparr>pubsub_channels := m\<rparr>), True))
         else Some (done s, False))"

definition pubsubSubscribePattern :: "client \<Rightarrow> bytes \<Rightarrow> pubsub \<Rightarrow> pubsub \<times> bool" where
  "pubsubSubscribePattern c pattern s =
     (let new = pattern \<notin> set (cl_patterns (ps_clients s c));
          s = (if new then
                 (on_client c (\<lambda>cl. cl\<lparr>cl_patterns := cl_patterns cl @ [pattern]\<rparr>) s)
                   \<lparr>pubsub_patterns := pubsub_patterns s @ [(c, pattern)],
                    pubsub_patterns_dict := index_add pattern c (pubsub_patterns_dict s)\<rparr>
               else s)
      in (addReplyPubsubPatSubscribed c pattern s, new))"

definition pubsubUnsubscribePattern ::
  "client \<Rightarrow> bytes \<Rightarrow> bool \<Rightarrow> pubsub \<Rightarrow> (pubsub \<times> bool) option" where
  "pubsubUnsubscribePattern c pattern notify s =
     (let done = (\<lambda>s. if notify then addReplyPubsubPatUnsubscribed c (Some pattern) s else s)
      in if pattern \<in> set (cl_patterns (ps_clients s c)) then
           (if (c, pattern) \<notin> set (pubsub_patterns s) then None
            else
              case index_del pattern c (pubsub_patterns_dict s) of
                None \<Rightarrow> None
              | Some m \<Rightarrow>
                  Some (done ((on_client c (\<lambda>cl. cl\<lparr>cl_patterns := remove1 pattern (cl_patterns cl)\<rparr>) s)
                    \<lparr>pubsub_patterns := remove1 (c, pattern) (pubsub_patterns s),
                     pubsub_patterns_dict := m\<rparr>), True))
         else Some (done s, False))"

text \<open>The loops that unsubscribe from a list of names and count the successes.\<close>

fun unsub_loop :: "(bytes \<Rightarrow> pubsub \<Rightarrow> (pubsub \<times> bool) option) \<Rightarrow> bytes list \<Rightarrow> pubsub \<Rightarrow> nat \<Rightarrow>
    (pubsub \<times> nat) option" where
  "unsub_loop f [] s count = Some (s, count)"
| "unsub_loop f (x # xs) s count =
     (case f x s of
        None \<Rightarrow> None
      | Some (s, retval) \<Rightarrow> unsub_loop f xs s (count + of_bool retval))"

definition pubsubUnsubscribeAllChannels ::
  "(bytes set \<Rightarrow> bytes list) \<Rightarrow> client \<Rightarrow> bool \<Rightarrow> pubsub \<Rightarrow> (pubsub \<times> nat) option" where
  "pubsubUnsubscribeAllChannels iter c notify s =
     map_option (\<lambda>(s, count).
         (if notify \<and> count = 0 then addReplyPubsubUnsubscribed c None s else s, count))
       (unsub_loop (\<lambda>ch. pubsubUnsubscribeChannel c ch notify)
         (iter (cl_channels (ps_clients s c))) s 0)"

definition pubsubUnsubscribeAllPatterns :: "client \<Rightarrow> bool \<Rightarrow> pubsub \<Rightarrow> (pubsub \<times> nat) option" where
  "pubsubUnsubscribeAllPatterns c notify s =
     map_option (\<lambda>(s, count).
         (if notify \<and> count = 0 then addReplyPubsubPatUnsubscribed c None s else s, count))
       (unsub_loop (\<lambda>p. pubsubUnsubscribePattern c p notify) (cl_patterns (ps_clients s c)) s 0)"

section \<open>Publishing\<close>

fun send_all :: "(client \<Rightarrow> pubsub \<Rightarrow> pubsub) \<Rightarrow> client list \<Rightarrow> pubsub \<Rightarrow> nat \<Rightarrow> pubsub \<times> nat" where
  "send_all f [] s receivers = (s, receivers)"
| "send_all f (c # clients) s receivers = send_all f clients (f c s) (receivers + 1)"

fun pattern_loop :: "bytes \<Rightarrow> bytes \<Rightarrow> bytes list \<Rightarrow> pubsub \<Rightarrow> nat \<Rightarrow> pubsub \<times> nat" where
  "pattern_loop channel message [] s receivers = (s, receivers)"
| "pattern_loop channel message (pattern # patterns) s receivers =
     (if \<not> stringmatchlen False pattern channel then
        pattern_loop channel message patterns s receivers
      else
        let clients = (case pubsub_patterns_dict s pattern of None \<Rightarrow> [] | Some cl \<Rightarrow> cl);
            (s, receivers) =
              send_all (\<lambda>c. addReplyPubsubPatMessage c pattern channel message) clients s receivers
        in pattern_loop channel message patterns s receivers)"

definition pubsubPublishMessage ::
  "(bytes set \<Rightarrow> bytes list) \<Rightarrow> bytes \<Rightarrow> bytes \<Rightarrow> pubsub \<Rightarrow> pubsub \<times> nat" where
  "pubsubPublishMessage iter channel message s =
     (let (s, receivers) =
            (case pubsub_channels s channel of
               Some clients \<Rightarrow> send_all (\<lambda>c. addReplyPubsubMessage c channel message) clients s 0
             | None \<Rightarrow> (s, 0))
      in pattern_loop channel message (iter (dom (pubsub_patterns_dict s))) s receivers)"

section \<open>Commands\<close>

definition set_flag :: "client \<Rightarrow> pubsub \<Rightarrow> pubsub" where
  "set_flag c s = on_client c (\<lambda>cl. cl\<lparr>cl_pubsub := True\<rparr>) s"

definition clear_flag :: "client \<Rightarrow> pubsub \<Rightarrow> pubsub" where
  "clear_flag c s =
     (if clientSubscriptionsCount s c = 0 then on_client c (\<lambda>cl. cl\<lparr>cl_pubsub := False\<rparr>) s else s)"

definition subscribeCommand :: "client \<Rightarrow> bytes list \<Rightarrow> pubsub \<Rightarrow> pubsub" where
  "subscribeCommand c args s =
     set_flag c (fold (\<lambda>ch s. fst (pubsubSubscribeChannel c ch s)) args s)"

definition unsubscribeCommand ::
  "(bytes set \<Rightarrow> bytes list) \<Rightarrow> client \<Rightarrow> bytes list \<Rightarrow> pubsub \<Rightarrow> pubsub option" where
  "unsubscribeCommand iter c args s =
     map_option (\<lambda>(s, count). clear_flag c s)
       (if args = [] then pubsubUnsubscribeAllChannels iter c True s
        else unsub_loop (\<lambda>ch. pubsubUnsubscribeChannel c ch True) args s 0)"

definition psubscribeCommand :: "client \<Rightarrow> bytes list \<Rightarrow> pubsub \<Rightarrow> pubsub" where
  "psubscribeCommand c args s =
     set_flag c (fold (\<lambda>p s. fst (pubsubSubscribePattern c p s)) args s)"

definition punsubscribeCommand :: "client \<Rightarrow> bytes list \<Rightarrow> pubsub \<Rightarrow> pubsub option" where
  "punsubscribeCommand c args s =
     map_option (\<lambda>(s, count). clear_flag c s)
       (if args = [] then pubsubUnsubscribeAllPatterns c True s
        else unsub_loop (\<lambda>p. pubsubUnsubscribePattern c p True) args s 0)"

text \<open>Propagation to replicas and to the other nodes of a cluster does not touch this state.\<close>

definition publishCommand ::
  "(bytes set \<Rightarrow> bytes list) \<Rightarrow> client \<Rightarrow> bytes \<Rightarrow> bytes \<Rightarrow> pubsub \<Rightarrow> pubsub" where
  "publishCommand iter c channel message s =
     (let (s, receivers) = pubsubPublishMessage iter channel message s
      in addReply c [Num (int receivers)] s)"

text \<open>\<open>strcasecmp\<close> of an argument with a lower-case word.\<close>

definition is_word :: "bytes \<Rightarrow> string \<Rightarrow> bool" where
  "is_word s w \<longleftrightarrow>
     map (\<lambda>c. if 65 \<le> unat c \<and> unat c \<le> 90 then c + 32 else c) (takeWhile (\<lambda>c. c \<noteq> 0) s) = ascii w"

text \<open>\<open>argv\<close> without the command name; its first element is the subcommand.\<close>

definition pubsubCommand ::
  "(bytes set \<Rightarrow> bytes list) \<Rightarrow> client \<Rightarrow> bytes list \<Rightarrow> pubsub \<Rightarrow> pubsub" where
  "pubsubCommand iter c argv s =
     (let sub = hd argv; args = tl argv
      in if args = [] \<and> is_word sub ''help'' then addReply c [HelpText] s
         else if is_word sub ''channels'' \<and> length args \<le> 1 then
           let found = filter (\<lambda>ch. args = [] \<or> stringmatchlen False (hd args) ch)
                 (iter (dom (pubsub_channels s)))
           in addReply c (ArrayLen (length found) # map Bulk found) s
         else if is_word sub ''numsub'' then
           addReply c (ArrayLen (length args * 2) # concat (map (\<lambda>ch. [Bulk ch,
             Num (case pubsub_channels s ch of None \<Rightarrow> 0 | Some l \<Rightarrow> int (length l))]) args)) s
         else if is_word sub ''numpat'' \<and> args = [] then
           addReply c [Num (int (length (pubsub_patterns s)))] s
         else addReply c [SyntaxError] s)"

text \<open>
  What \<open>freeClient\<close> of \<open>networking.c\<close> does here, without notifying the client; its number may
  then belong to a new client.
\<close>

definition free_subscriptions ::
  "(bytes set \<Rightarrow> bytes list) \<Rightarrow> client \<Rightarrow> pubsub \<Rightarrow> pubsub option" where
  "free_subscriptions iter c s =
     Option.bind (pubsubUnsubscribeAllChannels iter c False s)
       (\<lambda>(s, n). map_option (\<lambda>(s, n). on_client c (\<lambda>cl. cl\<lparr>cl_pubsub := False, cl_out := []\<rparr>) s)
         (pubsubUnsubscribeAllPatterns c False s))"

datatype ps_event = Subscribe client "bytes list" | Unsubscribe client "bytes list"
  | Psubscribe client "bytes list" | Punsubscribe client "bytes list"
  | Publish client bytes bytes | PubsubInfo client "bytes list" | FreeClient client

fun ps_handle :: "(bytes set \<Rightarrow> bytes list) \<Rightarrow> ps_event \<Rightarrow> pubsub \<Rightarrow> pubsub option" where
  "ps_handle iter (Subscribe c args) s = Some (subscribeCommand c args s)"
| "ps_handle iter (Unsubscribe c args) s = unsubscribeCommand iter c args s"
| "ps_handle iter (Psubscribe c args) s = Some (psubscribeCommand c args s)"
| "ps_handle iter (Punsubscribe c args) s = punsubscribeCommand c args s"
| "ps_handle iter (Publish c channel message) s = Some (publishCommand iter c channel message s)"
| "ps_handle iter (PubsubInfo c argv) s = Some (pubsubCommand iter c argv s)"
| "ps_handle iter (FreeClient c) s = free_subscriptions iter c s"

text \<open>Subscription commands have at least one argument (the arity in the command table).\<close>

fun ps_arity :: "ps_event \<Rightarrow> bool" where
  "ps_arity (Subscribe c args) = (args \<noteq> [])"
| "ps_arity (Psubscribe c args) = (args \<noteq> [])"
| "ps_arity (PubsubInfo c argv) = (argv \<noteq> [])"
| "ps_arity e = True"

text \<open>The server with clients that speak the protocol versions \<open>version\<close>, before any command.\<close>

definition ps_init :: "(client \<Rightarrow> nat) \<Rightarrow> pubsub" where
  "ps_init version =
     \<lparr>ps_clients = (\<lambda>c. \<lparr>resp = version c, cl_channels = {}, cl_patterns = [], cl_pubsub = False,
        cl_out = []\<rparr>),
      pubsub_channels = (\<lambda>_. None), pubsub_patterns = [], pubsub_patterns_dict = (\<lambda>_. None)\<rparr>"

inductive ps_reachable :: "(bytes set \<Rightarrow> bytes list) \<Rightarrow> pubsub \<Rightarrow> bool" for iter where
  start: "ps_reachable iter (ps_init version)"
| step: "\<lbrakk>ps_reachable iter s; ps_arity e; ps_handle iter e s = Some s'\<rbrakk> \<Longrightarrow> ps_reachable iter s'"


section \<open>Invariant\<close>

abbreviation channels_of :: "pubsub \<Rightarrow> client \<Rightarrow> bytes set" where
  "channels_of s \<equiv> \<lambda>c. cl_channels (ps_clients s c)"

abbreviation patterns_of :: "pubsub \<Rightarrow> client \<Rightarrow> bytes set" where
  "patterns_of s \<equiv> \<lambda>c. set (cl_patterns (ps_clients s c))"

definition ps_ok :: "pubsub \<Rightarrow> bool" where
  "ps_ok s \<longleftrightarrow>
     index_inv (channels_of s) (pubsub_channels s) \<and> finite (dom (pubsub_channels s)) \<and>
     index_inv (patterns_of s) (pubsub_patterns_dict s) \<and> finite (dom (pubsub_patterns_dict s)) \<and>
     (\<forall>c. finite (channels_of s c) \<and> distinct (cl_patterns (ps_clients s c))) \<and>
     distinct (pubsub_patterns s) \<and>
     (\<forall>c p. (c, p) \<in> set (pubsub_patterns s) \<longleftrightarrow> p \<in> patterns_of s c)"

text \<open>Between commands the flag of a client says whether it has subscriptions.\<close>

definition flags_ok :: "pubsub \<Rightarrow> bool" where
  "flags_ok s \<longleftrightarrow> (\<forall>c. cl_pubsub (ps_clients s c) \<longleftrightarrow> 0 < clientSubscriptionsCount s c)"

abbreviation flags_of :: "pubsub \<Rightarrow> client \<Rightarrow> bool" where
  "flags_of s \<equiv> \<lambda>c. cl_pubsub (ps_clients s c)"

text \<open>Output appended to the clients.\<close>

definition extend :: "(client \<Rightarrow> reply list) \<Rightarrow> pubsub \<Rightarrow> pubsub" where
  "extend h s = s\<lparr>ps_clients := (\<lambda>d. (ps_clients s d)\<lparr>cl_out := cl_out (ps_clients s d) @ h d\<rparr>)\<rparr>"

lemma extend_simps [simp]:
  "pubsub_channels (extend h s) = pubsub_channels s"
  "pubsub_patterns (extend h s) = pubsub_patterns s"
  "pubsub_patterns_dict (extend h s) = pubsub_patterns_dict s"
  "cl_channels (ps_clients (extend h s) d) = cl_channels (ps_clients s d)"
  "cl_patterns (ps_clients (extend h s) d) = cl_patterns (ps_clients s d)"
  "cl_pubsub (ps_clients (extend h s) d) = cl_pubsub (ps_clients s d)"
  "cl_out (ps_clients (extend h s) d) = cl_out (ps_clients s d) @ h d"
  "resp (ps_clients (extend h s) d) = resp (ps_clients s d)"
  by (simp_all add: extend_def)

lemma extend_extend: "extend h2 (extend h1 s) = extend (\<lambda>d. h1 d @ h2 d) s"
  by (simp add: extend_def)

lemma extend_nil [simp]: "extend (\<lambda>d. []) s = s"
  by (simp add: extend_def)

lemma addReply_extend: "addReply c r s = extend (\<lambda>d. if d = c then r else []) s"
proof -
  have "(ps_clients s)(c := (ps_clients s c)\<lparr>cl_out := cl_out (ps_clients s c) @ r\<rparr>) =
      (\<lambda>d. (ps_clients s d)\<lparr>cl_out := cl_out (ps_clients s d) @ (if d = c then r else [])\<rparr>)"
    by (rule ext) simp
  then show ?thesis by (simp add: addReply_def on_client_def extend_def)
qed

lemma extend_ok [simp]: "ps_ok (extend h s) = ps_ok s" "flags_ok (extend h s) = flags_ok s"
  "clientSubscriptionsCount (extend h s) c = clientSubscriptionsCount s c"
  by (simp_all add: ps_ok_def flags_ok_def clientSubscriptionsCount_def)

lemmas reply_defs = addReplyPubsubSubscribed_def addReplyPubsubUnsubscribed_def
  addReplyPubsubPatSubscribed_def addReplyPubsubPatUnsubscribed_def
  addReplyPubsubMessage_def addReplyPubsubPatMessage_def addReply_extend

section \<open>Subscriptions keep the invariant\<close>

lemma subscribe_channel_ok:
  assumes ok: "ps_ok s"
  shows "ps_ok (fst (pubsubSubscribeChannel c ch s)) \<and>
    channels_of (fst (pubsubSubscribeChannel c ch s)) = (channels_of s)(c := insert ch (channels_of s c)) \<and>
    patterns_of (fst (pubsubSubscribeChannel c ch s)) = patterns_of s \<and>
    flags_of (fst (pubsubSubscribeChannel c ch s)) = flags_of s"
proof (cases "ch \<in> channels_of s c")
  case True
  have "(channels_of s)(c := channels_of s c) = channels_of s" by (rule ext) simp
  with True show ?thesis
    using ok by (simp add: pubsubSubscribeChannel_def reply_defs insert_absorb)
next
  case False
  define s1 where "s1 = (on_client c (\<lambda>cl. cl\<lparr>cl_channels := insert ch (cl_channels cl)\<rparr>) s)
    \<lparr>pubsub_channels := index_add ch c (pubsub_channels s)\<rparr>"
  have own: "channels_of s1 = (channels_of s)(c := insert ch (channels_of s c))"
    by (rule ext) (simp add: s1_def on_client_def)
  have pat: "cl_patterns (ps_clients s1 d) = cl_patterns (ps_clients s d)" for d
    by (simp add: s1_def on_client_def)
  have "index_inv (channels_of s) (pubsub_channels s)" using ok by (simp add: ps_ok_def)
  from index_add_inv [OF this False]
  have "index_inv (channels_of s1) (pubsub_channels s1)" unfolding own by (simp add: s1_def)
  moreover have "dom (pubsub_channels s1) = insert ch (dom (pubsub_channels s))"
    by (auto simp: s1_def index_add_def)
  moreover have "pubsub_patterns s1 = pubsub_patterns s" "pubsub_patterns_dict s1 = pubsub_patterns_dict s"
    by (simp_all add: s1_def on_client_def)
  moreover have "finite (channels_of s1 d)" for d
    using ok fun_cong [OF own, of d] by (simp add: ps_ok_def)
  ultimately have "ps_ok s1" using ok by (simp add: ps_ok_def pat)
  moreover have "flags_of s1 = flags_of s" by (rule ext) (simp add: s1_def on_client_def)
  moreover have "fst (pubsubSubscribeChannel c ch s) = addReplyPubsubSubscribed c ch s1"
    using False by (simp add: pubsubSubscribeChannel_def Let_def s1_def)
  ultimately show ?thesis using own pat by (simp add: reply_defs)
qed

lemma unsubscribe_channel_ok:
  assumes ok: "ps_ok s"
  shows "\<exists>s'. pubsubUnsubscribeChannel c ch notify s = Some (s', ch \<in> channels_of s c) \<and> ps_ok s' \<and>
    channels_of s' = (channels_of s)(c := channels_of s c - {ch}) \<and>
    patterns_of s' = patterns_of s \<and> flags_of s' = flags_of s"
proof (cases "ch \<in> channels_of s c")
  case False
  then have "(channels_of s)(c := channels_of s c - {ch}) = channels_of s" by auto
  with False ok show ?thesis by (auto simp: pubsubUnsubscribeChannel_def reply_defs)
next
  case True
  have "index_inv (channels_of s) (pubsub_channels s)" using ok by (simp add: ps_ok_def)
  then obtain m where m: "index_del ch c (pubsub_channels s) = Some m"
    "index_inv ((channels_of s)(c := channels_of s c - {ch})) m" "dom m \<subseteq> dom (pubsub_channels s)"
    using index_del_inv [of "channels_of s" _ ch c] True by blast
  define s1 where "s1 = (on_client c (\<lambda>cl. cl\<lparr>cl_channels := cl_channels cl - {ch}\<rparr>) s)
    \<lparr>pubsub_channels := m\<rparr>"
  have own: "channels_of s1 = (channels_of s)(c := channels_of s c - {ch})"
    by (rule ext) (simp add: s1_def on_client_def)
  have pat: "cl_patterns (ps_clients s1 d) = cl_patterns (ps_clients s d)" for d
    by (simp add: s1_def on_client_def)
  have "index_inv (channels_of s1) (pubsub_channels s1)" unfolding own using m(2) by (simp add: s1_def)
  moreover have "finite (dom (pubsub_channels s1))"
    using ok m(3) by (auto simp: s1_def ps_ok_def intro: finite_subset)
  moreover have "pubsub_patterns s1 = pubsub_patterns s" "pubsub_patterns_dict s1 = pubsub_patterns_dict s"
    by (simp_all add: s1_def on_client_def)
  moreover have "finite (channels_of s1 d)" for d
    using ok fun_cong [OF own, of d] by (simp add: ps_ok_def)
  ultimately have "ps_ok s1" using ok by (simp add: ps_ok_def pat)
  moreover have "flags_of s1 = flags_of s" by (rule ext) (simp add: s1_def on_client_def)
  moreover have "pubsubUnsubscribeChannel c ch notify s =
      Some (if notify then addReplyPubsubUnsubscribed c (Some ch) s1 else s1, True)"
    using True m(1) by (simp add: pubsubUnsubscribeChannel_def Let_def s1_def)
  ultimately show ?thesis using own pat True by (simp add: reply_defs)
qed

lemma subscribe_pattern_ok:
  assumes ok: "ps_ok s"
  shows "ps_ok (fst (pubsubSubscribePattern c p s)) \<and>
    patterns_of (fst (pubsubSubscribePattern c p s)) = (patterns_of s)(c := insert p (patterns_of s c)) \<and>
    channels_of (fst (pubsubSubscribePattern c p s)) = channels_of s \<and>
    flags_of (fst (pubsubSubscribePattern c p s)) = flags_of s"
proof (cases "p \<in> patterns_of s c")
  case True
  have "(patterns_of s)(c := patterns_of s c) = patterns_of s" by (rule ext) simp
  with True show ?thesis
    using ok by (simp add: pubsubSubscribePattern_def reply_defs insert_absorb)
next
  case False
  define s1 where "s1 = (on_client c (\<lambda>cl. cl\<lparr>cl_patterns := cl_patterns cl @ [p]\<rparr>) s)
    \<lparr>pubsub_patterns := pubsub_patterns s @ [(c, p)],
     pubsub_patterns_dict := index_add p c (pubsub_patterns_dict s)\<rparr>"
  have own: "patterns_of s1 = (patterns_of s)(c := insert p (patterns_of s c))"
    by (rule ext) (simp add: s1_def on_client_def)
  have ch: "channels_of s1 = channels_of s" "pubsub_channels s1 = pubsub_channels s"
    by ((rule ext)?, simp add: s1_def on_client_def)+
  have "index_inv (patterns_of s) (pubsub_patterns_dict s)" using ok by (simp add: ps_ok_def)
  from index_add_inv [OF this False]
  have "index_inv (patterns_of s1) (pubsub_patterns_dict s1)" unfolding own by (simp add: s1_def)
  moreover have "dom (pubsub_patterns_dict s1) = insert p (dom (pubsub_patterns_dict s))"
    by (auto simp: s1_def index_add_def)
  moreover have "distinct (cl_patterns (ps_clients s1 d))" for d
    using ok False by (simp add: ps_ok_def s1_def on_client_def)
  moreover have "distinct (pubsub_patterns s1)"
    using ok False by (simp add: ps_ok_def s1_def)
  moreover have "(d, q) \<in> set (pubsub_patterns s1) \<longleftrightarrow> q \<in> patterns_of s1 d" for d q
    using ok by (auto simp: ps_ok_def s1_def on_client_def)
  moreover have "finite (channels_of s1 d)" for d
    using ok fun_cong [OF ch(1), of d] by (simp add: ps_ok_def)
  ultimately have "ps_ok s1" using ok ch by (simp add: ps_ok_def)
  moreover have "flags_of s1 = flags_of s" by (rule ext) (simp add: s1_def on_client_def)
  moreover have "fst (pubsubSubscribePattern c p s) = addReplyPubsubPatSubscribed c p s1"
    using False by (simp add: pubsubSubscribePattern_def Let_def s1_def)
  ultimately show ?thesis using own ch by (simp add: reply_defs)
qed

lemma unsubscribe_pattern_ok:
  assumes ok: "ps_ok s"
  shows "\<exists>s'. pubsubUnsubscribePattern c p notify s = Some (s', p \<in> patterns_of s c) \<and> ps_ok s' \<and>
    patterns_of s' = (patterns_of s)(c := patterns_of s c - {p}) \<and>
    channels_of s' = channels_of s \<and> flags_of s' = flags_of s"
proof (cases "p \<in> patterns_of s c")
  case False
  then have "(patterns_of s)(c := patterns_of s c - {p}) = patterns_of s" by auto
  with False ok show ?thesis by (auto simp: pubsubUnsubscribePattern_def reply_defs)
next
  case True
  have "index_inv (patterns_of s) (pubsub_patterns_dict s)" using ok by (simp add: ps_ok_def)
  then obtain m where m: "index_del p c (pubsub_patterns_dict s) = Some m"
    "index_inv ((patterns_of s)(c := patterns_of s c - {p})) m" "dom m \<subseteq> dom (pubsub_patterns_dict s)"
    using index_del_inv [of "patterns_of s" _ p c] True by blast
  define s1 where "s1 = (on_client c (\<lambda>cl. cl\<lparr>cl_patterns := remove1 p (cl_patterns cl)\<rparr>) s)
    \<lparr>pubsub_patterns := remove1 (c, p) (pubsub_patterns s), pubsub_patterns_dict := m\<rparr>"
  have d: "distinct (cl_patterns (ps_clients s d))" for d using ok by (simp add: ps_ok_def)
  have own: "patterns_of s1 = (patterns_of s)(c := patterns_of s c - {p})"
    by (rule ext) (simp add: s1_def on_client_def d)
  have ch: "channels_of s1 = channels_of s" "pubsub_channels s1 = pubsub_channels s"
    by ((rule ext)?, simp add: s1_def on_client_def)+
  have "index_inv (patterns_of s1) (pubsub_patterns_dict s1)" unfolding own using m(2) by (simp add: s1_def)
  moreover have "finite (dom (pubsub_patterns_dict s1))"
    using ok m(3) by (auto simp: s1_def ps_ok_def intro: finite_subset)
  moreover have "distinct (cl_patterns (ps_clients s1 e))" for e
    using d by (simp add: s1_def on_client_def)
  moreover have "distinct (pubsub_patterns s1)"
    using ok by (simp add: ps_ok_def s1_def)
  moreover have "(e, q) \<in> set (pubsub_patterns s1) \<longleftrightarrow> q \<in> patterns_of s1 e" for e q
    using ok d by (auto simp: ps_ok_def s1_def on_client_def)
  moreover have "finite (channels_of s1 e)" for e
    using ok fun_cong [OF ch(1), of e] by (simp add: ps_ok_def)
  ultimately have "ps_ok s1" using ok ch by (simp add: ps_ok_def)
  moreover have "flags_of s1 = flags_of s" by (rule ext) (simp add: s1_def on_client_def)
  moreover have "(c, p) \<in> set (pubsub_patterns s)" using ok True by (simp add: ps_ok_def)
  then have "pubsubUnsubscribePattern c p notify s =
      Some (if notify then addReplyPubsubPatUnsubscribed c (Some p) s1 else s1, True)"
    using True m(1) by (simp add: pubsubUnsubscribePattern_def Let_def s1_def)
  ultimately show ?thesis using own ch True by (simp add: reply_defs)
qed


section \<open>The tables are client indexes\<close>

interpretation ps_chan: client_index ps_ok channels_of "\<lambda>s. (patterns_of s, flags_of s)" False
    "\<lambda>c ch s. fst (pubsubSubscribeChannel c ch s)"
    "\<lambda>c ch s. map_option fst (pubsubUnsubscribeChannel c ch notify s)" for notify
proof (unfold_locales, goal_cases)
  case (1 s c k)
  then show ?case using subscribe_channel_ok [OF 1, of c k] by simp
next
  case (2 s k c)
  obtain s' where "pubsubUnsubscribeChannel c k notify s = Some (s', k \<in> channels_of s c)" "ps_ok s'"
    "channels_of s' = (channels_of s)(c := channels_of s c - {k})"
    "patterns_of s' = patterns_of s" "flags_of s' = flags_of s"
    using unsubscribe_channel_ok [OF 2(1), of c k notify] by blast
  then show ?case by (intro exI [of _ s']) simp
qed

interpretation ps_pat: client_index ps_ok patterns_of "\<lambda>s. (channels_of s, flags_of s)" False
    "\<lambda>c p s. fst (pubsubSubscribePattern c p s)"
    "\<lambda>c p s. map_option fst (pubsubUnsubscribePattern c p notify s)" for notify
proof (unfold_locales, goal_cases)
  case (1 s c k)
  then show ?case using subscribe_pattern_ok [OF 1, of c k] by simp
next
  case (2 s k c)
  obtain s' where "pubsubUnsubscribePattern c k notify s = Some (s', k \<in> patterns_of s c)" "ps_ok s'"
    "patterns_of s' = (patterns_of s)(c := patterns_of s c - {k})"
    "channels_of s' = channels_of s" "flags_of s' = flags_of s"
    using unsubscribe_pattern_ok [OF 2(1), of c k notify] by blast
  then show ?case by (intro exI [of _ s']) simp
qed

lemma unsub_loop_fold:
  "map_option fst (unsub_loop f xs s k) = fold_opt (\<lambda>x s. map_option fst (f x s)) xs s"
proof (induction xs arbitrary: s k)
  case (Cons x xs)
  then show ?case by (cases "f x s") auto
qed simp

lemma unsub_channels_loop:
  assumes "ps_ok s"
  obtains s' n where "unsub_loop (\<lambda>ch. pubsubUnsubscribeChannel c ch notify) chs s k = Some (s', n)"
    "ps_ok s'" "channels_of s' = (channels_of s)(c := channels_of s c - set chs)"
    "patterns_of s' = patterns_of s" "flags_of s' = flags_of s"
proof -
  let ?u = "unsub_loop (\<lambda>ch. pubsubUnsubscribeChannel c ch notify) chs s k"
  obtain s' where s': "map_option fst ?u = Some s'" "ps_ok s'"
    "channels_of s' = (channels_of s)(c := channels_of s c - set chs)"
    "(patterns_of s', flags_of s') = (patterns_of s, flags_of s)"
    using ps_chan.del_all [OF assms, of chs c notify] unfolding unsub_loop_fold by blast
  then obtain n where "?u = Some (s', n)" by auto
  then show ?thesis using that s' by blast
qed

lemma unsub_patterns_loop:
  assumes "ps_ok s"
  obtains s' n where "unsub_loop (\<lambda>p. pubsubUnsubscribePattern c p notify) ps s k = Some (s', n)"
    "ps_ok s'" "patterns_of s' = (patterns_of s)(c := patterns_of s c - set ps)"
    "channels_of s' = channels_of s" "flags_of s' = flags_of s"
proof -
  let ?u = "unsub_loop (\<lambda>p. pubsubUnsubscribePattern c p notify) ps s k"
  obtain s' where s': "map_option fst ?u = Some s'" "ps_ok s'"
    "patterns_of s' = (patterns_of s)(c := patterns_of s c - set ps)"
    "(channels_of s', flags_of s') = (channels_of s, flags_of s)"
    using ps_pat.del_all [OF assms, of ps c notify] unfolding unsub_loop_fold by blast
  then obtain n where "?u = Some (s', n)" by auto
  then show ?thesis using that s' by blast
qed

section \<open>Publishing\<close>

lemma send_all_extend:
  assumes "\<And>c h. f c (extend h s) = extend (\<lambda>d. h d @ (if d = c then g c else [])) s"
  shows "distinct cl \<Longrightarrow> send_all f cl (extend h s) n =
    (extend (\<lambda>d. h d @ (if d \<in> set cl then g d else [])) s, n + length cl)"
proof (induction cl arbitrary: h n)
  case (Cons c cl)
  have "(\<lambda>d. (h d @ (if d = c then g c else [])) @ (if d \<in> set cl then g d else [])) =
      (\<lambda>d. h d @ (if d \<in> set (c # cl) then g d else []))"
    using Cons.prems by auto
  then show ?case using Cons by (simp add: assms)
qed simp

lemma reply_extend:
  "message_reply (ps_clients (extend h s) c) ch m = message_reply (ps_clients s c) ch m"
  "pmessage_reply (ps_clients (extend h s) c) p ch m = pmessage_reply (ps_clients s c) p ch m"
  by (simp_all add: message_reply_def pmessage_reply_def reply_head_def)

lemma if_conc: "(if d = c then a else []) = (if d = c then b else []) \<longleftrightarrow> (d = c \<longrightarrow> a = b)"
  by simp

lemma send_messages:
  "distinct cl \<Longrightarrow> send_all (\<lambda>c. addReplyPubsubMessage c ch m) cl (extend h s) n =
    (extend (\<lambda>d. h d @ (if d \<in> set cl then message_reply (ps_clients s d) ch m else [])) s, n + length cl)"
  by (rule send_all_extend) (simp_all add: addReplyPubsubMessage_def addReply_extend extend_extend reply_extend)

lemma send_pmessages:
  "distinct cl \<Longrightarrow> send_all (\<lambda>c. addReplyPubsubPatMessage c p ch m) cl (extend h s) n =
    (extend (\<lambda>d. h d @ (if d \<in> set cl then pmessage_reply (ps_clients s d) p ch m else [])) s, n + length cl)"
  by (rule send_all_extend) (simp_all add: addReplyPubsubPatMessage_def addReply_extend extend_extend reply_extend)

text \<open>What a publication appends to the output of a client for the patterns \<open>ps\<close>.\<close>

definition pattern_output :: "pubsub \<Rightarrow> bytes \<Rightarrow> bytes \<Rightarrow> bytes list \<Rightarrow> client \<Rightarrow> reply list" where
  "pattern_output s ch m ps d =
     concat (map (\<lambda>p. pmessage_reply (ps_clients s d) p ch m)
       (filter (\<lambda>p. stringmatchlen False p ch \<and> p \<in> patterns_of s d) ps))"

definition pattern_receivers :: "pubsub \<Rightarrow> bytes \<Rightarrow> bytes list \<Rightarrow> nat" where
  "pattern_receivers s ch ps =
     sum_list (map (\<lambda>p. card {d. p \<in> patterns_of s d}) (filter (\<lambda>p. stringmatchlen False p ch) ps))"

lemma pattern_loop_extend:
  assumes ok: "ps_ok s"
  shows "pattern_loop ch m ps (extend h s) n =
    (extend (\<lambda>d. h d @ pattern_output s ch m ps d) s, n + pattern_receivers s ch ps)"
proof (induction ps arbitrary: h n)
  case Nil
  show ?case by (simp add: pattern_output_def pattern_receivers_def)
next
  case (Cons p ps)
  show ?case
  proof (cases "stringmatchlen False p ch")
    case False
    then show ?thesis using Cons by (simp add: pattern_output_def pattern_receivers_def)
  next
    case True
    define cl where "cl = (case pubsub_patterns_dict s p of None \<Rightarrow> [] | Some cl \<Rightarrow> cl)"
    have inv: "index_inv (patterns_of s) (pubsub_patterns_dict s)" using ok by (simp add: ps_ok_def)
    have cl: "set cl = {d. p \<in> patterns_of s d}" "distinct cl"
      using index_inv_clients [OF inv, of p] by (simp_all add: cl_def)
    have len: "length cl = card {d. p \<in> patterns_of s d}" using cl distinct_card by metis
    have "pattern_loop ch m (p # ps) (extend h s) n =
        pattern_loop ch m ps (extend (\<lambda>d. h d @
          (if d \<in> set cl then pmessage_reply (ps_clients s d) p ch m else [])) s) (n + length cl)"
      using True send_pmessages [OF cl(2), of p ch m h s n] by (simp add: cl_def)
    also have "\<dots> = (extend (\<lambda>d. h d @ pattern_output s ch m (p # ps) d) s,
        n + pattern_receivers s ch (p # ps))"
      unfolding Cons using True cl(1) len
      by (auto simp: pattern_output_def pattern_receivers_def intro!: arg_cong2 [where f = extend] ext)
    finally show ?thesis .
  qed
qed

lemma publish_eq:
  assumes ok: "ps_ok s"
  shows "pubsubPublishMessage iter ch m s =
    (extend (\<lambda>d. (if ch \<in> channels_of s d then message_reply (ps_clients s d) ch m else []) @
        pattern_output s ch m (iter (dom (pubsub_patterns_dict s))) d) s,
     card {d. ch \<in> channels_of s d} + pattern_receivers s ch (iter (dom (pubsub_patterns_dict s))))"
proof -
  define cl where "cl = (case pubsub_channels s ch of None \<Rightarrow> [] | Some cl \<Rightarrow> cl)"
  have inv: "index_inv (channels_of s) (pubsub_channels s)" using ok by (simp add: ps_ok_def)
  have cl: "set cl = {d. ch \<in> channels_of s d}" "distinct cl"
    using index_inv_clients [OF inv, of ch] by (simp_all add: cl_def)
  have len: "length cl = card {d. ch \<in> channels_of s d}" using cl distinct_card by metis
  let ?h = "\<lambda>d. if ch \<in> channels_of s d then message_reply (ps_clients s d) ch m else []"
  have "(case pubsub_channels s ch of
      Some clients \<Rightarrow> send_all (\<lambda>c. addReplyPubsubMessage c ch m) clients s 0 | None \<Rightarrow> (s, 0)) =
      send_all (\<lambda>c. addReplyPubsubMessage c ch m) cl (extend (\<lambda>d. []) s) 0"
    by (simp add: cl_def split: option.split)
  also have "\<dots> = (extend ?h s, length cl)"
    unfolding send_messages [OF cl(2)] using cl(1) by simp
  finally show ?thesis
    by (simp add: pubsubPublishMessage_def pattern_loop_extend [OF ok] len
        extend_simps)
qed


section \<open>Commands\<close>

text \<open>An iteration over a table visits every key once.\<close>

definition iter_ok :: "(bytes set \<Rightarrow> bytes list) \<Rightarrow> bool" where
  "iter_ok iter \<longleftrightarrow> (\<forall>S. finite S \<longrightarrow> distinct (iter S) \<and> set (iter S) = S)"

text \<open>The meaning of a command for the subscriptions.\<close>

type_synonym subs = "(client \<Rightarrow> bytes set) \<times> (client \<Rightarrow> bytes set)"

fun ps_spec :: "ps_event \<Rightarrow> subs \<Rightarrow> subs" where
  "ps_spec (Subscribe c args) (ch, pt) = (ch(c := ch c \<union> set args), pt)"
| "ps_spec (Unsubscribe c args) (ch, pt) = (ch(c := if args = [] then {} else ch c - set args), pt)"
| "ps_spec (Psubscribe c args) (ch, pt) = (ch, pt(c := pt c \<union> set args))"
| "ps_spec (Punsubscribe c args) (ch, pt) = (ch, pt(c := if args = [] then {} else pt c - set args))"
| "ps_spec (FreeClient c) (ch, pt) = (ch(c := {}), pt(c := {}))"
| "ps_spec e (ch, pt) = (ch, pt)"

definition subs_of :: "pubsub \<Rightarrow> subs" where
  "subs_of s = (channels_of s, patterns_of s)"

lemma count_ok:
  "ps_ok s \<Longrightarrow> clientSubscriptionsCount s c = card (channels_of s c) + card (patterns_of s c)"
  by (simp add: clientSubscriptionsCount_def ps_ok_def distinct_card)

lemma flag_upd [simp]:
  "cl_channels (ps_clients (on_client c (\<lambda>cl. cl\<lparr>cl_pubsub := b\<rparr>) s) d) = cl_channels (ps_clients s d)"
  "cl_patterns (ps_clients (on_client c (\<lambda>cl. cl\<lparr>cl_pubsub := b\<rparr>) s) d) = cl_patterns (ps_clients s d)"
  "cl_pubsub (ps_clients (on_client c (\<lambda>cl. cl\<lparr>cl_pubsub := b\<rparr>) s) d) =
     (if d = c then b else cl_pubsub (ps_clients s d))"
  "pubsub_channels (on_client c f s) = pubsub_channels s"
  "pubsub_patterns (on_client c f s) = pubsub_patterns s"
  "pubsub_patterns_dict (on_client c f s) = pubsub_patterns_dict s"
  by (simp_all add: on_client_def)

lemma flag_upd_ok [simp]: "ps_ok (on_client c (\<lambda>cl. cl\<lparr>cl_pubsub := b\<rparr>) s) = ps_ok s"
  by (simp add: ps_ok_def)

definition good_flag :: "pubsub \<Rightarrow> client \<Rightarrow> bool" where
  "good_flag s c \<longleftrightarrow> (flags_of s c \<longleftrightarrow> channels_of s c \<noteq> {} \<or> patterns_of s c \<noteq> {})"

lemma flags_ok_good: "ps_ok s \<Longrightarrow> flags_ok s \<longleftrightarrow> (\<forall>c. good_flag s c)"
  using count_ok [of s] by (auto simp: flags_ok_def ps_ok_def card_gt_0_iff good_flag_def)

lemma set_flag_ok:
  assumes "ps_ok s" "\<forall>d. d \<noteq> c \<longrightarrow> good_flag s d"
    and "channels_of s c \<noteq> {} \<or> patterns_of s c \<noteq> {}"
  shows "ps_ok (set_flag c s) \<and> flags_ok (set_flag c s) \<and> subs_of (set_flag c s) = subs_of s"
proof -
  have "ps_ok (set_flag c s)" using assms(1) by (simp add: set_flag_def)
  moreover have "good_flag (set_flag c s) d" for d
    using assms(2,3) by (cases "d = c") (simp_all add: set_flag_def good_flag_def)
  ultimately show ?thesis by (simp add: flags_ok_good) (simp add: subs_of_def set_flag_def)
qed

lemma clear_flag_ok:
  assumes ok: "ps_ok s" and flags: "\<forall>d. d \<noteq> c \<longrightarrow> good_flag s d"
    and f: "channels_of s c \<noteq> {} \<or> patterns_of s c \<noteq> {} \<longrightarrow> flags_of s c"
  shows "ps_ok (clear_flag c s) \<and> flags_ok (clear_flag c s) \<and> subs_of (clear_flag c s) = subs_of s"
proof -
  have z: "clientSubscriptionsCount s c = 0 \<longleftrightarrow> channels_of s c = {} \<and> patterns_of s c = {}"
    using ok count_ok [OF ok, of c] by (auto simp: ps_ok_def)
  have "ps_ok (clear_flag c s)" using ok by (simp add: clear_flag_def)
  moreover have "good_flag (clear_flag c s) d" for d
    using flags f z by (cases "d = c") (auto simp: clear_flag_def good_flag_def)
  ultimately show ?thesis by (simp add: flags_ok_good) (simp add: subs_of_def clear_flag_def)
qed

lemma free_client_ok:
  assumes "ps_ok s" "\<forall>d. d \<noteq> c \<longrightarrow> good_flag s d" "channels_of s c = {}" "patterns_of s c = {}"
  shows "ps_ok (on_client c (\<lambda>cl. cl\<lparr>cl_pubsub := False, cl_out := []\<rparr>) s) \<and>
    flags_ok (on_client c (\<lambda>cl. cl\<lparr>cl_pubsub := False, cl_out := []\<rparr>) s) \<and>
    subs_of (on_client c (\<lambda>cl. cl\<lparr>cl_pubsub := False, cl_out := []\<rparr>) s) = subs_of s"
proof -
  let ?s = "on_client c (\<lambda>cl. cl\<lparr>cl_pubsub := False, cl_out := []\<rparr>) s"
  have e: "cl_channels (ps_clients ?s d) = cl_channels (ps_clients s d)"
    "cl_patterns (ps_clients ?s d) = cl_patterns (ps_clients s d)"
    "cl_pubsub (ps_clients ?s d) = (d \<noteq> c \<and> cl_pubsub (ps_clients s d))" for d
    by (simp_all add: on_client_def)
  have "ps_ok ?s" using assms(1) by (simp add: ps_ok_def e)
  moreover have "good_flag ?s d" for d
    using assms(2-4) by (cases "d = c") (simp_all add: good_flag_def e)
  ultimately show ?thesis by (simp add: flags_ok_good) (simp add: subs_of_def e)
qed

text \<open>Flags of clients whose subscriptions did not change.\<close>

lemma good_flag_same:
  assumes "good_flag s d" "channels_of s' d = channels_of s d" "patterns_of s' d = patterns_of s d"
    "flags_of s' = flags_of s"
  shows "good_flag s' d"
  using assms(1-3) fun_cong [OF assms(4), of d] by (simp add: good_flag_def)

lemma ps_handle_ok:
  assumes ok: "ps_ok s" "flags_ok s" and iter: "iter_ok iter" and ar: "ps_arity e"
  shows "\<exists>s'. ps_handle iter e s = Some s' \<and> ps_ok s' \<and> flags_ok s' \<and>
    subs_of s' = ps_spec e (subs_of s)"
proof -
  have good: "good_flag s d" for d using ok flags_ok_good by blast
  show ?thesis
  proof (cases e)
    case (Subscribe c args)
    define s1 where "s1 = fold (\<lambda>ch s. fst (pubsubSubscribeChannel c ch s)) args s"
    have s1: "ps_ok s1" "channels_of s1 = (channels_of s)(c := channels_of s c \<union> set args)"
      "patterns_of s1 = patterns_of s" "flags_of s1 = flags_of s"
      using ps_chan.add_all [OF ok(1), of c args] by (simp_all add: s1_def)
    have "good_flag s1 d" if "d \<noteq> c" for d
      using good_flag_same [OF good, of s1 d] fun_cong [OF s1(2), of d] fun_cong [OF s1(3), of d]
        s1(4) that by simp
    moreover have "channels_of s1 c \<noteq> {}"
      using ar Subscribe fun_cong [OF s1(2), of c] by simp
    ultimately show ?thesis
      using set_flag_ok [OF s1(1), of c] s1(2,3) Subscribe
      by (simp add: subscribeCommand_def s1_def [symmetric] subs_of_def)
  next
    case (Psubscribe c args)
    define s1 where "s1 = fold (\<lambda>p s. fst (pubsubSubscribePattern c p s)) args s"
    have s1: "ps_ok s1" "patterns_of s1 = (patterns_of s)(c := patterns_of s c \<union> set args)"
      "channels_of s1 = channels_of s" "flags_of s1 = flags_of s"
      using ps_pat.add_all [OF ok(1), of c args] by (simp_all add: s1_def)
    have "good_flag s1 d" if "d \<noteq> c" for d
      using good_flag_same [OF good, of s1 d] fun_cong [OF s1(2), of d] fun_cong [OF s1(3), of d]
        s1(4) that by simp
    moreover have "patterns_of s1 c \<noteq> {}"
      using ar Psubscribe fun_cong [OF s1(2), of c] by simp
    ultimately show ?thesis
      using set_flag_ok [OF s1(1), of c] s1(2,3) Psubscribe
      by (simp add: psubscribeCommand_def s1_def [symmetric] subs_of_def)
  next
    case (Unsubscribe c args)
    define chs where "chs = (if args = [] then iter (channels_of s c) else args)"
    have all: "set chs = (if args = [] then channels_of s c else set args)"
      using iter ok(1) by (simp add: chs_def iter_ok_def ps_ok_def)
    obtain s1 n where s1: "unsub_loop (\<lambda>ch. pubsubUnsubscribeChannel c ch True) chs s 0 = Some (s1, n)"
      "ps_ok s1" "channels_of s1 = (channels_of s)(c := channels_of s c - set chs)"
      "patterns_of s1 = patterns_of s" "flags_of s1 = flags_of s"
      using unsub_channels_loop [OF ok(1), of c True chs 0] .
    obtain h where h: "unsubscribeCommand iter c args s = Some (clear_flag c (extend h s1))"
    proof (cases "args = [] \<and> n = 0")
      case True
      then show ?thesis using s1(1) that
        by (simp add: unsubscribeCommand_def pubsubUnsubscribeAllChannels_def chs_def reply_defs)
    next
      case False
      then show ?thesis using s1(1) that [of "\<lambda>_. []"]
        by (auto simp: unsubscribeCommand_def pubsubUnsubscribeAllChannels_def chs_def split: if_splits)
    qed
    have "good_flag (extend h s1) d" if "d \<noteq> c" for d
      using good_flag_same [OF good, of s1 d] fun_cong [OF s1(3), of d] fun_cong [OF s1(4), of d]
        s1(5) that by (simp add: good_flag_def)
    moreover have "channels_of s1 c \<noteq> {} \<or> patterns_of s1 c \<noteq> {} \<longrightarrow> flags_of s1 c"
      using good [of c] fun_cong [OF s1(3), of c] fun_cong [OF s1(4), of c] fun_cong [OF s1(5), of c]
      by (auto simp: good_flag_def)
    moreover have "(channels_of s)(c := channels_of s c - set chs) =
        (channels_of s)(c := if args = [] then {} else channels_of s c - set args)"
      by (rule ext) (simp add: all)
    ultimately show ?thesis
      using clear_flag_ok [of "extend h s1" c] s1(2,3,4) h Unsubscribe by (simp add: subs_of_def)
  next
    case (Punsubscribe c args)
    define ps where "ps = (if args = [] then cl_patterns (ps_clients s c) else args)"
    have all: "set ps = (if args = [] then patterns_of s c else set args)"
      by (simp add: ps_def)
    obtain s1 n where s1: "unsub_loop (\<lambda>p. pubsubUnsubscribePattern c p True) ps s 0 = Some (s1, n)"
      "ps_ok s1" "patterns_of s1 = (patterns_of s)(c := patterns_of s c - set ps)"
      "channels_of s1 = channels_of s" "flags_of s1 = flags_of s"
      using unsub_patterns_loop [OF ok(1), of c True ps 0] .
    obtain h where h: "punsubscribeCommand c args s = Some (clear_flag c (extend h s1))"
    proof (cases "args = [] \<and> n = 0")
      case True
      then show ?thesis using s1(1) that
        by (simp add: punsubscribeCommand_def pubsubUnsubscribeAllPatterns_def ps_def reply_defs)
    next
      case False
      then show ?thesis using s1(1) that [of "\<lambda>_. []"]
        by (auto simp: punsubscribeCommand_def pubsubUnsubscribeAllPatterns_def ps_def split: if_splits)
    qed
    have "good_flag (extend h s1) d" if "d \<noteq> c" for d
      using good_flag_same [OF good, of s1 d] fun_cong [OF s1(3), of d] fun_cong [OF s1(4), of d]
        s1(5) that by (simp add: good_flag_def)
    moreover have "channels_of s1 c \<noteq> {} \<or> patterns_of s1 c \<noteq> {} \<longrightarrow> flags_of s1 c"
      using good [of c] fun_cong [OF s1(3), of c] fun_cong [OF s1(4), of c] fun_cong [OF s1(5), of c]
      by (auto simp: good_flag_def)
    moreover have "(patterns_of s)(c := patterns_of s c - set ps) =
        (patterns_of s)(c := if args = [] then {} else patterns_of s c - set args)"
      by (rule ext) (simp add: all)
    ultimately show ?thesis
      using clear_flag_ok [of "extend h s1" c] s1(2,3,4) h Punsubscribe by (simp add: subs_of_def)
  next
    case (FreeClient c)
    obtain s1 n where s1: "unsub_loop (\<lambda>ch. pubsubUnsubscribeChannel c ch False)
        (iter (channels_of s c)) s 0 = Some (s1, n)"
      "ps_ok s1" "channels_of s1 = (channels_of s)(c := channels_of s c - set (iter (channels_of s c)))"
      "patterns_of s1 = patterns_of s" "flags_of s1 = flags_of s"
      using unsub_channels_loop [OF ok(1)] .
    obtain s2 m where s2: "unsub_loop (\<lambda>p. pubsubUnsubscribePattern c p False)
        (cl_patterns (ps_clients s1 c)) s1 0 = Some (s2, m)"
      "ps_ok s2" "patterns_of s2 = (patterns_of s1)(c := patterns_of s1 c - patterns_of s1 c)"
      "channels_of s2 = channels_of s1" "flags_of s2 = flags_of s1"
      using unsub_patterns_loop [OF s1(2)] .
    have it: "set (iter (channels_of s c)) = channels_of s c"
      using iter ok(1) by (simp add: iter_ok_def ps_ok_def)
    have own: "channels_of s2 = (channels_of s)(c := {})" "patterns_of s2 = (patterns_of s)(c := {})"
      unfolding s2(3,4) s1(3,4) it by (simp_all add: fun_eq_iff)
    have "good_flag s2 d" if "d \<noteq> c" for d
      using good_flag_same [OF good, of s2 d] fun_cong [OF own(1), of d] fun_cong [OF own(2), of d]
        s1(5) s2(5) that by simp
    moreover have "channels_of s2 c = {}" "patterns_of s2 c = {}"
      using fun_cong [OF own(1), of c] fun_cong [OF own(2), of c] by simp_all
    ultimately show ?thesis
      using free_client_ok [OF s2(2), of c] s1(1) s2(1) own FreeClient
      by (simp add: free_subscriptions_def pubsubUnsubscribeAllChannels_def
          pubsubUnsubscribeAllPatterns_def subs_of_def)
  next
    case (Publish c ch m)
    then show ?thesis
      using ok publish_eq [OF ok(1), of iter ch m]
      by (simp add: publishCommand_def addReply_extend subs_of_def)
  next
    case (PubsubInfo c argv)
    have "\<exists>r. pubsubCommand iter c argv s = addReply c r s"
      by (auto simp: pubsubCommand_def Let_def)
    then show ?thesis using ok PubsubInfo by (auto simp: addReply_extend subs_of_def)
  qed
qed


lemma ps_init_ok: "ps_ok (ps_init version) \<and> flags_ok (ps_init version)"
  by (simp add: ps_ok_def flags_ok_def ps_init_def index_inv_empty clientSubscriptionsCount_def)

lemma ps_reachable_ok: "ps_reachable iter s \<Longrightarrow> iter_ok iter \<Longrightarrow> ps_ok s \<and> flags_ok s"
proof (induction rule: ps_reachable.induct)
  case (step s e s')
  then show ?case using ps_handle_ok [of s iter e] by auto
qed (rule ps_init_ok)

lemma pattern_receivers_card:
  assumes ok: "ps_ok s" and iter: "iter_ok iter"
  shows "pattern_receivers s ch (iter (dom (pubsub_patterns_dict s))) =
    card {(p, d). stringmatchlen False p ch \<and> p \<in> patterns_of s d}"
proof -
  let ?D = "dom (pubsub_patterns_dict s)"
  let ?P = "{p \<in> ?D. stringmatchlen False p ch}"
  have it: "distinct (iter ?D)" "set (iter ?D) = ?D" "finite ?P"
    using iter ok by (auto simp: iter_ok_def ps_ok_def)
  have inv: "index_inv (patterns_of s) (pubsub_patterns_dict s)" using ok by (simp add: ps_ok_def)
  have fin: "finite {d. p \<in> patterns_of s d}" for p
    by (subst index_inv_clients(1) [OF inv, of p, symmetric]) (rule List.finite_set)
  have "pattern_receivers s ch (iter ?D) = (\<Sum>p\<in>?P. card {d. p \<in> patterns_of s d})"
    unfolding pattern_receivers_def
    by (subst sum_list_distinct_conv_sum_set) (use it in \<open>simp_all add: Collect_conj_eq Int_commute\<close>)
  also have "\<dots> = card (SIGMA p:?P. {d. p \<in> patterns_of s d})"
    using it(3) fin by simp
  also have "(SIGMA p:?P. {d. p \<in> patterns_of s d}) =
      {(p, d). stringmatchlen False p ch \<and> p \<in> patterns_of s d}"
    using index_inv_dom [OF inv] by auto
  finally show ?thesis .
qed

section \<open>Properties\<close>

text \<open>
  C6: in every state the commands can reach, the tables of the server and the collections of the
  clients describe the same subscriptions, without duplicates and without empty entries, and the
  flag of a client says whether it has any; every further command runs without failing an
  assertion and changes the subscriptions as specified, whatever order tables are iterated in.
\<close>

theorem pubsub_invariant:
  assumes "ps_reachable iter s" "iter_ok iter" "ps_arity e"
  shows "ps_ok s \<and> flags_ok s \<and>
    (\<exists>s'. ps_handle iter e s = Some s' \<and> subs_of s' = ps_spec e (subs_of s))"
  using ps_reachable_ok [OF assms(1,2)] ps_handle_ok [OF _ _ assms(2,3), of s] by blast

definition sample_ps :: pubsub where
  "sample_ps = subscribeCommand 1 [[97]] (ps_init (\<lambda>_. 2))"

lemma sample_ps_reachable: "ps_reachable sorted_list_of_set sample_ps" "iter_ok sorted_list_of_set"
proof -
  show "iter_ok sorted_list_of_set" by (simp add: iter_ok_def)
  have "ps_handle sorted_list_of_set (Subscribe 1 [[97]]) (ps_init (\<lambda>_. 2)) = Some sample_ps"
    by (simp add: sample_ps_def)
  then show "ps_reachable sorted_list_of_set sample_ps"
    by (rule ps_reachable.step [OF ps_reachable.start _, rotated]) simp
qed

theorem pubsub_invariant_witness:
  "ps_ok sample_ps \<and> flags_ok sample_ps \<and>
    (\<exists>s'. ps_handle sorted_list_of_set (Unsubscribe 1 []) sample_ps = Some s' \<and>
      subs_of s' = ps_spec (Unsubscribe 1 []) (subs_of sample_ps))"
  by (rule pubsub_invariant [OF sample_ps_reachable]) simp

text \<open>
  C7: a publication reaches exactly the subscribers: a client gets one message when it is
  subscribed to the channel and one for every pattern of its own that matches it, in that order;
  nothing else of the state changes; and the number returned is the number of messages sent.
\<close>

theorem pubsub_publish_delivers:
  assumes "ps_reachable iter s" "iter_ok iter"
  shows "pubsubPublishMessage iter ch m s =
    (extend (\<lambda>d. (if ch \<in> channels_of s d then message_reply (ps_clients s d) ch m else []) @
        pattern_output s ch m (iter (dom (pubsub_patterns_dict s))) d) s,
     card {d. ch \<in> channels_of s d} +
     card {(p, d). stringmatchlen False p ch \<and> p \<in> patterns_of s d})"
proof -
  have "ps_ok s" using ps_reachable_ok [OF assms] by blast
  then show ?thesis
    using publish_eq [of s iter ch m] pattern_receivers_card [of s iter ch] assms(2) by simp
qed

theorem pubsub_publish_delivers_witness:
  "pubsubPublishMessage sorted_list_of_set [97] [7] sample_ps =
    (extend (\<lambda>d. (if [97] \<in> channels_of sample_ps d then message_reply (ps_clients sample_ps d) [97] [7] else []) @
        pattern_output sample_ps [97] [7] (sorted_list_of_set (dom (pubsub_patterns_dict sample_ps))) d) sample_ps,
     card {d. [97] \<in> channels_of sample_ps d} +
     card {(p, d). stringmatchlen False p [97] \<and> p \<in> patterns_of sample_ps d})"
  by (rule pubsub_publish_delivers [OF sample_ps_reachable])

end
