(* ===== verification/Multi.thy ===== *)
theory Multi
  imports ClientIndex
begin

text \<open>
  Transactions, \<open>src/multi.c\<close>, with the part of \<open>processCommand\<close> that queues commands and the
  part of the keyspace that signals modified keys: MULTI, EXEC, DISCARD, WATCH and UNWATCH over
  clients that share the databases. A command other than these is a function pointer in the code;
  here its effect on this state is a list of primitive effects, given by the command table.
  \<open>None\<close> is a failed assertion.
\<close>

section \<open>State\<close>

type_synonym client = nat
type_synonym watched_key = "nat \<times> bytes"

datatype command = UnwatchCmd | Proc nat

datatype mreply = Ok | Queued | NestedMulti | WatchInMulti | NoMulti | NullArray | ExecAbort
  | ReadOnlyAbort | ReplyArray nat | NoPerm | CommandReply bytes

text \<open>What is sent to the append-only file and the replicas on behalf of EXEC.\<close>

datatype propagated = PropMulti nat | BacklogExec

record multi_client =
  c_multi :: bool
  c_dirty_cas :: bool
  c_dirty_exec :: bool
  c_master :: bool
  c_db :: nat
  c_commands :: "(command \<times> bytes list) list"
  c_cmd_flags :: u64
  c_watched :: "watched_key list"
  c_out :: "mreply list"

record multi_server =
  m_clients :: "client \<Rightarrow> multi_client"
  m_list :: "client list"
  m_watched :: "(watched_key, client) index"
  m_db :: "nat \<Rightarrow> bytes \<Rightarrow> bytes option"
  m_dbnum :: nat
  m_loading :: bool
  m_replica :: bool
  m_slave_ro :: bool
  m_backlog :: bool
  m_dirty :: nat
  m_propagated :: "propagated list"
  m_monitors :: nat
  m_monitored :: "client list"

text \<open>The effects of a command procedure on this state.\<close>

datatype effect = Put nat bytes "bytes option" | Flush "nat option" | Swap int int | SelectDb nat
  | SetReplica bool | Reply bytes

record cmd_table =
  cmd_flags :: "command \<Rightarrow> u64"
  cmd_denied :: "multi_server \<Rightarrow> client \<Rightarrow> command \<Rightarrow> bytes list \<Rightarrow> bool"
  cmd_effects :: "nat \<Rightarrow> client \<Rightarrow> bytes list \<Rightarrow> multi_server \<Rightarrow> effect list"

definition CMD_WRITE :: u64 where "CMD_WRITE = 1"
definition CMD_READONLY :: u64 where "CMD_READONLY = 2"
definition CMD_ADMIN :: u64 where "CMD_ADMIN = 16"

definition upd :: "client \<Rightarrow> (multi_client \<Rightarrow> multi_client) \<Rightarrow> multi_server \<Rightarrow> multi_server" where
  "upd c f s = s\<lparr>m_clients := (m_clients s)(c := f (m_clients s c))\<rparr>"

definition reply :: "client \<Rightarrow> mreply \<Rightarrow> multi_server \<Rightarrow> multi_server" where
  "reply c r s = upd c (\<lambda>cl. cl\<lparr>c_out := c_out cl @ [r]\<rparr>) s"

section \<open>Watched keys\<close>

definition watch_key :: "client \<Rightarrow> watched_key \<Rightarrow> multi_server \<Rightarrow> multi_server" where
  "watch_key c wk s =
     (if wk \<in> set (c_watched (m_clients s c)) then s
      else upd c (\<lambda>cl. cl\<lparr>c_watched := c_watched cl @ [wk]\<rparr>)
             (s\<lparr>m_watched := index_add wk c (m_watched s)\<rparr>))"

definition watchForKey :: "client \<Rightarrow> bytes \<Rightarrow> multi_server \<Rightarrow> multi_server" where
  "watchForKey c key s = watch_key c (c_db (m_clients s c), key) s"

definition unwatch_key :: "client \<Rightarrow> watched_key \<Rightarrow> multi_server \<Rightarrow> multi_server option" where
  "unwatch_key c wk s =
     map_option (\<lambda>m. upd c (\<lambda>cl. cl\<lparr>c_watched := remove1 wk (c_watched cl)\<rparr>) (s\<lparr>m_watched := m\<rparr>))
       (index_del wk c (m_watched s))"

definition unwatchAllKeys :: "client \<Rightarrow> multi_server \<Rightarrow> multi_server option" where
  "unwatchAllKeys c s = fold_opt (unwatch_key c) (c_watched (m_clients s c)) s"

definition mark_dirty :: "client \<Rightarrow> multi_server \<Rightarrow> multi_server" where
  "mark_dirty c s = upd c (\<lambda>cl. cl\<lparr>c_dirty_cas := True\<rparr>) s"

definition touchWatchedKey :: "nat \<Rightarrow> bytes \<Rightarrow> multi_server \<Rightarrow> multi_server" where
  "touchWatchedKey db key s =
     (case m_watched s (db, key) of
        None \<Rightarrow> s
      | Some clients \<Rightarrow> fold mark_dirty clients s)"

definition flush_hits :: "nat option \<Rightarrow> multi_server \<Rightarrow> watched_key \<Rightarrow> bool" where
  "flush_hits dbid s wk \<longleftrightarrow>
     (dbid = None \<or> dbid = Some (fst wk)) \<and> m_db s (fst wk) (snd wk) \<noteq> None"

definition touchWatchedKeysOnFlush :: "nat option \<Rightarrow> multi_server \<Rightarrow> multi_server" where
  "touchWatchedKeysOnFlush dbid s =
     fold (\<lambda>c s. fold (\<lambda>wk s. if flush_hits dbid s wk then mark_dirty c s else s)
       (c_watched (m_clients s c)) s) (m_list s) s"

text \<open>\<open>None\<close> is \<open>C_ERR\<close>: an identifier is out of range.\<close>

definition dbSwapDatabases :: "int \<Rightarrow> int \<Rightarrow> multi_server \<Rightarrow> multi_server option" where
  "dbSwapDatabases id1 id2 s =
     (if id1 < 0 \<or> int (m_dbnum s) \<le> id1 \<or> id2 < 0 \<or> int (m_dbnum s) \<le> id2 then None
      else if id1 = id2 then Some s
      else Some (s\<lparr>m_db := (m_db s)(nat id1 := m_db s (nat id2), nat id2 := m_db s (nat id1))\<rparr>))"

text \<open>
  \<open>signalModifiedKey\<close> follows the change, \<open>signalFlushedDb\<close> comes before it; SWAPDB signals
  nothing.
\<close>

fun apply_effect :: "client \<Rightarrow> effect \<Rightarrow> multi_server \<Rightarrow> multi_server" where
  "apply_effect c (Put db key v) s =
     touchWatchedKey db key (s\<lparr>m_db := (m_db s)(db := (m_db s db)(key := v))\<rparr>)"
| "apply_effect c (Flush dbid) s =
     (touchWatchedKeysOnFlush dbid s)
       \<lparr>m_db := (\<lambda>db. if dbid = None \<or> dbid = Some db then (\<lambda>_. None) else m_db s db)\<rparr>"
| "apply_effect c (Swap id1 id2) s =
     (case dbSwapDatabases id1 id2 s of None \<Rightarrow> s | Some s' \<Rightarrow> s')"
| "apply_effect c (SelectDb db) s = upd c (\<lambda>cl. cl\<lparr>c_db := db\<rparr>) s"
| "apply_effect c (SetReplica b) s = s\<lparr>m_replica := b\<rparr>"
| "apply_effect c (Reply r) s = reply c (CommandReply r) s"

text \<open>
  The periodic expiry deletes a key whose deadline \<open>t\<close> has passed without signalling it (a key
  found expired when a command looks it up is deleted with a signal). The deadlines are kept in a
  dictionary that is not part of this state.
\<close>

definition activeExpireCycleTryExpire ::
  "nat \<Rightarrow> bytes \<Rightarrow> int \<Rightarrow> int \<Rightarrow> multi_server \<Rightarrow> multi_server \<times> bool" where
  "activeExpireCycleTryExpire db key t now s =
     (if t < now then (s\<lparr>m_db := (m_db s)(db := (m_db s db)(key := None))\<rparr>, True) else (s, False))"

section \<open>Transactions\<close>

definition initClientMultiState :: "client \<Rightarrow> multi_server \<Rightarrow> multi_server" where
  "initClientMultiState c s = upd c (\<lambda>cl. cl\<lparr>c_commands := [], c_cmd_flags := 0\<rparr>) s"

definition queueMultiCommand ::
  "cmd_table \<Rightarrow> client \<Rightarrow> command \<Rightarrow> bytes list \<Rightarrow> multi_server \<Rightarrow> multi_server" where
  "queueMultiCommand T c cmd argv s =
     upd c (\<lambda>cl. cl\<lparr>c_commands := c_commands cl @ [(cmd, argv)],
       c_cmd_flags := c_cmd_flags cl OR cmd_flags T cmd\<rparr>) s"

definition discardTransaction :: "client \<Rightarrow> multi_server \<Rightarrow> multi_server option" where
  "discardTransaction c s =
     unwatchAllKeys c (upd c (\<lambda>cl. cl\<lparr>c_multi := False, c_dirty_cas := False, c_dirty_exec := False\<rparr>)
       (initClientMultiState c s))"

definition flagTransaction :: "client \<Rightarrow> multi_server \<Rightarrow> multi_server" where
  "flagTransaction c s =
     (if c_multi (m_clients s c) then upd c (\<lambda>cl. cl\<lparr>c_dirty_exec := True\<rparr>) s else s)"

definition multiCommand :: "client \<Rightarrow> multi_server \<Rightarrow> multi_server" where
  "multiCommand c s =
     (if c_multi (m_clients s c) then reply c NestedMulti s
      else reply c Ok (upd c (\<lambda>cl. cl\<lparr>c_multi := True\<rparr>) s))"

definition discardCommand :: "client \<Rightarrow> multi_server \<Rightarrow> multi_server option" where
  "discardCommand c s =
     (if \<not> c_multi (m_clients s c) then Some (reply c NoMulti s)
      else map_option (reply c Ok) (discardTransaction c s))"

definition watchCommand :: "client \<Rightarrow> bytes list \<Rightarrow> multi_server \<Rightarrow> multi_server" where
  "watchCommand c keys s =
     (if c_multi (m_clients s c) then reply c WatchInMulti s
      else reply c Ok (fold (watchForKey c) keys s))"

definition unwatchCommand :: "client \<Rightarrow> multi_server \<Rightarrow> multi_server option" where
  "unwatchCommand c s =
     map_option (\<lambda>s. reply c Ok (upd c (\<lambda>cl. cl\<lparr>c_dirty_cas := False\<rparr>) s)) (unwatchAllKeys c s)"

text \<open>Running the procedure of a command.\<close>

definition call :: "cmd_table \<Rightarrow> client \<Rightarrow> command \<Rightarrow> bytes list \<Rightarrow> multi_server \<Rightarrow> multi_server option" where
  "call T c cmd argv s =
     (case cmd of
        UnwatchCmd \<Rightarrow> unwatchCommand c s
      | Proc p \<Rightarrow> Some (fold (apply_effect c) (cmd_effects T p c argv s) s))"

fun exec_loop ::
  "cmd_table \<Rightarrow> client \<Rightarrow> (command \<times> bytes list) list \<Rightarrow> bool \<Rightarrow> multi_server \<Rightarrow>
     (multi_server \<times> bool) option" where
  "exec_loop T c [] must_propagate s = Some (s, must_propagate)"
| "exec_loop T c ((cmd, argv) # commands) must_propagate s =
     (let first = (\<not> must_propagate \<and> \<not> m_loading s \<and>
                     cmd_flags T cmd AND (CMD_READONLY OR CMD_ADMIN) = 0);
          s = (if first then s\<lparr>m_propagated := m_propagated s @ [PropMulti (c_db (m_clients s c))]\<rparr> else s);
          must_propagate = (must_propagate \<or> first)
      in Option.bind
           (if cmd_denied T s c cmd argv then Some (reply c NoPerm s) else call T c cmd argv s)
           (exec_loop T c commands must_propagate))"

definition handle_monitor :: "client \<Rightarrow> multi_server \<Rightarrow> multi_server" where
  "handle_monitor c s =
     (if m_monitors s \<noteq> 0 \<and> \<not> m_loading s then s\<lparr>m_monitored := m_monitored s @ [c]\<rparr> else s)"

definition exec_finish :: "bool \<Rightarrow> bool \<Rightarrow> multi_server \<Rightarrow> multi_server" where
  "exec_finish was_master must_propagate s =
     (if must_propagate then
        let is_master = (\<not> m_replica s); s = s\<lparr>m_dirty := m_dirty s + 1\<rparr>
        in if m_backlog s \<and> was_master \<and> \<not> is_master
           then s\<lparr>m_propagated := m_propagated s @ [BacklogExec]\<rparr> else s
      else s)"

definition execCommand :: "cmd_table \<Rightarrow> client \<Rightarrow> multi_server \<Rightarrow> multi_server option" where
  "execCommand T c s =
     (let was_master = (\<not> m_replica s); cl = m_clients s c
      in if \<not> c_multi cl then Some (reply c NoMulti s)
         else if c_dirty_cas cl \<or> c_dirty_exec cl then
           map_option (handle_monitor c)
             (discardTransaction c (reply c (if c_dirty_exec cl then ExecAbort else NullArray) s))
         else if \<not> m_loading s \<and> m_replica s \<and> m_slave_ro s \<and> \<not> c_master cl \<and>
                 c_cmd_flags cl AND CMD_WRITE \<noteq> 0 then
           map_option (handle_monitor c) (discardTransaction c (reply c ReadOnlyAbort s))
         else
           Option.bind (unwatchAllKeys c s) (\<lambda>s.
           Option.bind (exec_loop T c (c_commands cl) False
               (reply c (ReplyArray (length (c_commands cl))) s)) (\<lambda>(s, must_propagate).
           Option.bind (discardTransaction c s) (\<lambda>s.
           Some (handle_monitor c (exec_finish was_master must_propagate s))))))"

text \<open>\<open>processCommand\<close>: within MULTI the command is queued, unless it is one of the four.\<close>

definition processCommand ::
  "cmd_table \<Rightarrow> client \<Rightarrow> command \<Rightarrow> bytes list \<Rightarrow> multi_server \<Rightarrow> multi_server option" where
  "processCommand T c cmd argv s =
     (if c_multi (m_clients s c) then Some (reply c Queued (queueMultiCommand T c cmd argv s))
      else call T c cmd argv s)"

section \<open>Events\<close>

text \<open>
  \<open>Rejected\<close> is a command that fails a check before it is run or queued; \<open>Background\<close> a change
  the server makes by itself and signals: the deletion of a key that is found expired when it is
  looked up (\<open>expireIfNeeded\<close>), an eviction, a push for a blocked client. \<open>ActiveExpire\<close> is one key
  of the periodic expiry cycle.
\<close>

datatype event = Connect client | Free client | Multi client | Exec client | Discard client
  | Watch client "bytes list" | Command client command "bytes list" | Rejected client
  | Background nat bytes "bytes option" | ActiveExpire nat bytes int int

definition fresh_client :: multi_client where
  "fresh_client = \<lparr>c_multi = False, c_dirty_cas = False, c_dirty_exec = False, c_master = False,
     c_db = 0, c_commands = [], c_cmd_flags = 0, c_watched = [], c_out = []\<rparr>"

fun handle :: "cmd_table \<Rightarrow> event \<Rightarrow> multi_server \<Rightarrow> multi_server option" where
  "handle T (Connect c) s = Some ((upd c (\<lambda>_. fresh_client) s)\<lparr>m_list := m_list s @ [c]\<rparr>)"
| "handle T (Free c) s =
     map_option (\<lambda>s. upd c (\<lambda>_. fresh_client) (s\<lparr>m_list := remove1 c (m_list s)\<rparr>)) (unwatchAllKeys c s)"
| "handle T (Multi c) s = Some (multiCommand c s)"
| "handle T (Exec c) s = execCommand T c s"
| "handle T (Discard c) s = discardCommand c s"
| "handle T (Watch c keys) s = Some (watchCommand c keys s)"
| "handle T (Command c cmd argv) s = processCommand T c cmd argv s"
| "handle T (Rejected c) s = Some (flagTransaction c s)"
| "handle T (Background db key v) s = Some (apply_effect 0 (Put db key v) s)"
| "handle T (ActiveExpire db key t now) s = Some (fst (activeExpireCycleTryExpire db key t now s))"

text \<open>An event comes from a connected client; a connection gets a number that is not in use.\<close>

fun sender_ok :: "event \<Rightarrow> multi_server \<Rightarrow> bool" where
  "sender_ok (Connect c) s = (c \<notin> set (m_list s))"
| "sender_ok (Free c) s = (c \<in> set (m_list s))"
| "sender_ok (Multi c) s = (c \<in> set (m_list s))"
| "sender_ok (Exec c) s = (c \<in> set (m_list s))"
| "sender_ok (Discard c) s = (c \<in> set (m_list s))"
| "sender_ok (Watch c keys) s = (c \<in> set (m_list s))"
| "sender_ok (Command c cmd argv) s = (c \<in> set (m_list s))"
| "sender_ok (Rejected c) s = (c \<in> set (m_list s))"
| "sender_ok (Background db key v) s = True"
| "sender_ok (ActiveExpire db key t now) s = True"

inductive m_step :: "cmd_table \<Rightarrow> multi_server \<Rightarrow> event \<Rightarrow> multi_server \<Rightarrow> bool" where
  "\<lbrakk>sender_ok e s; handle T e s = Some s'\<rbrakk> \<Longrightarrow> m_step T s e s'"

inductive_cases m_stepE: "m_step T s e s'"

inductive m_steps :: "cmd_table \<Rightarrow> multi_server \<Rightarrow> event list \<Rightarrow> multi_server \<Rightarrow> bool" for T where
  none: "m_steps T s [] s"
| more: "\<lbrakk>m_step T s e s1; m_steps T s1 es s2\<rbrakk> \<Longrightarrow> m_steps T s (e # es) s2"

text \<open>A server without clients.\<close>

definition m_init :: "multi_server \<Rightarrow> bool" where
  "m_init s \<longleftrightarrow> (\<forall>c. m_clients s c = fresh_client) \<and> m_list s = [] \<and> m_watched s = (\<lambda>_. None)"


section \<open>The invariant\<close>

definition watches :: "multi_server \<Rightarrow> client \<Rightarrow> watched_key set" where
  "watches s c = set (c_watched (m_clients s c))"

text \<open>Everything that watching and unwatching leave alone.\<close>

definition others_of :: "multi_server \<Rightarrow>
    (client \<Rightarrow> multi_client) \<times> (nat \<Rightarrow> bytes \<Rightarrow> bytes option) \<times> client list \<times> bool \<times> bool" where
  "others_of s = ((\<lambda>c. (m_clients s c)\<lparr>c_watched := []\<rparr>), m_db s, m_list s, m_replica s, m_loading s)"

definition watch_ok :: "multi_server \<Rightarrow> bool" where
  "watch_ok s \<longleftrightarrow> index_inv (watches s) (m_watched s) \<and> (\<forall>c. distinct (c_watched (m_clients s c)))"

definition idle_ok :: "multi_client \<Rightarrow> bool" where
  "idle_ok cl \<longleftrightarrow> (\<not> c_multi cl \<longrightarrow> c_commands cl = [] \<and> c_cmd_flags cl = 0 \<and> \<not> c_dirty_exec cl)"

definition multi_ok :: "multi_server \<Rightarrow> bool" where
  "multi_ok s \<longleftrightarrow> watch_ok s \<and> distinct (m_list s) \<and>
     (\<forall>c. c \<notin> set (m_list s) \<longrightarrow> m_clients s c = fresh_client) \<and> (\<forall>c. idle_ok (m_clients s c))"

lemma upd_simps [simp]:
  "m_clients (upd c f s) d = (if d = c then f (m_clients s c) else m_clients s d)"
  "m_list (upd c f s) = m_list s" "m_watched (upd c f s) = m_watched s" "m_db (upd c f s) = m_db s"
  "m_replica (upd c f s) = m_replica s" "m_loading (upd c f s) = m_loading s"
  "m_slave_ro (upd c f s) = m_slave_ro s"
  by (simp_all add: upd_def)

lemma watches_upd [simp]:
  "c_watched (f (m_clients s c)) = c_watched (m_clients s c) \<Longrightarrow> watches (upd c f s) = watches s"
  by (rule ext) (simp add: watches_def)

text \<open>Updates that touch neither watched keys nor the queue of a client that is not in MULTI.\<close>

lemma multi_ok_upd:
  assumes "multi_ok s" "c \<in> set (m_list s)" "c_watched (f (m_clients s c)) = c_watched (m_clients s c)"
    "idle_ok (f (m_clients s c))"
  shows "multi_ok (upd c f s)"
  using assms by (auto simp: multi_ok_def watch_ok_def)

lemma multi_ok_idle: "multi_ok s \<Longrightarrow> idle_ok (m_clients s c)"
  by (simp add: multi_ok_def)

lemma idle_ok_upd [simp]:
  "idle_ok (cl\<lparr>c_out := x\<rparr>) = idle_ok cl" "idle_ok (cl\<lparr>c_db := n\<rparr>) = idle_ok cl"
  "idle_ok (cl\<lparr>c_dirty_cas := b\<rparr>) = idle_ok cl" "idle_ok (cl\<lparr>c_watched := w\<rparr>) = idle_ok cl"
  by (simp_all add: idle_ok_def)

section \<open>Watching\<close>

lemma watch_key_ok:
  assumes ok: "watch_ok s"
  shows "watch_ok (watch_key c wk s) \<and> watches (watch_key c wk s) = (watches s)(c := insert wk (watches s c)) \<and>
    others_of (watch_key c wk s) = others_of s"
proof (cases "wk \<in> watches s c")
  case True
  then have "(watches s)(c := insert wk (watches s c)) = watches s" by (auto simp: insert_absorb)
  with True ok show ?thesis by (simp add: watch_key_def watches_def)
next
  case False
  define s1 where "s1 = upd c (\<lambda>cl. cl\<lparr>c_watched := c_watched cl @ [wk]\<rparr>)
    (s\<lparr>m_watched := index_add wk c (m_watched s)\<rparr>)"
  have cl: "m_clients s1 d = (if d = c then (m_clients s c)\<lparr>c_watched := c_watched (m_clients s c) @ [wk]\<rparr>
      else m_clients s d)" for d
    by (simp add: s1_def)
  have w: "watches s1 = (watches s)(c := insert wk (watches s c))"
    by (rule ext) (simp add: watches_def cl)
  have "index_inv (watches s) (m_watched s)" using ok by (simp add: watch_ok_def)
  from index_add_inv [OF this False] have "index_inv (watches s1) (m_watched s1)"
    unfolding w by (simp add: s1_def)
  moreover have "distinct (c_watched (m_clients s1 d))" for d
    using ok False by (simp add: watch_ok_def cl watches_def)
  moreover have "others_of s1 = others_of s"
    by (simp add: others_of_def cl fun_eq_iff) (simp add: s1_def)
  moreover have "watch_key c wk s = s1"
    using False by (simp add: watch_key_def s1_def watches_def)
  ultimately show ?thesis using w by (simp add: watch_ok_def)
qed

lemma unwatch_key_ok:
  assumes ok: "watch_ok s" and mem: "wk \<in> watches s c"
  shows "\<exists>s'. unwatch_key c wk s = Some s' \<and> watch_ok s' \<and>
    watches s' = (watches s)(c := watches s c - {wk}) \<and> others_of s' = others_of s"
proof -
  have "index_inv (watches s) (m_watched s)" using ok by (simp add: watch_ok_def)
  then obtain m where m: "index_del wk c (m_watched s) = Some m"
    "index_inv ((watches s)(c := watches s c - {wk})) m"
    using index_del_inv [of "watches s" _ wk c] mem by blast
  define s1 where "s1 = upd c (\<lambda>cl. cl\<lparr>c_watched := remove1 wk (c_watched cl)\<rparr>) (s\<lparr>m_watched := m\<rparr>)"
  have cl: "m_clients s1 d = (if d = c then (m_clients s c)\<lparr>c_watched := remove1 wk (c_watched (m_clients s c))\<rparr>
      else m_clients s d)" for d
    by (simp add: s1_def)
  have d: "distinct (c_watched (m_clients s e))" for e using ok by (simp add: watch_ok_def)
  have w: "watches s1 = (watches s)(c := watches s c - {wk})"
    by (rule ext) (simp add: watches_def cl d)
  have "index_inv (watches s1) (m_watched s1)" unfolding w using m(2) by (simp add: s1_def)
  moreover have "distinct (c_watched (m_clients s1 e))" for e using d by (simp add: cl)
  moreover have "others_of s1 = others_of s"
    by (simp add: others_of_def cl fun_eq_iff) (simp add: s1_def)
  moreover have "unwatch_key c wk s = Some s1" using m(1) by (simp add: unwatch_key_def s1_def)
  ultimately show ?thesis using w by (simp add: watch_ok_def)
qed

interpretation watch: client_index watch_ok watches others_of True watch_key unwatch_key
proof (unfold_locales, goal_cases)
  case (1 s c k)
  then show ?case by (rule watch_key_ok)
next
  case (2 s k c)
  then show ?case by (intro unwatch_key_ok) simp_all
qed

lemma others_of_clients:
  assumes "others_of s' = others_of s"
  shows "(m_clients s' c)\<lparr>c_watched := w\<rparr> = (m_clients s c)\<lparr>c_watched := w\<rparr>"
    "m_db s' = m_db s" "m_list s' = m_list s" "m_replica s' = m_replica s" "m_loading s' = m_loading s"
proof -
  have "(m_clients s' c)\<lparr>c_watched := []\<rparr> = (m_clients s c)\<lparr>c_watched := []\<rparr>"
    using assms by (simp add: others_of_def fun_eq_iff)
  then show "(m_clients s' c)\<lparr>c_watched := w\<rparr> = (m_clients s c)\<lparr>c_watched := w\<rparr>"
    by (metis multi_client.update_convs(8) multi_client.surjective)
qed (use assms in \<open>simp_all add: others_of_def\<close>)

lemma unwatchAllKeys_ok:
  assumes ok: "watch_ok s"
  obtains s' where "unwatchAllKeys c s = Some s'" "watch_ok s'" "watches s' = (watches s)(c := {})"
    "others_of s' = others_of s"
proof -
  have "distinct (c_watched (m_clients s c))" "set (c_watched (m_clients s c)) \<subseteq> watches s c"
    using ok by (simp_all add: watch_ok_def watches_def)
  with watch.del_all [OF ok, of "c_watched (m_clients s c)" c] obtain s' where
    "unwatchAllKeys c s = Some s'" "watch_ok s'"
    "watches s' = (watches s)(c := watches s c - watches s c)" "others_of s' = others_of s"
    by (auto simp: unwatchAllKeys_def watches_def)
  then show ?thesis using that by simp
qed


section \<open>Touching keys\<close>

definition dirtied :: "client set \<Rightarrow> multi_server \<Rightarrow> multi_server" where
  "dirtied D s = s\<lparr>m_clients := (\<lambda>d. if d \<in> D then (m_clients s d)\<lparr>c_dirty_cas := True\<rparr> else m_clients s d)\<rparr>"

lemma dirtied_simps [simp]:
  "m_clients (dirtied D s) d = (if d \<in> D then (m_clients s d)\<lparr>c_dirty_cas := True\<rparr> else m_clients s d)"
  "m_list (dirtied D s) = m_list s" "m_watched (dirtied D s) = m_watched s" "m_db (dirtied D s) = m_db s"
  "watches (dirtied D s) = watches s"
  by (simp_all add: dirtied_def watches_def fun_eq_iff)

lemma mark_dirtied: "mark_dirty c (dirtied D s) = dirtied (insert c D) s"
proof -
  have "(m_clients (dirtied D s))(c := (m_clients (dirtied D s) c)\<lparr>c_dirty_cas := True\<rparr>) =
      (\<lambda>d. if d \<in> insert c D then (m_clients s d)\<lparr>c_dirty_cas := True\<rparr> else m_clients s d)"
    by (rule ext) simp
  then show ?thesis by (simp add: mark_dirty_def upd_def) (simp add: dirtied_def)
qed

lemma dirtied_empty [simp]: "dirtied {} s = s"
  by (simp add: dirtied_def)

lemma fold_mark_dirtied: "fold mark_dirty cs (dirtied D s) = dirtied (D \<union> set cs) s"
  by (induction cs arbitrary: D) (simp_all add: mark_dirtied)

lemma touchWatchedKey_eq:
  assumes "watch_ok s"
  shows "touchWatchedKey db key s = dirtied {c. (db, key) \<in> watches s c} s"
proof -
  have inv: "index_inv (watches s) (m_watched s)" using assms by (simp add: watch_ok_def)
  show ?thesis
    using index_inv_clients(1) [OF inv, of "(db, key)"] fold_mark_dirtied [of _ "{}" s]
    by (cases "m_watched s (db, key)") (simp_all add: touchWatchedKey_def)
qed

lemma flush_inner:
  "fold (\<lambda>wk s. if flush_hits dbid s wk then mark_dirty c s else s) wks (dirtied D s) =
   dirtied (if \<exists>wk\<in>set wks. flush_hits dbid s wk then insert c D else D) s"
proof (induction wks arbitrary: D)
  case (Cons wk wks)
  have "flush_hits dbid (dirtied D s) wk = flush_hits dbid s wk" for D by (simp add: flush_hits_def)
  then show ?case using Cons by (auto simp: mark_dirtied)
qed simp

lemma touchWatchedKeysOnFlush_eq:
  "touchWatchedKeysOnFlush dbid s =
   dirtied {c \<in> set (m_list s). \<exists>wk\<in>watches s c. flush_hits dbid s wk} s"
proof -
  let ?step = "\<lambda>c s. fold (\<lambda>wk s. if flush_hits dbid s wk then mark_dirty c s else s)
       (c_watched (m_clients s c)) s"
  have "fold ?step cs (dirtied D s) =
      dirtied (D \<union> {d \<in> set cs. \<exists>wk\<in>watches s d. flush_hits dbid s wk}) s" for cs D
  proof (induction cs arbitrary: D)
    case (Cons c cs)
    have "c_watched (m_clients (dirtied D s) c) = c_watched (m_clients s c)" by simp
    then have "?step c (dirtied D s) =
        dirtied (if \<exists>wk\<in>watches s c. flush_hits dbid s wk then insert c D else D) s"
      by (simp only: flush_inner watches_def)
    moreover have "(if \<exists>wk\<in>watches s c. flush_hits dbid s wk then insert c D else D) \<union>
        {d \<in> set cs. \<exists>wk\<in>watches s d. flush_hits dbid s wk} =
        D \<union> {d \<in> set (c # cs). \<exists>wk\<in>watches s d. flush_hits dbid s wk}" by auto
    ultimately show ?case using Cons.IH by simp
  qed simp
  from this [of "m_list s" "{}"] show ?thesis by (simp add: touchWatchedKeysOnFlush_def)
qed

lemma multi_ok_dirtied:
  assumes "multi_ok s" "D \<subseteq> set (m_list s)"
  shows "multi_ok (dirtied D s)"
  using assms by (auto simp: multi_ok_def watch_ok_def)

lemma watches_db [simp]: "watches (s\<lparr>m_db := f\<rparr>) = watches s"
  by (rule ext) (simp add: watches_def)

lemma multi_ok_db [simp]: "multi_ok (s\<lparr>m_db := f\<rparr>) = multi_ok s" "watch_ok (s\<lparr>m_db := f\<rparr>) = watch_ok s"
  by (simp_all add: multi_ok_def watch_ok_def)

lemma watches_connected: "\<lbrakk>multi_ok s; wk \<in> watches s c\<rbrakk> \<Longrightarrow> c \<in> set (m_list s)"
  by (auto simp: multi_ok_def watches_def fresh_client_def)

section \<open>Guarded keys\<close>

text \<open>
  The promise of WATCH for one watched key, from one state to a later one: the client still
  watches it and is not cleaned of its mark, and when every change in between is signalled
  (\<open>g\<close>), the key has not changed unless the client is marked.
\<close>

definition guarded :: "bool \<Rightarrow> client \<Rightarrow> watched_key \<Rightarrow> multi_server \<Rightarrow> multi_server \<Rightarrow> bool" where
  "guarded g c wk s s' \<longleftrightarrow> multi_ok s' \<and> wk \<in> watches s' c \<and>
     (\<not> c_dirty_cas (m_clients s' c) \<longrightarrow>
        \<not> c_dirty_cas (m_clients s c) \<and> (g \<longrightarrow> m_db s' (fst wk) (snd wk) = m_db s (fst wk) (snd wk)))"

lemma guarded_refl: "\<lbrakk>multi_ok s; wk \<in> watches s c\<rbrakk> \<Longrightarrow> guarded g c wk s s"
  by (simp add: guarded_def)

lemma guarded_trans: "\<lbrakk>guarded g c wk s s1; guarded g c wk s1 s2\<rbrakk> \<Longrightarrow> guarded g c wk s s2"
  unfolding guarded_def by metis

lemma guarded_weaken: "guarded g c wk s s' \<Longrightarrow> guarded False c wk s s'"
  by (simp add: guarded_def)

lemma guarded_upd:
  assumes "multi_ok s" "wk \<in> watches s c" "d \<in> set (m_list s)"
    "c_watched (f (m_clients s d)) = c_watched (m_clients s d)" "idle_ok (f (m_clients s d))"
    "c_dirty_cas (m_clients s d) \<longrightarrow> c_dirty_cas (f (m_clients s d))"
  shows "guarded g c wk s (upd d f s)"
  using assms multi_ok_upd [of s d f] by (auto simp: guarded_def)

lemma effect_ok:
  assumes ok: "multi_ok s" and d: "d \<in> set (m_list s) \<or> (\<exists>db k v. e = Put db k v)"
  shows "multi_ok (apply_effect d e s) \<and> set (m_list (apply_effect d e s)) = set (m_list s) \<and>
    watches (apply_effect d e s) = watches s"
proof (cases e)
  case (Put db k v)
  let ?s = "s\<lparr>m_db := (m_db s)(db := (m_db s db)(k := v))\<rparr>"
  have "{c. (db, k) \<in> watches s c} \<subseteq> set (m_list ?s)"
    using watches_connected [OF ok] by auto
  then have "multi_ok (dirtied {c. (db, k) \<in> watches s c} ?s)"
    using ok by (intro multi_ok_dirtied) simp_all
  moreover have "watch_ok ?s" using ok by (simp add: multi_ok_def)
  ultimately show ?thesis using Put touchWatchedKey_eq [of ?s db k] by simp
next
  case (Flush dbid)
  have "multi_ok (touchWatchedKeysOnFlush dbid s)"
    unfolding touchWatchedKeysOnFlush_eq by (rule multi_ok_dirtied [OF ok]) auto
  then show ?thesis using Flush by (simp add: touchWatchedKeysOnFlush_eq)
next
  case (SelectDb db)
  then show ?thesis using d ok multi_ok_upd [OF ok] multi_ok_idle [OF ok] by simp
next
  case (Reply r)
  then show ?thesis using d ok multi_ok_upd [OF ok] multi_ok_idle [OF ok] by (simp add: reply_def)
next
  case (Swap a b)
  then show ?thesis using ok by (auto simp: dbSwapDatabases_def split: option.splits if_splits)
next
  case (SetReplica b)
  have "watches (s\<lparr>m_replica := b\<rparr>) = watches s" by (rule ext) (simp add: watches_def)
  then show ?thesis using ok SetReplica by (simp add: multi_ok_def watch_ok_def)
qed

lemma effect_guarded:
  assumes ok: "multi_ok s" and wk: "wk \<in> watches s c" and swap: "g \<longrightarrow> (\<forall>a b. e \<noteq> Swap a b)"
    and d: "d \<in> set (m_list s) \<or> (\<exists>db k v. e = Put db k v)"
  shows "guarded g c wk s (apply_effect d e s)"
proof -
  note e = effect_ok [OF ok d]
  have c: "c \<in> set (m_list s)" by (rule watches_connected [OF ok wk])
  have "\<not> c_dirty_cas (m_clients (apply_effect d e s) c) \<Longrightarrow>
     \<not> c_dirty_cas (m_clients s c) \<and>
     (g \<longrightarrow> m_db (apply_effect d e s) (fst wk) (snd wk) = m_db s (fst wk) (snd wk))"
  proof (cases e)
    case (Put db k v)
    let ?s = "s\<lparr>m_db := (m_db s)(db := (m_db s db)(k := v))\<rparr>"
    have t: "touchWatchedKey db k ?s = dirtied {c. (db, k) \<in> watches s c} ?s"
      using touchWatchedKey_eq [of ?s db k] ok by (simp add: multi_ok_def)
    assume "\<not> c_dirty_cas (m_clients (apply_effect d e s) c)"
    then show ?thesis using Put t wk by (cases wk) (auto split: if_splits)
  next
    case (Flush dbid)
    assume "\<not> c_dirty_cas (m_clients (apply_effect d e s) c)"
    then show ?thesis using Flush wk c
      by (cases wk) (auto simp: touchWatchedKeysOnFlush_eq flush_hits_def split: if_splits)
  next
    case (Swap a b)
    assume "\<not> c_dirty_cas (m_clients (apply_effect d e s) c)"
    then show ?thesis using Swap swap
      by (auto simp: dbSwapDatabases_def split: option.splits if_splits)
  qed (auto simp: reply_def split: if_splits)
  then show ?thesis using e wk by (auto simp: guarded_def)
qed


text \<open>Changes outside the clients, the watched keys and the databases.\<close>

lemma frame_ok:
  assumes "m_clients s' = m_clients s" "m_list s' = m_list s" "m_watched s' = m_watched s"
  shows "multi_ok s' = multi_ok s" "watches s' = watches s"
proof -
  show w: "watches s' = watches s" by (rule ext) (simp add: watches_def assms(1))
  show "multi_ok s' = multi_ok s" using assms by (simp add: multi_ok_def watch_ok_def w)
qed

lemma frame_guarded:
  assumes "multi_ok s" "wk \<in> watches s c" "m_clients s' = m_clients s" "m_list s' = m_list s"
    "m_watched s' = m_watched s" "m_db s' = m_db s"
  shows "guarded g c wk s s'"
  using assms frame_ok [OF assms(3-5)] by (simp add: guarded_def)

section \<open>Unwatching and discarding\<close>

lemma watched_nil: "c_watched cl = [] \<Longrightarrow> cl\<lparr>c_watched := []\<rparr> = cl"
  by (cases cl) simp

lemma unwatchAllKeys_multi:
  assumes ok: "multi_ok s"
  obtains s' where "unwatchAllKeys d s = Some s'" "multi_ok s'" "watches s' = (watches s)(d := {})"
    "others_of s' = others_of s"
proof -
  have w: "watch_ok s" using ok by (simp add: multi_ok_def)
  obtain s' where s': "unwatchAllKeys d s = Some s'" "watch_ok s'" "watches s' = (watches s)(d := {})"
    "others_of s' = others_of s"
    using unwatchAllKeys_ok [OF w] .
  note o = others_of_clients [OF s'(4)]
  have "m_clients s' c = fresh_client" if "c \<notin> set (m_list s)" for c
  proof -
    have f: "m_clients s c = fresh_client" using ok that by (simp add: multi_ok_def)
    then have "watches s' c = {}" using s'(3) by (simp add: watches_def fresh_client_def)
    then have "c_watched (m_clients s' c) = []" by (simp add: watches_def)
    then have "m_clients s' c = (m_clients s' c)\<lparr>c_watched := []\<rparr>" by (simp only: watched_nil)
    also have "\<dots> = fresh_client" unfolding o(1) f by (simp add: fresh_client_def)
    finally show ?thesis .
  qed
  moreover have "idle_ok (m_clients s' c)" for c
    using multi_ok_idle [OF ok, of c] o(1) [where c = c and w = "[]"] idle_ok_upd(4) by metis
  ultimately have "multi_ok s'" using ok s'(2) o(3) by (simp add: multi_ok_def)
  with s' show ?thesis using that by blast
qed

lemma others_flags:
  assumes "others_of s' = others_of s"
  shows "c_dirty_cas (m_clients s' c) = c_dirty_cas (m_clients s c)"
    "c_multi (m_clients s' c) = c_multi (m_clients s c)"
    "c_commands (m_clients s' c) = c_commands (m_clients s c)"
    "c_dirty_exec (m_clients s' c) = c_dirty_exec (m_clients s c)"
  using arg_cong [OF others_of_clients(1) [OF assms, where c = c and w = "[]"], of c_dirty_cas]
    arg_cong [OF others_of_clients(1) [OF assms, where c = c and w = "[]"], of c_multi]
    arg_cong [OF others_of_clients(1) [OF assms, where c = c and w = "[]"], of c_commands]
    arg_cong [OF others_of_clients(1) [OF assms, where c = c and w = "[]"], of c_dirty_exec] by simp_all

text \<open>
  What a step for client \<open>d\<close> guarantees: the invariant, and the guarded keys of the clients \<open>P\<close>;
  \<open>g\<close> tells that every change of the step is signalled.
\<close>

definition steps_ok :: "bool \<Rightarrow> (client \<Rightarrow> bool) \<Rightarrow> multi_server \<Rightarrow> multi_server \<Rightarrow> bool" where
  "steps_ok g P s s' \<longleftrightarrow> multi_ok s' \<and> set (m_list s') = set (m_list s) \<and>
     (\<forall>c wk. P c \<and> wk \<in> watches s c \<longrightarrow> guarded g c wk s s')"

lemma steps_ok_refl: "multi_ok s \<Longrightarrow> steps_ok g P s s"
  by (simp add: steps_ok_def guarded_refl)

lemma steps_ok_trans: "\<lbrakk>steps_ok g P s s1; steps_ok g P s1 s2\<rbrakk> \<Longrightarrow> steps_ok g P s s2"
  unfolding steps_ok_def using guarded_trans by (metis guarded_def)

lemma steps_ok_mono: "\<lbrakk>steps_ok g P s s'; \<And>c. Q c \<Longrightarrow> P c\<rbrakk> \<Longrightarrow> steps_ok g Q s s'"
  by (auto simp: steps_ok_def)

lemma steps_ok_upd:
  assumes "multi_ok s" "d \<in> set (m_list s)" "c_watched (f (m_clients s d)) = c_watched (m_clients s d)"
    "idle_ok (f (m_clients s d))"
    "P d \<Longrightarrow> c_dirty_cas (m_clients s d) \<longrightarrow> c_dirty_cas (f (m_clients s d))"
  shows "steps_ok g P s (upd d f s)"
  using assms multi_ok_upd [of s d f] by (auto simp: steps_ok_def guarded_def)

lemma steps_ok_reply: "\<lbrakk>multi_ok s; d \<in> set (m_list s)\<rbrakk> \<Longrightarrow> steps_ok g P s (reply d r s)"
  unfolding reply_def by (rule steps_ok_upd) (simp_all add: multi_ok_idle)

lemma steps_ok_frame:
  assumes "multi_ok s" "m_clients s' = m_clients s" "m_list s' = m_list s"
    "m_watched s' = m_watched s" "m_db s' = m_db s"
  shows "steps_ok g P s s'"
  using assms frame_guarded [OF assms(1) _ assms(2-5)] frame_ok [OF assms(2-4)]
  by (simp add: steps_ok_def)

lemma unwatchAllKeys_steps:
  assumes ok: "multi_ok s"
  obtains s' where "unwatchAllKeys d s = Some s'" "steps_ok g (\<lambda>c. c \<noteq> d) s s'" "watches s' d = {}"
    "others_of s' = others_of s" "c_watched (m_clients s' d) = []"
proof -
  obtain s' where s': "unwatchAllKeys d s = Some s'" "multi_ok s'" "watches s' = (watches s)(d := {})"
    "others_of s' = others_of s"
    using unwatchAllKeys_multi [OF ok] .
  have "guarded g c wk s s'" if "c \<noteq> d" "wk \<in> watches s c" for c wk
    using that s'(2,3) others_of_clients(2,3) [OF s'(4)] others_flags(1) [OF s'(4)]
    by (simp add: guarded_def)
  then have "steps_ok g (\<lambda>c. c \<noteq> d) s s'"
    using s'(2) others_of_clients(3) [OF s'(4)] by (simp add: steps_ok_def)
  moreover have "watches s' d = {}" using s'(3) by simp
  ultimately show ?thesis using that s'(1,4) by (simp add: watches_def)
qed

text \<open>The state of a client that is in no transaction and watches nothing.\<close>

definition at_rest :: "multi_client \<Rightarrow> bool" where
  "at_rest cl \<longleftrightarrow> \<not> c_multi cl \<and> \<not> c_dirty_cas cl \<and> \<not> c_dirty_exec cl \<and> c_commands cl = [] \<and>
     c_cmd_flags cl = 0 \<and> c_watched cl = []"

lemma discard_steps:
  assumes ok: "multi_ok s" and d: "d \<in> set (m_list s)"
  obtains s' where "discardTransaction d s = Some s'" "steps_ok g (\<lambda>c. c \<noteq> d) s s'"
    "at_rest (m_clients s' d)" "m_db s' = m_db s" "c_out (m_clients s' d) = c_out (m_clients s d)"
proof -
  define s1 where "s1 = upd d (\<lambda>cl. cl\<lparr>c_multi := False, c_dirty_cas := False, c_dirty_exec := False\<rparr>)
    (initClientMultiState d s)"
  have s1: "s1 = upd d (\<lambda>cl. cl\<lparr>c_commands := [], c_cmd_flags := 0, c_multi := False,
      c_dirty_cas := False, c_dirty_exec := False\<rparr>) s"
    by (simp add: s1_def initClientMultiState_def upd_def)
  have st1: "steps_ok g (\<lambda>c. c \<noteq> d) s s1"
    unfolding s1 by (rule steps_ok_upd [OF ok d]) (simp_all add: idle_ok_def)
  then have "multi_ok s1" by (simp add: steps_ok_def)
  then obtain s' where s': "unwatchAllKeys d s1 = Some s'" "steps_ok g (\<lambda>c. c \<noteq> d) s1 s'"
    "others_of s' = others_of s1" "c_watched (m_clients s' d) = []"
    using unwatchAllKeys_steps by blast
  have "(m_clients s' d)\<lparr>c_watched := []\<rparr> = (m_clients s1 d)\<lparr>c_watched := []\<rparr>"
    by (rule others_of_clients(1) [OF s'(3)])
  then have cl: "m_clients s' d = (m_clients s1 d)\<lparr>c_watched := []\<rparr>"
    unfolding watched_nil [OF s'(4)] .
  have "at_rest (m_clients s' d)" "c_out (m_clients s' d) = c_out (m_clients s d)"
    unfolding cl by (simp_all add: at_rest_def s1)
  moreover have "m_db s' = m_db s" using others_of_clients(2) [OF s'(3)] by (simp add: s1)
  moreover have "discardTransaction d s = Some s'"
    using s'(1) by (simp add: discardTransaction_def s1_def)
  ultimately show ?thesis using that steps_ok_trans [OF st1 s'(2)] by blast
qed

section \<open>Commands\<close>

text \<open>Running the command in this state does not swap databases.\<close>

definition no_swap :: "cmd_table \<Rightarrow> client \<Rightarrow> command \<times> bytes list \<Rightarrow> multi_server \<Rightarrow> bool" where
  "no_swap T c q s \<longleftrightarrow>
     (case fst q of
        UnwatchCmd \<Rightarrow> True
      | Proc p \<Rightarrow> \<forall>a b. Swap a b \<notin> set (cmd_effects T p c (snd q) s))"

lemma effects_steps:
  assumes "g \<longrightarrow> (\<forall>a b. Swap a b \<notin> set es)" "d \<in> set (m_list s)" "multi_ok s"
  shows "steps_ok g P s (fold (apply_effect d) es s)"
  using assms
proof (induction es arbitrary: s)
  case (Cons e es)
  have "steps_ok g P s (apply_effect d e s)"
    using effect_ok [of s d e] effect_guarded [of s _ _ g e d] Cons.prems
    unfolding steps_ok_def by (metis list.set_intros(1))
  moreover then have "steps_ok g P (apply_effect d e s) (fold (apply_effect d) es (apply_effect d e s))"
    using Cons by (intro Cons.IH) (auto simp: steps_ok_def)
  ultimately show ?case using steps_ok_trans by fastforce
qed (simp add: steps_ok_refl)

lemma call_steps:
  assumes T: "g \<longrightarrow> no_swap T d (cmd, argv) s" and d: "d \<in> set (m_list s)" and ok: "multi_ok s"
  shows "\<exists>s'. call T d cmd argv s = Some s' \<and> steps_ok g (\<lambda>c. c \<noteq> d \<or> cmd \<noteq> UnwatchCmd) s s'"
proof (cases cmd)
  case (Proc p)
  then show ?thesis
    using effects_steps [OF _ d ok, of g] T by (simp add: call_def no_swap_def)
next
  case UnwatchCmd
  obtain s1 where s1: "unwatchAllKeys d s = Some s1" "steps_ok g (\<lambda>c. c \<noteq> d) s s1"
    using unwatchAllKeys_steps [OF ok] by blast
  define s2 where "s2 = upd d (\<lambda>cl. cl\<lparr>c_dirty_cas := False\<rparr>) s1"
  have m1: "multi_ok s1" "d \<in> set (m_list s1)" using s1(2) d by (auto simp: steps_ok_def)
  have s2: "steps_ok g (\<lambda>c. c \<noteq> d) s1 s2"
    unfolding s2_def using m1 by (intro steps_ok_upd) (simp_all add: multi_ok_idle)
  then have "steps_ok g (\<lambda>c. c \<noteq> d) s2 (reply d Ok s2)"
    using m1 by (intro steps_ok_reply) (auto simp: steps_ok_def)
  then have "steps_ok g (\<lambda>c. c \<noteq> d) s (reply d Ok s2)"
    using s1(2) s2 steps_ok_trans by blast
  then show ?thesis using s1(1) UnwatchCmd by (simp add: call_def unwatchCommand_def s2_def)
qed

lemma exec_loop_steps:
  shows "\<lbrakk>d \<in> set (m_list s); multi_ok s; g \<longrightarrow> (\<forall>q\<in>set cmds. \<forall>s. no_swap T d q s)\<rbrakk> \<Longrightarrow>
    \<exists>s' b. exec_loop T d cmds mp s = Some (s', b) \<and> steps_ok g (\<lambda>c. c \<noteq> d) s s'"
proof (induction cmds arbitrary: mp s)
  case Nil
  then show ?case by (simp add: steps_ok_refl)
next
  case (Cons q cmds)
  obtain cmd argv where q: "q = (cmd, argv)" by fastforce
  define first where "first \<longleftrightarrow> \<not> mp \<and> \<not> m_loading s \<and> cmd_flags T cmd AND (CMD_READONLY OR CMD_ADMIN) = 0"
  define s1 where "s1 = (if first then s\<lparr>m_propagated := m_propagated s @ [PropMulti (c_db (m_clients s d))]\<rparr> else s)"
  have s1: "steps_ok g (\<lambda>c. c \<noteq> d) s s1"
    using Cons.prems by (intro steps_ok_frame) (simp_all add: s1_def)
  then have m1: "d \<in> set (m_list s1)" "multi_ok s1" using Cons.prems by (auto simp: steps_ok_def)
  obtain s2 where s2: "(if cmd_denied T s1 d cmd argv then Some (reply d NoPerm s1) else call T d cmd argv s1) = Some s2"
    "steps_ok g (\<lambda>c. c \<noteq> d) s1 s2"
  proof (cases "cmd_denied T s1 d cmd argv")
    case True
    then show ?thesis using that [of "reply d NoPerm s1"] steps_ok_reply [OF m1(2,1)] by simp
  next
    case False
    obtain s2 where "call T d cmd argv s1 = Some s2" "steps_ok g (\<lambda>c. c \<noteq> d \<or> cmd \<noteq> UnwatchCmd) s1 s2"
      using call_steps [OF _ m1] Cons.prems(3) q by (metis list.set_intros(1))
    then show ?thesis using that [of s2] False steps_ok_mono by fastforce
  qed
  then have m2: "d \<in> set (m_list s2)" "multi_ok s2" using m1 by (auto simp: steps_ok_def)
  obtain s3 b where s3: "exec_loop T d cmds (mp \<or> first) s2 = Some (s3, b)" "steps_ok g (\<lambda>c. c \<noteq> d) s2 s3"
    using Cons.IH [OF m2] Cons.prems(3) by (metis list.set_intros(2))
  have "exec_loop T d (q # cmds) mp s = Some (s3, b)"
    using s2(1) s3(1) by (simp add: q first_def [symmetric] s1_def [symmetric])
  then show ?case using s1 s2(2) s3(2) steps_ok_trans by blast
qed


lemma m_frame_simps [simp]:
  "m_clients (handle_monitor c s) = m_clients s" "m_list (handle_monitor c s) = m_list s"
  "m_watched (handle_monitor c s) = m_watched s" "m_db (handle_monitor c s) = m_db s"
  "m_clients (exec_finish a b s) = m_clients s" "m_list (exec_finish a b s) = m_list s"
  "m_watched (exec_finish a b s) = m_watched s" "m_db (exec_finish a b s) = m_db s"
  by (simp_all add: handle_monitor_def exec_finish_def Let_def)

lemma handle_monitor_steps:
  assumes "steps_ok g P s s'"
  shows "steps_ok g P s (handle_monitor c s')"
proof (rule steps_ok_trans [OF assms])
  have "multi_ok s'" using assms by (simp add: steps_ok_def)
  then show "steps_ok g P s' (handle_monitor c s')" by (rule steps_ok_frame) simp_all
qed

text \<open>EXEC refused: nothing of the queue runs, the databases are as before.\<close>

lemma exec_refused:
  assumes ok: "multi_ok s" and d: "d \<in> set (m_list s)"
  obtains s' where "map_option (handle_monitor d) (discardTransaction d (reply d r s)) = Some s'"
    "steps_ok g (\<lambda>c. c \<noteq> d) s s'" "at_rest (m_clients s' d)" "m_db s' = m_db s"
    "c_out (m_clients s' d) = c_out (m_clients s d) @ [r]"
proof -
  have r: "steps_ok g (\<lambda>c. c \<noteq> d) s (reply d r s)" by (rule steps_ok_reply [OF ok d])
  then have "multi_ok (reply d r s)" "d \<in> set (m_list (reply d r s))"
    using d by (auto simp: steps_ok_def)
  from discard_steps [OF this] obtain s1 where
    s1: "discardTransaction d (reply d r s) = Some s1" "steps_ok g (\<lambda>c. c \<noteq> d) (reply d r s) s1"
      "at_rest (m_clients s1 d)" "m_db s1 = m_db (reply d r s)"
      "c_out (m_clients s1 d) = c_out (m_clients (reply d r s) d)" .
  have "steps_ok g (\<lambda>c. c \<noteq> d) s (handle_monitor d s1)"
    using steps_ok_trans [OF r s1(2)] by (rule handle_monitor_steps)
  with s1 that [of "handle_monitor d s1"] show ?thesis by (simp add: reply_def)
qed

lemma exec_steps:
  assumes ok: "multi_ok s" and d: "d \<in> set (m_list s)"
    and T: "g \<longrightarrow> (\<forall>q\<in>set (c_commands (m_clients s d)). \<forall>s. no_swap T d q s)"
  shows "\<exists>s'. execCommand T d s = Some s' \<and> steps_ok g (\<lambda>c. c \<noteq> d) s s' \<and>
    (c_multi (m_clients s d) \<longrightarrow> at_rest (m_clients s' d))"
proof -
  let ?cl = "m_clients s d"
  consider "\<not> c_multi ?cl" | "c_multi ?cl" "c_dirty_cas ?cl \<or> c_dirty_exec ?cl"
    | "c_multi ?cl" "\<not> (c_dirty_cas ?cl \<or> c_dirty_exec ?cl)"
      "\<not> m_loading s \<and> m_replica s \<and> m_slave_ro s \<and> \<not> c_master ?cl \<and> c_cmd_flags ?cl AND CMD_WRITE \<noteq> 0"
    | "c_multi ?cl" "\<not> (c_dirty_cas ?cl \<or> c_dirty_exec ?cl)"
      "\<not> (\<not> m_loading s \<and> m_replica s \<and> m_slave_ro s \<and> \<not> c_master ?cl \<and> c_cmd_flags ?cl AND CMD_WRITE \<noteq> 0)"
    by blast
  then show ?thesis
  proof cases
    case 1
    then show ?thesis using steps_ok_reply [OF ok d] by (simp add: execCommand_def)
  next
    case 2
    from exec_refused [OF ok d, of "if c_dirty_exec ?cl then ExecAbort else NullArray" g]
    obtain s1 where "map_option (handle_monitor d) (discardTransaction d
        (reply d (if c_dirty_exec ?cl then ExecAbort else NullArray) s)) = Some s1"
      "steps_ok g (\<lambda>c. c \<noteq> d) s s1" "at_rest (m_clients s1 d)" .
    moreover from this(1) have "execCommand T d s = Some s1"
      unfolding execCommand_def Let_def if_P [OF 2(2)] using 2(1) by simp
    ultimately show ?thesis by blast
  next
    case 3
    from exec_refused [OF ok d, of ReadOnlyAbort g] obtain s1 where
      "map_option (handle_monitor d) (discardTransaction d (reply d ReadOnlyAbort s)) = Some s1"
      "steps_ok g (\<lambda>c. c \<noteq> d) s s1" "at_rest (m_clients s1 d)" .
    moreover from this(1) have "execCommand T d s = Some s1"
      unfolding execCommand_def Let_def if_not_P [OF 3(2)] if_P [OF 3(3)] using 3(1) by simp
    ultimately show ?thesis by blast
  next
    case 4
    obtain s1 where s1: "unwatchAllKeys d s = Some s1" "steps_ok g (\<lambda>c. c \<noteq> d) s s1"
      using unwatchAllKeys_steps [OF ok] by blast
    then have m1: "multi_ok s1" "d \<in> set (m_list s1)" using d by (auto simp: steps_ok_def)
    define s2 where "s2 = reply d (ReplyArray (length (c_commands ?cl))) s1"
    have s2: "steps_ok g (\<lambda>c. c \<noteq> d) s1 s2" unfolding s2_def by (rule steps_ok_reply [OF m1])
    then have m2: "d \<in> set (m_list s2)" "multi_ok s2" using m1 by (auto simp: steps_ok_def)
    obtain s3 b where s3: "exec_loop T d (c_commands ?cl) False s2 = Some (s3, b)"
      "steps_ok g (\<lambda>c. c \<noteq> d) s2 s3"
      using exec_loop_steps [OF m2 T] by blast
    then have m3: "multi_ok s3" "d \<in> set (m_list s3)" using m2 by (auto simp: steps_ok_def)
    from discard_steps [OF m3] obtain s4 where s4: "discardTransaction d s3 = Some s4"
      "steps_ok g (\<lambda>c. c \<noteq> d) s3 s4" "at_rest (m_clients s4 d)" .
    define s5 where "s5 = handle_monitor d (exec_finish (\<not> m_replica s) b s4)"
    have "steps_ok g (\<lambda>c. c \<noteq> d) s4 s5"
      using s4(2) by (intro steps_ok_frame) (simp_all add: s5_def steps_ok_def)
    then have "steps_ok g (\<lambda>c. c \<noteq> d) s s5"
      using s1(2) s2 s3(2) s4(2) steps_ok_trans by blast
    moreover have "execCommand T d s = Some s5"
      unfolding execCommand_def Let_def if_not_P [OF 4(2)] if_not_P [OF 4(3)]
      using 4(1) s1(1) s3(1) s4(1) by (simp add: s2_def s5_def)
    moreover have "at_rest (m_clients s5 d)" using s4(3) by (simp add: s5_def)
    ultimately show ?thesis by blast
  qed
qed

section \<open>Events preserve the invariant\<close>

text \<open>The events by which a client gives up what it watches.\<close>

fun releases :: "client \<Rightarrow> event \<Rightarrow> bool" where
  "releases c (Exec d) = (d = c)"
| "releases c (Discard d) = (d = c)"
| "releases c (Free d) = (d = c)"
| "releases c (Command d cmd argv) = (d = c \<and> cmd = UnwatchCmd)"
| "releases c _ = False"

text \<open>
  The events all of whose changes are signalled: not the periodic expiry, and not the commands that
  swap databases, alone or in a transaction.
\<close>

fun signalled :: "cmd_table \<Rightarrow> event \<Rightarrow> multi_server \<Rightarrow> bool" where
  "signalled T (ActiveExpire db key t now) s = False"
| "signalled T (Command c cmd argv) s = no_swap T c (cmd, argv) s"
| "signalled T (Exec c) s = (\<forall>q\<in>set (c_commands (m_clients s c)). \<forall>s. no_swap T c q s)"
| "signalled T _ s = True"

definition kept :: "bool \<Rightarrow> event \<Rightarrow> multi_server \<Rightarrow> multi_server \<Rightarrow> bool" where
  "kept g e s s' \<longleftrightarrow> multi_ok s' \<and> (\<forall>c wk. \<not> releases c e \<and> wk \<in> watches s c \<longrightarrow> guarded g c wk s s')"

lemma steps_ok_kept:
  assumes "steps_ok g P s s'" "\<And>c. \<not> releases c e \<Longrightarrow> P c"
  shows "kept g e s s'"
  using assms by (auto simp: kept_def steps_ok_def)

lemma connect_kept:
  assumes ok: "multi_ok s" and c: "c \<notin> set (m_list s)"
  shows "kept g (Connect c) s ((upd c (\<lambda>_. fresh_client) s)\<lparr>m_list := m_list s @ [c]\<rparr>)"
proof -
  let ?s = "(upd c (\<lambda>_. fresh_client) s)\<lparr>m_list := m_list s @ [c]\<rparr>"
  have f: "m_clients s c = fresh_client" using ok c by (simp add: multi_ok_def)
  then have cl: "m_clients ?s = m_clients s" by (simp add: upd_def fun_upd_idem)
  then have w: "watches ?s = watches s" by (simp add: watches_def fun_eq_iff)
  have "multi_ok ?s" using ok c cl w by (simp add: multi_ok_def watch_ok_def)
  moreover have "m_db ?s = m_db s" by simp
  ultimately show ?thesis using w cl by (simp add: kept_def guarded_def)
qed

lemma free_kept:
  assumes ok: "multi_ok s" and c: "c \<in> set (m_list s)"
  shows "\<exists>s'. handle T (Free c) s = Some s' \<and> kept g (Free c) s s'"
proof -
  obtain s1 where s1: "unwatchAllKeys c s = Some s1" "steps_ok g (\<lambda>d. d \<noteq> c) s s1" "watches s1 c = {}"
    "others_of s1 = others_of s" "c_watched (m_clients s1 c) = []"
    using unwatchAllKeys_steps [OF ok] by blast
  define s2 where "s2 = upd c (\<lambda>_. fresh_client) (s1\<lparr>m_list := remove1 c (m_list s1)\<rparr>)"
  have m1: "multi_ok s1" using s1(2) by (simp add: steps_ok_def)
  have cl: "m_clients s2 d = (if d = c then fresh_client else m_clients s1 d)" for d
    by (simp add: s2_def)
  have w: "watches s2 = watches s1"
    by (rule ext) (simp add: watches_def cl fresh_client_def s1(5))
  have "watch_ok s2"
    using m1 w by (simp add: multi_ok_def watch_ok_def cl fresh_client_def) (simp add: s2_def)
  moreover have "distinct (m_list s2)" "set (m_list s2) = set (m_list s1) - {c}"
    using m1 by (simp_all add: multi_ok_def s2_def)
  ultimately have m2: "multi_ok s2"
    using m1 by (auto simp: multi_ok_def cl idle_ok_def fresh_client_def)
  have "guarded g d wk s s2" if "d \<noteq> c" "wk \<in> watches s d" for d wk
  proof -
    have "guarded g d wk s s1" using s1(2) that unfolding steps_ok_def by blast
    moreover have "m_db s2 = m_db s1" by (simp add: s2_def)
    ultimately show ?thesis using m2 w cl that by (simp add: guarded_def)
  qed
  then have "kept g (Free c) s s2" using m2 by (auto simp: kept_def)
  then show ?thesis using s1(1) by (simp add: s2_def)
qed

lemma idle_ok_flags [simp]:
  "idle_ok (cl\<lparr>c_multi := True\<rparr>)"
  "c_multi cl \<Longrightarrow> idle_ok (cl\<lparr>c_dirty_exec := b\<rparr>)"
  "c_multi cl \<Longrightarrow> idle_ok (cl\<lparr>c_commands := q, c_cmd_flags := f\<rparr>)"
  by (simp_all add: idle_ok_def)

lemma upd_reply_steps:
  assumes "multi_ok s" "d \<in> set (m_list s)" "c_watched (f (m_clients s d)) = c_watched (m_clients s d)"
    "idle_ok (f (m_clients s d))"
    "P d \<Longrightarrow> c_dirty_cas (m_clients s d) \<longrightarrow> c_dirty_cas (f (m_clients s d))"
  shows "steps_ok g P s (reply d r (upd d f s))"
proof -
  have u: "steps_ok g P s (upd d f s)" by (rule steps_ok_upd) (use assms in auto)
  then have "steps_ok g P (upd d f s) (reply d r (upd d f s))"
    using assms(2) by (intro steps_ok_reply) (auto simp: steps_ok_def)
  with u show ?thesis by (rule steps_ok_trans)
qed

lemma watch_fold_ok:
  assumes "multi_ok s" "d \<in> set (m_list s)"
  shows "steps_ok g (\<lambda>_. True) s (fold (watchForKey d) keys s)"
  using assms
proof (induction keys arbitrary: s)
  case (Cons key keys)
  let ?wk = "(c_db (m_clients s d), key)" and ?s = "watchForKey d key s"
  have "watch_ok s" using Cons.prems by (simp add: multi_ok_def)
  from watch_key_ok [OF this, of d ?wk]
  have w: "watch_ok ?s" "watches ?s = (watches s)(d := insert ?wk (watches s d))"
    "others_of ?s = others_of s" by (simp_all add: watchForKey_def)
  note o = others_of_clients [OF w(3)]
  have f: "m_clients ?s c = m_clients s c" if "c \<noteq> d" for c
    using that by (simp add: watchForKey_def watch_key_def)
  have "idle_ok (m_clients ?s c)" for c
    using multi_ok_idle [OF Cons.prems(1), of c] o(1) [where c = c and w = "[]"] idle_ok_upd(4)
    by metis
  moreover have "m_clients ?s c = fresh_client" if "c \<notin> set (m_list s)" for c
    using that f [of c] Cons.prems by (cases "c = d") (auto simp: multi_ok_def)
  ultimately have ok: "multi_ok ?s" using Cons.prems(1) w(1) o(3) by (simp add: multi_ok_def)
  have "guarded g c wk s ?s" if "wk \<in> watches s c" for c wk
    using that ok w(2) o(2) others_flags(1) [OF w(3)] by (auto simp: guarded_def)
  then have "steps_ok g (\<lambda>_. True) s ?s" using ok o(3) by (simp add: steps_ok_def)
  moreover have "steps_ok g (\<lambda>_. True) ?s (fold (watchForKey d) keys ?s)"
    using Cons.IH [of ?s] Cons.prems(2) ok o(3) by simp
  ultimately show ?case using steps_ok_trans by fastforce
qed (simp add: steps_ok_refl)

lemma watch_steps:
  assumes "multi_ok s" "d \<in> set (m_list s)"
  shows "steps_ok g (\<lambda>_. True) s (watchCommand d keys s)"
proof (cases "c_multi (m_clients s d)")
  case True
  then show ?thesis using steps_ok_reply [OF assms] by (simp add: watchCommand_def)
next
  case False
  have f: "steps_ok g (\<lambda>_. True) s (fold (watchForKey d) keys s)" by (rule watch_fold_ok [OF assms])
  then have "steps_ok g (\<lambda>_. True) (fold (watchForKey d) keys s) (reply d Ok (fold (watchForKey d) keys s))"
    using assms(2) by (intro steps_ok_reply) (auto simp: steps_ok_def)
  then have "steps_ok g (\<lambda>_. True) s (reply d Ok (fold (watchForKey d) keys s))"
    using f steps_ok_trans by blast
  with False show ?thesis by (simp add: watchCommand_def)
qed

lemma discardCommand_steps:
  assumes ok: "multi_ok s" and d: "d \<in> set (m_list s)"
  shows "\<exists>s'. discardCommand d s = Some s' \<and> steps_ok g (\<lambda>c. c \<noteq> d) s s' \<and>
    (c_multi (m_clients s d) \<longrightarrow> at_rest (m_clients s' d) \<and> m_db s' = m_db s)"
proof (cases "c_multi (m_clients s d)")
  case True
  from discard_steps [OF ok d] obtain s1 where s1: "discardTransaction d s = Some s1"
    "steps_ok g (\<lambda>c. c \<noteq> d) s s1" "at_rest (m_clients s1 d)" "m_db s1 = m_db s" .
  have "steps_ok g (\<lambda>c. c \<noteq> d) s1 (reply d Ok s1)"
    using s1(2) d by (intro steps_ok_reply) (auto simp: steps_ok_def)
  then have "steps_ok g (\<lambda>c. c \<noteq> d) s (reply d Ok s1)" using s1(2) steps_ok_trans by blast
  moreover have "at_rest (m_clients (reply d Ok s1) d)"
    using s1(3) by (simp add: reply_def at_rest_def)
  moreover have "m_db (reply d Ok s1) = m_db s" using s1(4) by (simp add: reply_def)
  ultimately show ?thesis using True s1(1) by (simp add: discardCommand_def)
next
  case False
  then show ?thesis using steps_ok_reply [OF ok d] by (simp add: discardCommand_def)
qed

lemma handle_kept:
  assumes T: "g \<longrightarrow> signalled T e s" and ok: "multi_ok s" and e: "sender_ok e s"
  shows "\<exists>s'. handle T e s = Some s' \<and> kept g e s s'"
proof (cases e)
  case (Connect c)
  then show ?thesis using connect_kept [OF ok] e by simp
next
  case (Free c)
  then show ?thesis using free_kept [OF ok] e by simp
next
  case (Multi c)
  then have c: "c \<in> set (m_list s)" using e by simp
  have "steps_ok g (\<lambda>_. True) s (multiCommand c s)"
    using steps_ok_reply [OF ok c] upd_reply_steps [OF ok c, of "c_multi_update (\<lambda>_. True)"]
    by (simp add: multiCommand_def)
  then show ?thesis using Multi steps_ok_kept [of g "\<lambda>_. True"] by simp
next
  case (Exec c)
  then have c: "c \<in> set (m_list s)" using e by simp
  show ?thesis using Exec exec_steps [OF ok c, of g T] T steps_ok_kept [of g "\<lambda>d. d \<noteq> c" s _ e] by fastforce
next
  case (Discard c)
  then have c: "c \<in> set (m_list s)" using e by simp
  show ?thesis
    using Discard discardCommand_steps [OF ok c] steps_ok_kept [of g "\<lambda>d. d \<noteq> c" s _ e] by fastforce
next
  case (Watch c keys)
  then have "c \<in> set (m_list s)" using e by simp
  from watch_steps [OF ok this] show ?thesis using Watch steps_ok_kept [of g "\<lambda>_. True"] by simp
next
  case (Command c cmd argv)
  then have c: "c \<in> set (m_list s)" using e by simp
  show ?thesis
  proof (cases "c_multi (m_clients s c)")
    case True
    have "steps_ok g (\<lambda>_. True) s (reply c Queued (queueMultiCommand T c cmd argv s))"
      unfolding queueMultiCommand_def by (rule upd_reply_steps [OF ok c]) (simp_all add: True)
    then show ?thesis using Command True steps_ok_kept [of g "\<lambda>_. True"] by (simp add: processCommand_def)
  next
    case False
    obtain s' where "call T c cmd argv s = Some s'" "steps_ok g (\<lambda>d. d \<noteq> c \<or> cmd \<noteq> UnwatchCmd) s s'"
      using call_steps [OF _ c ok, of g T] T Command by auto
    moreover from this(2) have "kept g e s s'" by (rule steps_ok_kept) (simp add: Command)
    ultimately show ?thesis using Command False by (simp add: processCommand_def)
  qed
next
  case (Rejected c)
  then have c: "c \<in> set (m_list s)" using e by simp
  have "steps_ok g (\<lambda>_. True) s (flagTransaction c s)"
  proof (cases "c_multi (m_clients s c)")
    case True
    have "steps_ok g (\<lambda>_. True) s (upd c (\<lambda>cl. cl\<lparr>c_dirty_exec := True\<rparr>) s)"
      by (rule steps_ok_upd [OF ok c]) (simp_all add: True)
    then show ?thesis using True by (simp add: flagTransaction_def)
  qed (simp add: flagTransaction_def steps_ok_refl [OF ok])
  then show ?thesis using Rejected steps_ok_kept [of g "\<lambda>_. True"] by simp
next
  case (Background db key v)
  have "steps_ok g (\<lambda>_. True) s (apply_effect 0 (Put db key v) s)"
    using effect_ok [OF ok, of 0 "Put db key v"] effect_guarded [OF ok, of _ _ g "Put db key v" 0]
    by (simp add: steps_ok_def del: apply_effect.simps)
  then show ?thesis using Background steps_ok_kept [of g "\<lambda>_. True"] by simp
next
  case (ActiveExpire db key t now)
  then have "\<not> g" using T by simp
  define s' where "s' = fst (activeExpireCycleTryExpire db key t now s)"
  have "multi_ok s'" "watches s' = watches s" "m_clients s' = m_clients s"
    using ok by (simp_all add: s'_def activeExpireCycleTryExpire_def)
  with \<open>\<not> g\<close> have "kept g e s s'" by (simp add: kept_def guarded_def)
  then show ?thesis using ActiveExpire by (simp add: s'_def)
qed

section \<open>Runs\<close>

text \<open>A run as a function: \<open>None\<close> when an event has no valid sender or an assertion fails.\<close>

definition run_events :: "cmd_table \<Rightarrow> event list \<Rightarrow> multi_server \<Rightarrow> multi_server option" where
  "run_events T = fold_opt (\<lambda>e s. if sender_ok e s then handle T e s else None)"

lemma m_steps_run: "m_steps T s es s' \<longleftrightarrow> run_events T es s = Some s'"
proof
  show "m_steps T s es s' \<Longrightarrow> run_events T es s = Some s'"
    by (induction rule: m_steps.induct) (auto simp: run_events_def elim!: m_stepE)
next
  assume "run_events T es s = Some s'"
  then show "m_steps T s es s'"
  proof (induction es arbitrary: s)
    case (Cons e es)
    then obtain s1 where "sender_ok e s" "handle T e s = Some s1" "run_events T es s1 = Some s'"
      by (auto simp: run_events_def bind_eq_Some_conv split: if_splits)
    then show ?case using Cons.IH by (auto intro: m_steps.intros m_step.intros)
  qed (simp add: run_events_def m_steps.none)
qed

lemma m_init_ok: "m_init s \<Longrightarrow> multi_ok s"
  by (simp add: m_init_def multi_ok_def watch_ok_def watches_def fresh_client_def idle_ok_def
      index_inv_def entry_ok_def)

lemma m_steps_kept:
  shows "m_steps T s es s' \<Longrightarrow> multi_ok s \<Longrightarrow> multi_ok s' \<and>
    (\<forall>c wk. (\<forall>e\<in>set es. \<not> releases c e) \<and> wk \<in> watches s c \<longrightarrow> guarded False c wk s s')"
proof (induction rule: m_steps.induct)
  case (none s)
  then show ?case by (simp add: guarded_refl)
next
  case (more s e s1 es s2)
  have e: "sender_ok e s" "handle T e s = Some s1" using more.hyps(1) by (auto elim!: m_stepE)
  then have k: "kept False e s s1" using handle_kept [OF _ more.prems e(1), of False T] by simp
  then have IH: "multi_ok s2"
    "\<And>c wk. (\<forall>e\<in>set es. \<not> releases c e) \<and> wk \<in> watches s1 c \<Longrightarrow> guarded False c wk s1 s2"
    using more.IH k unfolding kept_def by blast+
  have "guarded False c wk s s2" if "\<forall>e\<in>set (e # es). \<not> releases c e" "wk \<in> watches s c" for c wk
  proof -
    have "\<not> releases c e" using that(1) by simp
    then have g: "guarded False c wk s s1" using k that(2) unfolding kept_def by blast
    then show ?thesis using IH(2) [of c wk] that guarded_trans [OF g] by (simp add: guarded_def)
  qed
  with IH(1) show ?case by blast
qed

definition m_reachable :: "cmd_table \<Rightarrow> multi_server \<Rightarrow> bool" where
  "m_reachable T s \<longleftrightarrow> (\<exists>s0 es. m_init s0 \<and> m_steps T s0 es s)"

lemma reachable_ok: "m_reachable T s \<Longrightarrow> multi_ok s"
  using m_steps_kept m_init_ok unfolding m_reachable_def by blast


section \<open>Properties\<close>

text \<open>C8: whatever clients send, in whatever order, the watched-key table and the clients' own
  lists of watched keys stay in agreement, no assertion of multi.c can fail, and EXEC and DISCARD
  leave the client with no transaction, no watched key and no dirty flag.\<close>

theorem multi_invariant:
  assumes "m_reachable T s" "sender_ok e s"
  shows "\<exists>s'. handle T e s = Some s' \<and> multi_ok s' \<and>
    (\<forall>c. (e = Exec c \<or> e = Discard c) \<and> c_multi (m_clients s c) \<longrightarrow> at_rest (m_clients s' c))"
proof -
  note ok = reachable_ok [OF assms(1)]
  obtain s' where s': "handle T e s = Some s'" "kept False e s s'"
    using handle_kept [OF _ ok assms(2), of False T] by blast
  have "at_rest (m_clients s' c)"
    if "e = Exec c \<or> e = Discard c" "c_multi (m_clients s c)" for c
    using that exec_steps [OF ok, of c False T] discardCommand_steps [OF ok, of c] s'(1) assms(2)
    by auto
  with s' show ?thesis by (auto simp: kept_def)
qed

definition ex_table :: cmd_table where
  "ex_table = \<lparr>cmd_flags = (\<lambda>_. CMD_WRITE), cmd_denied = (\<lambda>_ _ _ _. False),
     cmd_effects = (\<lambda>p c argv s. [Put (c_db (m_clients s c)) (argv ! 0) (Some (argv ! 1)), Reply [43]])\<rparr>"

definition ex_server :: multi_server where
  "ex_server = \<lparr>m_clients = (\<lambda>_. fresh_client), m_list = [], m_watched = (\<lambda>_. None),
     m_db = (\<lambda>_ _. None), m_dbnum = 16, m_loading = False, m_replica = False, m_slave_ro = True,
     m_backlog = False, m_dirty = 0, m_propagated = [], m_monitors = 0, m_monitored = []\<rparr>"

lemma ex_init: "m_init ex_server"
  by (simp add: m_init_def ex_server_def)


lemma ex_reachable: "run_events T es ex_server = Some s \<Longrightarrow> m_reachable T s"
  using ex_init m_steps_run by (auto simp: m_reachable_def)

lemma multi_invariant_witness:
  "\<exists>s s'. run_events ex_table [Connect 1, Multi 1] ex_server = Some s \<and>
     handle ex_table (Exec 1) s = Some s' \<and> multi_ok s'"
proof -
  have "\<exists>s. run_events ex_table [Connect 1, Multi 1] ex_server = Some s \<and> sender_ok (Exec 1) s"
    by (simp add: run_events_def ex_server_def)
      (simp add: multiCommand_def reply_def upd_def fresh_client_def)
  then obtain s where s: "run_events ex_table [Connect 1, Multi 1] ex_server = Some s"
    "sender_ok (Exec 1) s" by blast
  show ?thesis
    using multi_invariant [OF ex_reachable [OF s(1)] s(2)] s(1) by blast
qed





section \<open>SWAPDB and WATCH\<close>














end
