(* ===== verification/Networking.thy ===== *)
theory Networking
  imports NumText Sds
begin

text \<open>
  Reading requests, \<open>src/networking.c\<close>: the inline and the multibulk protocol over the query
  buffer of a client, the loop that executes the requests in it, reading more bytes, and the
  variant in which the bytes are read and parsed by I/O threads. \<open>processCommand\<close> is a parameter:
  it sees the requests executed so far and the flags of the client, and answers with its return
  value and the new flags. Statistics, the peak sizes of buffers, and the meaningful offset of the
  replication stream, which replication.c maintains, are left out. \<open>None\<close> is a failed assertion.
\<close>

section \<open>State\<close>

datatype reqtype = NoType | Inline | Multibulk

datatype protocol_error = TooBigInline | UnbalancedQuotes | TooBigMbulkCount | InvalidMbulkCount
  | TooBigBulkCount | ExpectedDollar u8 | InvalidBulkLength

datatype cmd_class = AskingCommand | ClientCommand | OtherCommand

record cflags =
  f_slave :: bool
  f_master :: bool
  f_multi :: bool
  f_blocked :: bool
  f_blocked_module :: bool
  f_asking :: bool
  f_caching :: bool
  f_reply_skip :: bool
  f_reply_skip_next :: bool
  f_close_after_reply :: bool
  f_close_asap :: bool
  f_protocol_error :: bool
  f_pending_read :: bool
  f_pending_command :: bool
  f_monitor :: bool
  f_pubsub :: bool

datatype client_type = ClientNormal | ClientSlave | ClientPubsub | ClientMaster

definition getClientType :: "cflags \<Rightarrow> client_type" where
  "getClientType fl =
     (if f_master fl then ClientMaster
      else if f_slave fl \<and> \<not> f_monitor fl then ClientSlave
      else if f_pubsub fl then ClientPubsub
      else ClientNormal)"

text \<open>
  The fields of a client that the functions below use. The last five record what the code hands
  to other modules: the error replies, the requests passed to \<open>processCommand\<close> and to Gopher, the
  bytes of a master's stream passed on to the replicas, and whether the client has been freed.
\<close>

record rclient =
  querybuf :: bytes
  qb_pos :: nat
  reqtype :: reqtype
  multibulklen :: nat
  bulklen :: "nat option"
  cargv :: "bytes list"
  ccmd :: cmd_class
  cflags :: cflags
  repl_ack_time :: nat
  reploff :: int
  read_reploff :: int
  pending_querybuf :: bytes
  protocol_errors :: "protocol_error list"
  executed :: "bytes list list"
  gopher_requests :: "bytes list list"
  replicated :: bytes
  freed :: bool

datatype status = CmdOk | CmdErr | CmdFreed

record server_env =
  proto_max_bulk_len :: nat
  client_max_querybuf_len :: nat
  gopher_enabled :: bool
  unixtime :: nat
  io_threads_reads :: bool
  clients_paused :: "bytes list list \<Rightarrow> bool"
  lua_timedout :: "bytes list list \<Rightarrow> bool"
  process_command :: "bytes list list \<Rightarrow> bytes list \<Rightarrow> cflags \<Rightarrow> status \<times> cmd_class \<times> cflags"

definition PROTO_INLINE_MAX_SIZE :: nat where "PROTO_INLINE_MAX_SIZE = 65536"
definition PROTO_MBULK_BIG_ARG :: nat where "PROTO_MBULK_BIG_ARG = 32768"

text \<open>The unread part of the query buffer, and its first position of a byte before any NUL.\<close>

definition rest :: "rclient \<Rightarrow> bytes" where
  "rest c = drop (qb_pos c) (querybuf c)"

fun strchr :: "u8 \<Rightarrow> bytes \<Rightarrow> nat option" where
  "strchr x [] = None"
| "strchr x (b # bs) = (if b = x then Some 0 else if b = 0 then None else map_option Suc (strchr x bs))"

section \<open>Requests\<close>

text \<open>The flags that hold for the next command only; \<open>prevcmd\<close> is the command just processed.\<close>

definition reset_flags :: "cmd_class \<Rightarrow> cflags \<Rightarrow> cflags" where
  "reset_flags prevcmd fl =
     (let fl = (if \<not> f_multi fl \<and> prevcmd \<noteq> AskingCommand then fl\<lparr>f_asking := False\<rparr> else fl);
          fl = (if \<not> f_multi fl \<and> prevcmd \<noteq> ClientCommand then fl\<lparr>f_caching := False\<rparr> else fl);
          fl = fl\<lparr>f_reply_skip := False\<rparr>
      in if f_reply_skip_next fl then fl\<lparr>f_reply_skip := True, f_reply_skip_next := False\<rparr> else fl)"

definition resetClient :: "rclient \<Rightarrow> rclient" where
  "resetClient c =
     (let prevcmd = ccmd c
      in c\<lparr>cargv := [], ccmd := OtherCommand, reqtype := NoType, multibulklen := 0, bulklen := None,
           cflags := reset_flags prevcmd (cflags c)\<rparr>)"

definition setProtocolError :: "protocol_error \<Rightarrow> rclient \<Rightarrow> rclient" where
  "setProtocolError e c =
     c\<lparr>protocol_errors := protocol_errors c @ [e],
       cflags := (cflags c)\<lparr>f_close_after_reply := True, f_protocol_error := True\<rparr>\<rparr>"

text \<open>The length of a line that ends at the newline, and of its end: LF or CR LF.\<close>

definition line_end :: "nat \<Rightarrow> bytes \<Rightarrow> nat \<times> nat" where
  "line_end newline b =
     (if newline \<noteq> 0 \<and> b ! (newline - 1) = 13 then (newline - 1, 2) else (newline, 1))"

text \<open>The result is \<open>True\<close> for \<open>C_OK\<close>.\<close>

definition processInlineBuffer :: "server_env \<Rightarrow> rclient \<Rightarrow> rclient \<times> bool" where
  "processInlineBuffer env c =
     (let b = rest c
      in case strchr 10 b of
           None \<Rightarrow>
             (if length b > PROTO_INLINE_MAX_SIZE then setProtocolError TooBigInline c else c, False)
         | Some newline \<Rightarrow>
             let (querylen, linefeed_chars) = line_end newline b
             in case sdssplitargs (take querylen b) of
                  None \<Rightarrow> (setProtocolError UnbalancedQuotes c, False)
                | Some argv \<Rightarrow>
                    let c = (if querylen = 0 \<and> getClientType (cflags c) = ClientSlave
                             then c\<lparr>repl_ack_time := unixtime env\<rparr> else c)
                    in (c\<lparr>qb_pos := qb_pos c + querylen + linefeed_chars, cargv := argv\<rparr>, True))"

text \<open>The count line of a multibulk request: \<open>Inl\<close> when the function returns with it.\<close>

definition mbulk_count :: "rclient \<Rightarrow> (rclient \<times> bool + rclient) option" where
  "mbulk_count c =
     (if multibulklen c \<noteq> 0 then Some (Inr c)
      else if cargv c \<noteq> [] then None
      else
        let b = rest c
        in case strchr 13 b of
             None \<Rightarrow>
               Some (Inl (if length b > PROTO_INLINE_MAX_SIZE then setProtocolError TooBigMbulkCount c else c, False))
           | Some newline \<Rightarrow>
               if int newline > int (length b) - 2 then Some (Inl (c, False))
               else if b ! 0 \<noteq> 42 then None
               else
                 case string2ll (take (newline - 1) (drop 1 b)) of
                   None \<Rightarrow> Some (Inl (setProtocolError InvalidMbulkCount c, False))
                 | Some ll \<Rightarrow>
                     if sint ll > 1024 * 1024 then Some (Inl (setProtocolError InvalidMbulkCount c, False))
                     else
                       let c = c\<lparr>qb_pos := qb_pos c + newline + 2\<rparr>
                       in if sint ll \<le> 0 then Some (Inl (c, True))
                          else Some (Inr (c\<lparr>multibulklen := nat (sint ll)\<rparr>)))"

text \<open>
  The buffer is cut at the position of a large argument, unless more than the argument has been
  read, so that the argument may become the buffer.
\<close>

definition cut_buffer :: "nat \<Rightarrow> rclient \<Rightarrow> rclient" where
  "cut_buffer len c =
     (if len \<ge> PROTO_MBULK_BIG_ARG \<and> length (querybuf c) - qb_pos c \<le> len + 2
      then c\<lparr>querybuf := sdsrange (querybuf c) (int (qb_pos c)) (- 1), qb_pos := 0\<rparr> else c)"

text \<open>The length line of an argument: \<open>Inl\<close> when the loop is left with it.\<close>

definition bulk_length :: "server_env \<Rightarrow> rclient \<Rightarrow> rclient + rclient" where
  "bulk_length env c =
     (if bulklen c \<noteq> None then Inr c
      else
        let b = rest c
        in case strchr 13 b of
             None \<Rightarrow> Inl (if length b > PROTO_INLINE_MAX_SIZE then setProtocolError TooBigBulkCount c else c)
           | Some newline \<Rightarrow>
               if int newline > int (length b) - 2 then Inl c
               else if b ! 0 \<noteq> 36 then Inl (setProtocolError (ExpectedDollar (b ! 0)) c)
               else
                 case string2ll (take (newline - 1) (drop 1 b)) of
                   None \<Rightarrow> Inl (setProtocolError InvalidBulkLength c)
                 | Some ll \<Rightarrow>
                     if sint ll < 0 \<or> sint ll > int (proto_max_bulk_len env)
                     then Inl (setProtocolError InvalidBulkLength c)
                     else
                       let len = nat (sint ll);
                           c = cut_buffer len (c\<lparr>qb_pos := qb_pos c + newline + 2\<rparr>)
                       in Inr (c\<lparr>bulklen := Some len\<rparr>))"

text \<open>
  The argument itself, \<open>None\<close> when its bytes have not all arrived. If the buffer holds just the
  argument, it becomes the argument and the client gets a new buffer.
\<close>

definition bulk_argument :: "nat \<Rightarrow> rclient \<Rightarrow> rclient option" where
  "bulk_argument len c =
     (if length (querybuf c) - qb_pos c < len + 2 then None
      else
        let c = (if qb_pos c = 0 \<and> len \<ge> PROTO_MBULK_BIG_ARG \<and> length (querybuf c) = len + 2
                 then c\<lparr>cargv := cargv c @ [take len (querybuf c)], querybuf := []\<rparr>
                 else c\<lparr>cargv := cargv c @ [take len (rest c)], qb_pos := qb_pos c + len + 2\<rparr>)
        in Some (c\<lparr>bulklen := None, multibulklen := multibulklen c - 1\<rparr>))"

lemma setProtocolError_simps [simp]:
  "querybuf (setProtocolError e c) = querybuf c" "qb_pos (setProtocolError e c) = qb_pos c"
  "multibulklen (setProtocolError e c) = multibulklen c" "bulklen (setProtocolError e c) = bulklen c"
  "reqtype (setProtocolError e c) = reqtype c" "cargv (setProtocolError e c) = cargv c"
  "f_close_after_reply (cflags (setProtocolError e c))" "rest (setProtocolError e c) = rest c"
  by (simp_all add: setProtocolError_def rest_def)

lemma cut_buffer_simps [simp]:
  "multibulklen (cut_buffer n c) = multibulklen c"
  by (simp add: cut_buffer_def)

lemma bulk_decreases:
  assumes "multibulklen c \<noteq> 0" "bulk_length env c = Inr b" "bulk_argument n b = Some d"
  shows "multibulklen d < multibulklen c"
proof -
  have "multibulklen b = multibulklen c"
    using assms(2) by (auto simp: bulk_length_def Let_def split: option.splits if_splits)
  moreover have "multibulklen d = multibulklen b - 1"
    using assms(3) by (auto simp: bulk_argument_def Let_def split: if_splits)
  ultimately show ?thesis using assms(1) by simp
qed

function bulk_loop :: "server_env \<Rightarrow> rclient \<Rightarrow> rclient \<times> bool" where
  "bulk_loop env c =
     (if multibulklen c = 0 then (c, True)
      else
        case bulk_length env c of
          Inl c \<Rightarrow> (c, False)
        | Inr c \<Rightarrow>
            (case bulk_argument (the (bulklen c)) c of
               None \<Rightarrow> (c, False)
             | Some c \<Rightarrow> bulk_loop env c))"
  by pat_completeness auto
termination
  by (relation "measure (multibulklen \<circ> snd)") (simp_all add: bulk_decreases)

declare bulk_loop.simps [simp del]

definition processMultibulkBuffer :: "server_env \<Rightarrow> rclient \<Rightarrow> (rclient \<times> bool) option" where
  "processMultibulkBuffer env c =
     (case mbulk_count c of
        None \<Rightarrow> None
      | Some (Inl r) \<Rightarrow> Some r
      | Some (Inr c) \<Rightarrow> Some (bulk_loop env c))"

text \<open>
  The stream of a master: the offset of its first unread byte, and the bytes of it that were
  applied since \<open>prev_offset\<close>, which are passed on to the replicas.
\<close>

definition read_position :: "rclient \<Rightarrow> int" where
  "read_position c = read_reploff c - int (length (querybuf c)) + int (qb_pos c)"

definition pass_on :: "int \<Rightarrow> rclient \<Rightarrow> rclient" where
  "pass_on prev_offset c =
     (if f_master (cflags c) then
        let applied = reploff c - prev_offset
        in if applied \<noteq> 0
           then c\<lparr>replicated := replicated c @ take (nat applied) (pending_querybuf c),
                  pending_querybuf := sdsrange (pending_querybuf c) applied (- 1)\<rparr>
           else c
      else c)"

definition commandProcessed :: "rclient \<Rightarrow> rclient" where
  "commandProcessed c =
     (let prev_offset = reploff c;
          c = (if f_master (cflags c) \<and> \<not> f_multi (cflags c) then c\<lparr>reploff := read_position c\<rparr> else c);
          c = (if \<not> f_blocked (cflags c) \<or> \<not> f_blocked_module (cflags c) then resetClient c else c)
      in pass_on prev_offset c)"

text \<open>\<open>True\<close>: the client has been freed; the model then forgets its fields.\<close>

definition freeClient :: "rclient \<Rightarrow> rclient" where
  "freeClient c = c\<lparr>querybuf := [], qb_pos := 0, reqtype := NoType, multibulklen := 0, bulklen := None,
     cargv := [], ccmd := OtherCommand, pending_querybuf := [], reploff := 0, read_reploff := 0,
     freed := True\<rparr>"

definition processCommandAndResetClient :: "server_env \<Rightarrow> rclient \<Rightarrow> rclient \<times> bool" where
  "processCommandAndResetClient env c =
     (let (st, cls, fl) = process_command env (executed c) (cargv c) (cflags c);
          c = c\<lparr>executed := executed c @ [cargv c], ccmd := cls, cflags := fl\<rparr>
      in case st of
           CmdOk \<Rightarrow> (commandProcessed c, False)
         | CmdErr \<Rightarrow> (c, False)
         | CmdFreed \<Rightarrow> (freeClient c, True))"

section \<open>The query buffer\<close>

definition stopped :: "server_env \<Rightarrow> rclient \<Rightarrow> bool" where
  "stopped env c \<longleftrightarrow>
     (\<not> f_slave (cflags c) \<and> clients_paused env (executed c)) \<or> f_blocked (cflags c) \<or>
     f_pending_command (cflags c) \<or> (lua_timedout env (executed c) \<and> f_master (cflags c)) \<or>
     f_close_after_reply (cflags c) \<or> f_close_asap (cflags c)"

definition request_type :: "rclient \<Rightarrow> rclient" where
  "request_type c =
     (if reqtype c = NoType
      then c\<lparr>reqtype := (if querybuf c ! qb_pos c = 42 then Multibulk else Inline)\<rparr> else c)"

definition is_gopher :: "server_env \<Rightarrow> rclient \<Rightarrow> bool" where
  "is_gopher env c \<longleftrightarrow> reqtype c = Inline \<and> gopher_enabled env \<and>
     (length (cargv c) = 1 \<and> c_hd (cargv c ! 0) = 47 \<or> cargv c = [])"

definition gopher_request :: "rclient \<Rightarrow> rclient" where
  "gopher_request c =
     (let c = resetClient (c\<lparr>gopher_requests := gopher_requests c @ [cargv c]\<rparr>)
      in c\<lparr>cflags := (cflags c)\<lparr>f_close_after_reply := True\<rparr>\<rparr>)"

text \<open>What the loop does with a complete request; \<open>True\<close> when it goes on.\<close>

definition complete_request :: "server_env \<Rightarrow> rclient \<Rightarrow> rclient \<times> bool" where
  "complete_request env c =
     (if is_gopher env c then (gopher_request c, False)
      else if cargv c = [] then (resetClient c, True)
      else if f_pending_read (cflags c) then (c\<lparr>cflags := (cflags c)\<lparr>f_pending_command := True\<rparr>\<rparr>, False)
      else let (c, dead) = processCommandAndResetClient env c in (c, \<not> dead))"

definition read_request :: "server_env \<Rightarrow> rclient \<Rightarrow> (rclient \<times> bool) option" where
  "read_request env c =
     (if reqtype c = Inline then Some (processInlineBuffer env c) else processMultibulkBuffer env c)"

section \<open>Progress\<close>

text \<open>A part of the loop that returns \<open>True\<close> has consumed bytes.\<close>

definition unread :: "rclient \<Rightarrow> nat" where
  "unread c = length (querybuf c) - qb_pos c"

lemma unread_rest: "unread c = length (rest c)"
  by (simp add: unread_def rest_def)

lemma strchr_Some: "strchr x b = Some n \<Longrightarrow> n < length b \<and> b ! n = x"
  by (induction b arbitrary: n) (auto split: if_splits)

lemma sdsrange_tail: "0 \<le> p \<Longrightarrow> sdsrange b p (- 1) = drop (nat p) b"
  by (auto simp: sdsrange_def Let_def nat_diff_distrib')

lemma processInlineBuffer_progress:
  assumes "processInlineBuffer env c = (c', True)"
  shows "unread c' < unread c"
proof -
  obtain n where n: "strchr 10 (rest c) = Some n"
    using assms by (cases "strchr 10 (rest c)") (auto simp: processInlineBuffer_def Let_def)
  have "n < unread c" using strchr_Some [OF n] by (simp add: unread_rest)
  then show ?thesis using assms n
    by (auto simp: processInlineBuffer_def line_end_def Let_def unread_def split: option.splits if_splits)
qed

lemma mbulk_count_progress:
  "mbulk_count c = Some (Inl (c', True)) \<Longrightarrow> unread c' < unread c"
  "mbulk_count c = Some (Inr c') \<Longrightarrow> unread c' \<le> unread c \<and> multibulklen c' \<noteq> 0"
proof -
  have n: "n < unread c" if "strchr 13 (rest c) = Some n" for n
    using strchr_Some [OF that] by (simp add: unread_rest)
  show "mbulk_count c = Some (Inl (c', True)) \<Longrightarrow> unread c' < unread c"
    by (auto simp: mbulk_count_def Let_def unread_def dest!: n split: option.splits if_splits)
  show "mbulk_count c = Some (Inr c') \<Longrightarrow> unread c' \<le> unread c \<and> multibulklen c' \<noteq> 0"
    by (auto simp: mbulk_count_def Let_def unread_def dest!: n split: option.splits if_splits)
qed

lemma unread_cut: "length (querybuf (cut_buffer n c)) - qb_pos (cut_buffer n c) = length (querybuf c) - qb_pos c"
  by (simp add: cut_buffer_def sdsrange_tail)

lemma bulk_length_progress: "bulk_length env c = Inr c' \<Longrightarrow> unread c' \<le> unread c"
  by (auto simp: bulk_length_def Let_def unread_cut unread_def split: option.splits if_splits)

lemma bulk_argument_progress: "bulk_argument n c = Some c' \<Longrightarrow> unread c' < unread c"
  by (auto simp: bulk_argument_def Let_def unread_def split: if_splits)

lemma bulk_loop_progress:
  "bulk_loop env c = (c', True) \<Longrightarrow> unread c' \<le> unread c \<and> (multibulklen c \<noteq> 0 \<longrightarrow> unread c' < unread c)"
proof (induction env c rule: bulk_loop.induct)
  case (1 env c)
  show ?case
  proof (cases "multibulklen c = 0")
    case True
    then show ?thesis using "1.prems" by (simp add: bulk_loop.simps [of env c])
  next
    case False
    then obtain b d where b: "bulk_length env c = Inr b" "bulk_argument (the (bulklen b)) b = Some d"
      "bulk_loop env d = (c', True)"
      using "1.prems" by (auto simp: bulk_loop.simps [of env c] split: sum.splits option.splits)
    then show ?thesis
      using "1.IH" [OF False b(1,2,3)] bulk_length_progress [OF b(1)] bulk_argument_progress [OF b(2)]
      by linarith
  qed
qed

lemma read_request_progress:
  assumes "read_request env c = Some (c', True)"
  shows "unread c' < unread c"
proof (cases "reqtype c = Inline")
  case True
  then show ?thesis using assms by (simp add: read_request_def processInlineBuffer_progress)
next
  case False
  then have m: "processMultibulkBuffer env c = Some (c', True)" using assms by (simp add: read_request_def)
  then consider "mbulk_count c = Some (Inl (c', True))"
    | d where "mbulk_count c = Some (Inr d)" "bulk_loop env d = (c', True)"
    by (auto simp: processMultibulkBuffer_def split: option.splits sum.splits)
  then show ?thesis
  proof cases
    case 1
    then show ?thesis by (rule mbulk_count_progress)
  next
    case 2
    then show ?thesis
      using mbulk_count_progress(2) [OF 2(1)] bulk_loop_progress [OF 2(2)] by linarith
  qed
qed

lemma resetClient_simps [simp]:
  "querybuf (resetClient c) = querybuf c" "qb_pos (resetClient c) = qb_pos c"
  "rest (resetClient c) = rest c" "cargv (resetClient c) = []" "bulklen (resetClient c) = None"
  "multibulklen (resetClient c) = 0" "reqtype (resetClient c) = NoType"
  "executed (resetClient c) = executed c" "protocol_errors (resetClient c) = protocol_errors c"
  "freed (resetClient c) = freed c" "reploff (resetClient c) = reploff c"
  "read_reploff (resetClient c) = read_reploff c" "pending_querybuf (resetClient c) = pending_querybuf c"
  "replicated (resetClient c) = replicated c" "cflags (resetClient c) = reset_flags (ccmd c) (cflags c)"
  "ccmd (resetClient c) = OtherCommand"
  by (simp_all add: resetClient_def Let_def rest_def)

lemma commandProcessed_buffer [simp]:
  "querybuf (commandProcessed c) = querybuf c" "qb_pos (commandProcessed c) = qb_pos c"
  by (simp_all add: commandProcessed_def pass_on_def Let_def)

lemma complete_request_buffer:
  assumes "complete_request env c = (c', True)"
  shows "querybuf c' = querybuf c \<and> qb_pos c' = qb_pos c"
  using assms
  by (auto simp: complete_request_def processCommandAndResetClient_def Let_def
      split: if_splits prod.splits status.splits)

lemma request_type_simps [simp]:
  "querybuf (request_type c) = querybuf c" "qb_pos (request_type c) = qb_pos c"
  "rest (request_type c) = rest c" "cflags (request_type c) = cflags c"
  "executed (request_type c) = executed c"
  by (simp_all add: request_type_def rest_def)

function input_loop :: "server_env \<Rightarrow> rclient \<Rightarrow> rclient option" where
  "input_loop env c =
     (if \<not> qb_pos c < length (querybuf c) \<or> stopped env c then Some c
      else
        case read_request env (request_type c) of
          None \<Rightarrow> None
        | Some (c, ok) \<Rightarrow>
            if \<not> ok then Some c
            else case complete_request env c of
                   (c, go) \<Rightarrow> if go then input_loop env c else Some c)"
  by pat_completeness auto
termination
proof (relation "measure (unread \<circ> snd)", goal_cases)
  case (2 env c r d ok e go)
  then have r: "read_request env (request_type c) = Some (d, True)" by simp
  from complete_request_buffer [of env d e] 2 have "unread e = unread d" by (simp add: unread_def)
  moreover have "unread d < unread c"
    using read_request_progress [OF r] by (simp add: unread_def)
  ultimately show ?case by simp
qed simp

declare input_loop.simps [simp del]

definition processInputBuffer :: "server_env \<Rightarrow> rclient \<Rightarrow> rclient option" where
  "processInputBuffer env c =
     map_option (\<lambda>c. if qb_pos c \<noteq> 0
        then c\<lparr>querybuf := sdsrange (querybuf c) (int (qb_pos c)) (- 1), qb_pos := 0\<rparr> else c)
       (input_loop env c)"

section \<open>Reading\<close>

datatype read_result = NotReady | ReadError | ReadEof | Data bytes

definition postponeClientRead :: "server_env \<Rightarrow> rclient \<Rightarrow> rclient \<times> bool" where
  "postponeClientRead env c =
     (if io_threads_reads env \<and> \<not> f_master (cflags c) \<and> \<not> f_slave (cflags c) \<and> \<not> f_pending_read (cflags c)
      then (c\<lparr>cflags := (cflags c)\<lparr>f_pending_read := True\<rparr>\<rparr>, True)
      else (c, False))"

definition freeClientAsync :: "rclient \<Rightarrow> rclient" where
  "freeClientAsync c = c\<lparr>cflags := (cflags c)\<lparr>f_close_asap := True\<rparr>\<rparr>"

text \<open>The bytes that were read go to the query buffer and, from a master, to the pending ones.\<close>

definition append_bytes :: "bytes \<Rightarrow> rclient \<Rightarrow> rclient" where
  "append_bytes x c =
     (let c = (if f_master (cflags c)
               then c\<lparr>pending_querybuf := pending_querybuf c @ x, read_reploff := read_reploff c + int (length x)\<rparr>
               else c)
      in c\<lparr>querybuf := querybuf c @ x\<rparr>)"

definition readQueryFromClient :: "server_env \<Rightarrow> read_result \<Rightarrow> rclient \<Rightarrow> rclient option" where
  "readQueryFromClient env r c =
     (case postponeClientRead env c of
        (c, True) \<Rightarrow> Some c
      | (c, False) \<Rightarrow>
          (case r of
             NotReady \<Rightarrow> Some c
           | ReadError \<Rightarrow> Some (freeClientAsync c)
           | ReadEof \<Rightarrow> Some (freeClientAsync c)
           | Data x \<Rightarrow>
               let c = append_bytes x c
               in if length (querybuf c) > client_max_querybuf_len env then Some (freeClientAsync c)
                  else processInputBuffer env c))"

text \<open>What the main thread does with a client after the I/O threads have read and parsed.\<close>

definition finish_pending_read :: "server_env \<Rightarrow> rclient \<Rightarrow> rclient option" where
  "finish_pending_read env c =
     (let c = c\<lparr>cflags := (cflags c)\<lparr>f_pending_read := False\<rparr>\<rparr>
      in if f_pending_command (cflags c) then
           (case processCommandAndResetClient env (c\<lparr>cflags := (cflags c)\<lparr>f_pending_command := False\<rparr>\<rparr>) of
              (c, dead) \<Rightarrow> if dead then Some c else processInputBuffer env c)
         else processInputBuffer env c)"

definition processUnblockedClient :: "server_env \<Rightarrow> rclient \<Rightarrow> rclient option" where
  "processUnblockedClient env c =
     (if \<not> f_blocked (cflags c) \<and> 0 < length (querybuf c) then processInputBuffer env c else Some c)"

end
