(* ===== verification/RequestMachine.thy ===== *)
theory RequestMachine
  imports Networking
begin

text \<open>
  What the request parser of \<open>Networking\<close> promises: a small-step machine on the unread bytes
  alone, without positions in the buffer, partial rereads and the reuse of the buffer for large
  arguments, is the specification; the code computes the normal form of this machine.
\<close>

section \<open>The reference machine\<close>

text \<open>A header line ends at the first CR; the byte behind it must have arrived.\<close>

definition crlf_line :: "bytes \<Rightarrow> (bytes \<times> bytes) option" where
  "crlf_line b =
     (case strchr 13 b of
        None \<Rightarrow> None
      | Some n \<Rightarrow> if n + 2 \<le> length b then Some (take n b, drop (n + 2) b) else None)"

text \<open>The line of an inline request that ends at position \<open>n\<close>, without a CR before the newline.\<close>

definition inline_line :: "nat \<Rightarrow> bytes \<Rightarrow> bytes" where
  "inline_line n b = (if n \<noteq> 0 \<and> b ! (n - 1) = 13 then take (n - 1) b else take n b)"

definition too_long :: "bytes \<Rightarrow> bool" where
  "too_long b \<longleftrightarrow> strchr 13 b = None \<and> length b > PROTO_INLINE_MAX_SIZE"

definition rstep :: "server_env \<Rightarrow> rclient \<Rightarrow> rclient option" where
  "rstep env c =
     (let b = querybuf c
      in if b = [] \<or> stopped env c then None
         else if reqtype c = NoType then
           Some (c\<lparr>reqtype := (if hd b = 42 then Multibulk else Inline)\<rparr>)
         else if reqtype c = Inline then
           (case strchr 10 b of
              None \<Rightarrow> if length b > PROTO_INLINE_MAX_SIZE then Some (setProtocolError TooBigInline c) else None
            | Some n \<Rightarrow>
                let line = inline_line n b
                in case sdssplitargs line of
                     None \<Rightarrow> Some (setProtocolError UnbalancedQuotes c)
                   | Some argv \<Rightarrow>
                       Some (fst (complete_request env
                         (c\<lparr>repl_ack_time := (if line = [] \<and> getClientType (cflags c) = ClientSlave then unixtime env else repl_ack_time c),
                            querybuf := drop (Suc n) b, cargv := argv\<rparr>))))
         else if multibulklen c = 0 then
           (case crlf_line b of
              None \<Rightarrow> if too_long b then Some (setProtocolError TooBigMbulkCount c) else None
            | Some (line, b) \<Rightarrow>
                (case string2ll (tl line) of
                   None \<Rightarrow> Some (setProtocolError InvalidMbulkCount c)
                 | Some ll \<Rightarrow>
                     if sint ll > 1024 * 1024 then Some (setProtocolError InvalidMbulkCount c)
                     else if sint ll \<le> 0 then Some (fst (complete_request env (c\<lparr>querybuf := b\<rparr>)))
                     else Some (c\<lparr>querybuf := b, multibulklen := nat (sint ll)\<rparr>)))
         else
           (case bulklen c of
              None \<Rightarrow>
                (case crlf_line b of
                   None \<Rightarrow> if too_long b then Some (setProtocolError TooBigBulkCount c) else None
                 | Some (line, b') \<Rightarrow>
                     if hd b \<noteq> 36 then Some (setProtocolError (ExpectedDollar (hd b)) c)
                     else
                       (case string2ll (tl line) of
                          None \<Rightarrow> Some (setProtocolError InvalidBulkLength c)
                        | Some ll \<Rightarrow>
                            if sint ll < 0 \<or> sint ll > int (proto_max_bulk_len env)
                            then Some (setProtocolError InvalidBulkLength c)
                            else Some (c\<lparr>querybuf := b', bulklen := Some (nat (sint ll))\<rparr>)))
            | Some len \<Rightarrow>
                if length b < len + 2 then None
                else
                  let c = c\<lparr>querybuf := drop (len + 2) b, cargv := cargv c @ [take len b],
                            bulklen := None, multibulklen := multibulklen c - 1\<rparr>
                  in Some (if multibulklen c = 0 then fst (complete_request env c) else c)))"

text \<open>Runs to the normal form.\<close>

inductive rruns :: "server_env \<Rightarrow> rclient \<Rightarrow> rclient \<Rightarrow> bool" for env where
  stop: "rstep env c = None \<Longrightarrow> rruns env c c"
| step: "\<lbrakk>rstep env c = Some c1; rruns env c1 c2\<rbrakk> \<Longrightarrow> rruns env c c2"

inductive_cases rrunsE: "rruns env c e"

lemma rruns_deterministic: "\<lbrakk>rruns env c d; rruns env c e\<rbrakk> \<Longrightarrow> d = e"
proof (induction arbitrary: e rule: rruns.induct)
  case (stop c)
  from stop.prems show ?case by (rule rrunsE) (simp_all add: stop.hyps)
next
  case (step c c1 c2)
  from step.prems show ?case
  proof (rule rrunsE)
    fix c1' assume "rstep env c = Some c1'" "rruns env c1' e"
    then show ?thesis using step.hyps(1) step.IH by simp
  qed (simp add: step.hyps(1))
qed

section \<open>The invariant of a client between two calls\<close>

text \<open>What the code relies on in \<open>processCommand\<close>: a client stays what it is, the master or not,
  and an error return leaves a client that is to be closed (QUIT).\<close>

definition env_ok :: "server_env \<Rightarrow> bool" where
  "env_ok env \<longleftrightarrow>
     (\<forall>h argv fl st cls fl'. process_command env h argv fl = (st, cls, fl') \<longrightarrow>
        f_master fl' = f_master fl \<and> (st = CmdErr \<longrightarrow> f_close_after_reply fl' \<or> f_close_asap fl'))"

definition held :: "cflags \<Rightarrow> bool" where
  "held fl \<longleftrightarrow> f_blocked fl \<or> f_pending_command fl \<or> f_close_after_reply fl \<or> f_close_asap fl"

definition request_ok :: "rclient \<Rightarrow> bool" where
  "request_ok c \<longleftrightarrow>
     (case reqtype c of
        NoType \<Rightarrow> multibulklen c = 0 \<and> bulklen c = None \<and> cargv c = []
      | Inline \<Rightarrow> multibulklen c = 0 \<and> bulklen c = None
      | Multibulk \<Rightarrow>
          if multibulklen c = 0 then bulklen c = None \<and> cargv c = [] \<and> rest c \<noteq> [] \<and> hd (rest c) = 42
          else True)"

text \<open>The stream of a master: what was received and not yet applied is pending.\<close>

definition stream_ok :: "rclient \<Rightarrow> bool" where
  "stream_ok c \<longleftrightarrow>
     (f_master (cflags c) \<longrightarrow>
        int (length (pending_querybuf c)) = read_reploff c - reploff c \<and>
        reploff c \<le> read_reploff c - int (unread c))"

definition client_ok :: "rclient \<Rightarrow> bool" where
  "client_ok c \<longleftrightarrow> qb_pos c \<le> length (querybuf c) \<and> (held (cflags c) \<or> request_ok c) \<and>
     (freed c \<or> stream_ok c) \<and> (freed c \<longrightarrow> querybuf c = [])"

text \<open>The unread bytes of a client, as the reference machine sees them.\<close>

definition view :: "rclient \<Rightarrow> rclient" where
  "view c = c\<lparr>querybuf := rest c, qb_pos := 0\<rparr>"

lemma view_simps [simp]:
  "querybuf (view c) = rest c" "qb_pos (view c) = 0" "reqtype (view c) = reqtype c"
  "multibulklen (view c) = multibulklen c" "bulklen (view c) = bulklen c" "cargv (view c) = cargv c"
  "cflags (view c) = cflags c" "executed (view c) = executed c" "rest (view c) = rest c"
  "repl_ack_time (view c) = repl_ack_time c" "freed (view c) = freed c"
  "stopped env (view c) = stopped env c" "ccmd (view c) = ccmd c" "unread (view c) = unread c"
  "reploff (view c) = reploff c" "read_reploff (view c) = read_reploff c"
  "pending_querybuf (view c) = pending_querybuf c" "replicated (view c) = replicated c"
  "protocol_errors (view c) = protocol_errors c"
  by (simp_all add: view_def rest_def stopped_def unread_def)

lemma request_ok_view [simp]: "request_ok (view c) = request_ok c"
  by (simp add: request_ok_def split: reqtype.split)

lemma view_update [simp]:
  "view (c\<lparr>cflags := fl\<rparr>) = (view c)\<lparr>cflags := fl\<rparr>"
  "view (c\<lparr>reploff := x\<rparr>) = (view c)\<lparr>reploff := x\<rparr>"
  "view (c\<lparr>replicated := r\<rparr>) = (view c)\<lparr>replicated := r\<rparr>"
  "view (c\<lparr>pending_querybuf := q\<rparr>) = (view c)\<lparr>pending_querybuf := q\<rparr>"
  "view (c\<lparr>executed := e\<rparr>) = (view c)\<lparr>executed := e\<rparr>"
  "view (c\<lparr>ccmd := k\<rparr>) = (view c)\<lparr>ccmd := k\<rparr>"
  "view (c\<lparr>reqtype := r'\<rparr>) = (view c)\<lparr>reqtype := r'\<rparr>"
  "view (c\<lparr>repl_ack_time := n\<rparr>) = (view c)\<lparr>repl_ack_time := n\<rparr>"
  "view (c\<lparr>cargv := a\<rparr>) = (view c)\<lparr>cargv := a\<rparr>"
  "view (c\<lparr>multibulklen := n\<rparr>) = (view c)\<lparr>multibulklen := n\<rparr>"
  "view (c\<lparr>bulklen := l\<rparr>) = (view c)\<lparr>bulklen := l\<rparr>"
  "view (c\<lparr>protocol_errors := ee\<rparr>) = (view c)\<lparr>protocol_errors := ee\<rparr>"
  by (simp_all add: view_def rest_def)

lemma view_id: "qb_pos c = 0 \<Longrightarrow> view c = c"
  by (simp add: view_def rest_def)

lemma view_updates [simp]:
  "view (setProtocolError e c) = setProtocolError e (view c)"
  "view (resetClient c) = resetClient (view c)"
  "view (freeClient c) = freeClient (view c)"
proof -
  show "view (setProtocolError e c) = setProtocolError e (view c)"
    by (simp add: setProtocolError_def)
  show "view (resetClient c) = resetClient (view c)"
    by (simp add: resetClient_def Let_def)
  show "view (freeClient c) = freeClient (view c)"
    by (simp add: freeClient_def view_def rest_def)
qed

lemma view_pass_on [simp]: "view (pass_on n c) = pass_on n (view c)"
  by (simp add: pass_on_def Let_def)

text \<open>The offset of a master is that of the first unread byte.\<close>

lemma view_commandProcessed:
  assumes "qb_pos c \<le> length (querybuf c)"
  shows "view (commandProcessed c) = commandProcessed (view c)"
proof -
  have "read_position (view c) = read_position c"
    using assms by (simp add: read_position_def rest_def)
  then show ?thesis by (auto simp: commandProcessed_def Let_def)
qed

lemma view_processCommand:
  assumes "qb_pos c \<le> length (querybuf c)"
  shows "processCommandAndResetClient env (view c) = apfst view (processCommandAndResetClient env c)"
proof -
  obtain st cls fl where p: "process_command env (executed c) (cargv c) (cflags c) = (st, cls, fl)"
    by (cases "process_command env (executed c) (cargv c) (cflags c)") auto
  let ?c = "c\<lparr>executed := executed c @ [cargv c], ccmd := cls, cflags := fl\<rparr>"
  have "view (commandProcessed ?c) = commandProcessed (view ?c)"
    using assms by (intro view_commandProcessed) simp
  then show ?thesis
    by (cases st) (simp_all add: processCommandAndResetClient_def p)
qed

lemma view_complete_request:
  assumes "qb_pos c \<le> length (querybuf c)"
  shows "complete_request env (view c) = apfst view (complete_request env c)"
proof -
  have "view (gopher_request c) = gopher_request (view c)"
    by (simp add: gopher_request_def Let_def view_def rest_def resetClient_def)
  moreover have "is_gopher env (view c) = is_gopher env c" by (simp add: is_gopher_def)
  ultimately show ?thesis
    by (cases "processCommandAndResetClient env c")
      (simp add: complete_request_def view_processCommand [OF assms])
qed

section \<open>The code takes the steps of the machine\<close>

lemma held_stopped: "held (cflags c) \<Longrightarrow> stopped env c"
  by (auto simp: held_def stopped_def)

lemma held_error [simp]: "held (cflags (setProtocolError e c))"
  by (simp add: held_def setProtocolError_def)

lemma rruns_held: "held (cflags c) \<Longrightarrow> rruns env c c"
  by (rule rruns.stop) (simp add: rstep_def held_stopped Let_def)

text \<open>A part of the code that returns \<open>False\<close>: it waits for more bytes or reports an error.\<close>

definition waits :: "server_env \<Rightarrow> rclient \<Rightarrow> rclient \<Rightarrow> bool" where
  "waits env c c' \<longleftrightarrow>
     rstep env (view c) = None \<and> c' = c \<or>
     (\<exists>e. rstep env (view c) = Some (view c') \<and> c' = setProtocolError e c)"

lemma waits_runs:
  assumes "waits env c c'"
  shows "rruns env (view c) (view c')"
  using assms
  unfolding waits_def
proof (elim disjE exE conjE)
  assume "rstep env (view c) = None" "c' = c"
  then show ?thesis by (simp add: rruns.stop)
next
  fix e assume e: "rstep env (view c) = Some (view c')" "c' = setProtocolError e c"
  have "held (cflags (view c'))" by (simp only: e(2) view_simps held_error)
  with e(1) show ?thesis by (rule rruns.step [OF _ rruns_held])
qed

lemma tl_take: "tl (take n b) = take (n - 1) (drop 1 b)"
  by (cases b; cases n) simp_all

lemma inline_step:
  assumes "rest c \<noteq> []" "\<not> stopped env c" "reqtype c = Inline"
    and p: "processInlineBuffer env c = (c', ok)"
  shows "if ok then rstep env (view c) = Some (fst (complete_request env (view c')))
    else waits env c c'"
proof (cases "strchr 10 (rest c)")
  case None
  then show ?thesis
    using assms by (auto simp: processInlineBuffer_def rstep_def waits_def Let_def)
next
  case (Some n)
  have n: "n < length (rest c)" using strchr_Some [OF Some] by simp
  obtain q l where ql: "line_end n (rest c) = (q, l)" by fastforce
  have line: "inline_line n (rest c) = take q (rest c)"
    using ql by (auto simp: inline_line_def line_end_def split: if_splits)
  have q: "q + l = Suc n" "(take q (rest c) = []) = (q = 0)"
    using n ql by (auto simp: line_end_def split: if_splits)
  show ?thesis
  proof (cases "sdssplitargs (take q (rest c))")
    case None
    then show ?thesis
      using assms Some
      by (auto simp: waits_def rstep_def line processInlineBuffer_def ql Let_def)
  next
    case args: (Some argv)
    define ack where "ack = (if q = 0 \<and> getClientType (cflags c) = ClientSlave then unixtime env else repl_ack_time c)"
    have pos: "qb_pos c + q + l = qb_pos c + Suc n" using q(1) by simp
    have "c' = c\<lparr>repl_ack_time := ack, qb_pos := qb_pos c + q + l, cargv := argv\<rparr>" "ok"
      using p Some args
      by (auto simp: processInlineBuffer_def ql ack_def Let_def)
    then have c': "view c' = (view c)\<lparr>repl_ack_time := ack, querybuf := drop (Suc n) (rest c), cargv := argv\<rparr>"
      and ok: ok
      unfolding pos by (simp_all add: view_def rest_def add.commute)
    have "rstep env (view c) = Some (fst (complete_request env ((view c)
        \<lparr>repl_ack_time := ack, querybuf := drop (Suc n) (rest c), cargv := argv\<rparr>)))"
      using assms(1-3) Some args by (simp add: rstep_def line ack_def q(2) Let_def del: take_eq_Nil)
    then show ?thesis using ok c' by simp
  qed
qed

text \<open>A header line, in the code and in the machine.\<close>

lemma crlf_line_None:
  "strchr 13 b = None \<Longrightarrow> crlf_line b = None \<and> too_long b = (length b > PROTO_INLINE_MAX_SIZE)"
  "\<lbrakk>strchr 13 b = Some n; int n > int (length b) - 2\<rbrakk> \<Longrightarrow> crlf_line b = None \<and> \<not> too_long b"
  by (auto simp: crlf_line_def too_long_def)

lemma crlf_line_Some:
  "\<lbrakk>strchr 13 b = Some n; \<not> int n > int (length b) - 2\<rbrakk> \<Longrightarrow>
     crlf_line b = Some (take n b, drop (n + 2) b) \<and> b \<noteq> [] \<and> b ! 0 = hd b"
  by (cases b) (auto simp: crlf_line_def)

lemma view_cut: "view (cut_buffer n c) = view c"
  by (simp add: cut_buffer_def view_def rest_def sdsrange_tail)

lemma bulk_length_step:
  assumes "\<not> stopped env c" "reqtype c = Multibulk" "multibulklen c \<noteq> 0" "bulklen c = None"
  shows "case bulk_length env c of
      Inl c' \<Rightarrow> waits env c c'
    | Inr c' \<Rightarrow> rstep env (view c) = Some (view c') \<and> bulklen c' \<noteq> None"
proof (cases "strchr 13 (rest c)")
  case None
  then show ?thesis
    using assms crlf_line_None(1) [OF None]
    by (auto simp: bulk_length_def rstep_def waits_def Let_def)
next
  case (Some n)
  show ?thesis
  proof (cases "int n > int (length (rest c)) - 2")
    case True
    then show ?thesis
      using assms crlf_line_None(2) [OF Some True] Some
      by (auto simp: bulk_length_def rstep_def waits_def Let_def)
  next
    case False
    note l = crlf_line_Some [OF Some False]
    show ?thesis
    proof (cases "hd (rest c) = 36")
      case dollar: True
      show ?thesis
      proof (cases "string2ll (take (n - 1) (drop 1 (rest c)))")
        case None
        then show ?thesis using assms l False dollar Some
          by (auto simp: bulk_length_def rstep_def waits_def Let_def tl_take)
      next
        case (Some ll)
        define c2 where "c2 = cut_buffer (nat (sint ll)) (c\<lparr>qb_pos := qb_pos c + n + 2\<rparr>)"
        have v: "view c2 = (view c)\<lparr>querybuf := drop (n + 2) (rest c)\<rparr>"
          unfolding c2_def view_cut by (simp add: view_def rest_def add_ac)
        have bl: "bulk_length env c =
            (if sint ll < 0 \<or> sint ll > int (proto_max_bulk_len env) then Inl (setProtocolError InvalidBulkLength c)
             else Inr (c2\<lparr>bulklen := Some (nat (sint ll))\<rparr>))"
          using assms l False dollar \<open>strchr 13 (rest c) = Some n\<close> Some
          by (simp add: bulk_length_def c2_def Let_def)
        have st: "rstep env (view c) =
            (if sint ll < 0 \<or> sint ll > int (proto_max_bulk_len env)
             then Some (setProtocolError InvalidBulkLength (view c))
             else Some ((view c2)\<lparr>bulklen := Some (nat (sint ll))\<rparr>))"
          using assms l dollar Some by (simp add: rstep_def v tl_take)
        show ?thesis unfolding bl st by (auto simp: waits_def st)
      qed
    next
      case False
      then show ?thesis
        using assms l \<open>\<not> int n > _\<close> Some by (auto simp: bulk_length_def rstep_def waits_def Let_def)
    qed
  qed
qed

text \<open>Parsing changes the position and the request, and nothing else.\<close>

definition parsed :: "rclient \<Rightarrow> rclient \<Rightarrow> bool" where
  "parsed c c' \<longleftrightarrow> cflags c' = cflags c \<and> executed c' = executed c \<and> reqtype c' = reqtype c \<and>
     freed c' = freed c \<and> reploff c' = reploff c \<and> read_reploff c' = read_reploff c \<and>
     pending_querybuf c' = pending_querybuf c \<and> protocol_errors c' = protocol_errors c \<and>
     (qb_pos c \<le> length (querybuf c) \<longrightarrow> qb_pos c' \<le> length (querybuf c')) \<and> unread c' \<le> unread c"

lemma parsed_refl [simp]: "parsed c c"
  by (simp add: parsed_def)

lemma parsed_trans: "\<lbrakk>parsed c c1; parsed c1 c2\<rbrakk> \<Longrightarrow> parsed c c2"
  by (simp add: parsed_def)

lemma parsed_stopped: "parsed c c' \<Longrightarrow> stopped env c' = stopped env c"
  by (simp add: parsed_def stopped_def)

lemma parsed_reqtype: "parsed c c' \<Longrightarrow> reqtype c' = reqtype c"
  by (simp add: parsed_def)

lemma strchr_pos:
  assumes "strchr x (rest c) = Some n"
  shows "n < length (querybuf c) - qb_pos c" "qb_pos c + n < length (querybuf c)"
  using strchr_Some [OF assms] by (simp_all add: rest_def less_diff_conv)

lemma cut_buffer_parsed: "parsed c (cut_buffer n c)"
  by (auto simp: parsed_def cut_buffer_def sdsrange_tail unread_def)

lemma bulk_length_parsed:
  assumes "bulk_length env c = Inr c'"
  shows "parsed c c' \<and> multibulklen c' = multibulklen c"
proof (cases "bulklen c = None")
  case True
  then obtain n where n: "strchr 13 (rest c) = Some n" "\<not> int n > int (length (rest c)) - 2"
    using assms by (auto simp: bulk_length_def Let_def split: option.splits if_splits)
  define c1 where "c1 = c\<lparr>qb_pos := qb_pos c + n + 2\<rparr>"
  obtain k where k: "c' = (cut_buffer k c1)\<lparr>bulklen := Some k\<rparr>"
    using assms n True by (auto simp: bulk_length_def c1_def Let_def split: option.splits if_splits)
  have "parsed c c1" using n(2) by (auto simp: c1_def parsed_def unread_def rest_def)
  moreover have "parsed c1 c'" using cut_buffer_parsed [of c1 k] k by (simp add: parsed_def unread_def)
  ultimately show ?thesis using parsed_trans k by (auto simp: c1_def)
qed (use assms in \<open>simp add: bulk_length_def\<close>)

lemma bulk_argument_parsed:
  "bulk_argument len c = Some c' \<Longrightarrow> parsed c c' \<and> multibulklen c' = multibulklen c - 1 \<and> cargv c' \<noteq> []"
  by (auto simp: bulk_argument_def parsed_def unread_def Let_def split: if_splits)

lemma bulk_argument_step:
  assumes "\<not> stopped env c" "reqtype c = Multibulk" "multibulklen c \<noteq> 0" "bulklen c = Some len"
  shows "case bulk_argument len c of
      None \<Rightarrow> rstep env (view c) = None
    | Some c' \<Rightarrow> rstep env (view c) =
        Some (if multibulklen c' = 0 then fst (complete_request env (view c')) else view c')"
proof (cases "length (rest c) < len + 2")
  case True
  then show ?thesis using assms by (auto simp: bulk_argument_def rstep_def rest_def Let_def)
next
  case False
  then obtain c' where c': "bulk_argument len c = Some c'"
    by (auto simp: bulk_argument_def rest_def Let_def)
  then have v: "view c' = (view c)\<lparr>querybuf := drop (len + 2) (rest c), cargv := cargv c @ [take len (rest c)],
      bulklen := None, multibulklen := multibulklen c - 1\<rparr>"
    using False by (auto simp: bulk_argument_def view_def rest_def Let_def add_ac split: if_splits)
  then have "multibulklen c' = multibulklen c - 1"
    using view_simps(4) [of c'] by simp
  with False assms c' v show ?thesis by (auto simp: rstep_def Let_def)
qed

text \<open>
  A part of the code that parses: with \<open>True\<close> the request is complete, with \<open>False\<close> the machine
  has reached its normal form.
\<close>

definition parses :: "server_env \<Rightarrow> rclient \<Rightarrow> rclient \<times> bool \<Rightarrow> bool" where
  "parses env c r \<longleftrightarrow>
     (case r of (c', ok) \<Rightarrow>
        if ok then parsed c c' \<and>
          (\<forall>d. rruns env (fst (complete_request env (view c'))) d \<longrightarrow> rruns env (view c) d)
        else rruns env (view c) (view c') \<and>
          (\<exists>c1. parsed c c1 \<and> (c' = c1 \<and> request_ok c1 \<or> (\<exists>e. c' = setProtocolError e c1))))"

lemma parses_step:
  assumes "rstep env (view c) = Some (view c1)" "parsed c c1" "parses env c1 r"
  shows "parses env c r"
proof -
  obtain c' ok where r: "r = (c', ok)" by fastforce
  have "rruns env (view c) d" if "rruns env (view c1) d" for d
    using assms(1) that by (rule rruns.step)
  then show ?thesis
    using assms(2,3) r parsed_trans by (auto simp: parses_def split: if_splits)
qed

lemma parses_waits: "\<lbrakk>waits env c c'; request_ok c\<rbrakk> \<Longrightarrow> parses env c (c', False)"
  using waits_runs by (auto simp: parses_def waits_def intro: parsed_refl)

lemma bulk_loop_parses:
  "\<lbrakk>\<not> stopped env c; reqtype c = Multibulk; multibulklen c \<noteq> 0\<rbrakk> \<Longrightarrow> parses env c (bulk_loop env c)"
proof (induction env c rule: bulk_loop.induct)
  case (1 env c)
  note c = "1.prems"
  have ok: "request_ok c" using c by (simp add: request_ok_def)
  show ?case
  proof (cases "bulk_length env c")
    case (Inl c')
    then have "bulklen c = None" by (auto simp: bulk_length_def split: if_splits)
    from bulk_length_step [OF c(1,2,3) this] Inl have "waits env c c'" by simp
    then show ?thesis using parses_waits [OF _ ok] Inl c(3) by (simp add: bulk_loop.simps [of env c])
  next
    case (Inr c1)
    note p1 = bulk_length_parsed [OF Inr]
    have b1: "bulklen c1 \<noteq> None \<and> (c1 = c \<or> rstep env (view c) = Some (view c1))"
      using bulk_length_step [OF c(1,2,3)] Inr
      by (cases "bulklen c") (auto simp: bulk_length_def)
    then obtain len where len: "bulklen c1 = Some len" by auto
    have c1: "\<not> stopped env c1" "reqtype c1 = Multibulk" "multibulklen c1 \<noteq> 0"
      using p1 c by (simp_all add: parsed_stopped [of c c1] parsed_reqtype [of c c1])
    note s = bulk_argument_step [OF c1 len]
    have "parses env c1 (case bulk_argument len c1 of None \<Rightarrow> (c1, False) | Some d \<Rightarrow> bulk_loop env d)"
    proof (cases "bulk_argument len c1")
      case None
      then have "waits env c1 c1" using s by (simp add: waits_def)
      then show ?thesis using None parses_waits c1 by (simp add: request_ok_def)
    next
      case (Some d)
      note p2 = bulk_argument_parsed [OF Some]
      show ?thesis
      proof (cases "multibulklen d = 0")
        case True
        then have "bulk_loop env d = (d, True)" by (simp add: bulk_loop.simps)
        then show ?thesis using s Some True p2 rruns.step by (simp add: parses_def)
      next
        case False
        have "\<not> stopped env d" "reqtype d = Multibulk"
          using p2 c1 by (simp_all add: parsed_stopped [of c1 d] parsed_reqtype [of c1 d])
        then have "parses env d (bulk_loop env d)"
          using "1.IH" [OF c(3) Inr _ _ _ False] Some len by simp
        then show ?thesis using parses_step [of env c1 d] s Some False p2 by simp
      qed
    qed
    then have "parses env c1 (bulk_loop env c)"
      using c(3) Inr len by (simp add: bulk_loop.simps [of env c])
    then show ?thesis using b1 p1 parses_step by blast
  qed
qed

lemma mbulk_count_parses:
  assumes "\<not> stopped env c" "reqtype c = Multibulk" "request_ok c" "multibulklen c = 0"
  shows "case mbulk_count c of
      None \<Rightarrow> False
    | Some (Inl r) \<Rightarrow> parses env c r
    | Some (Inr c') \<Rightarrow> parsed c c' \<and> rstep env (view c) = Some (view c') \<and> multibulklen c' \<noteq> 0"
proof -
  have ok: "bulklen c = None" "cargv c = []" "rest c \<noteq> []" "hd (rest c) = 42" "rest c ! 0 = 42"
    using assms(2-4) by (auto simp: request_ok_def hd_conv_nth)
  show ?thesis
  proof (cases "strchr 13 (rest c)")
    case None
    have "waits env c (if length (rest c) > PROTO_INLINE_MAX_SIZE then setProtocolError TooBigMbulkCount c else c)"
      using assms ok crlf_line_None(1) [OF None] by (auto simp: rstep_def waits_def Let_def)
    then show ?thesis using assms(3,4) ok None parses_waits by (simp add: mbulk_count_def Let_def)
  next
    case (Some n)
    show ?thesis
    proof (cases "int n > int (length (rest c)) - 2")
      case True
      have "waits env c c"
        using assms ok crlf_line_None(2) [OF Some True] by (auto simp: rstep_def waits_def Let_def)
      then show ?thesis using assms(3,4) ok Some True parses_waits by (simp add: mbulk_count_def Let_def)
    next
      case False
      note l = crlf_line_Some [OF Some False]
      define c1 where "c1 = c\<lparr>qb_pos := qb_pos c + n + 2\<rparr>"
      have v: "view c1 = (view c)\<lparr>querybuf := drop (n + 2) (rest c)\<rparr>"
        by (simp add: c1_def view_def rest_def add_ac)
      have p1: "parsed c c1"
        using False by (auto simp: c1_def parsed_def unread_def rest_def)
      show ?thesis
      proof (cases "string2ll (take (n - 1) (drop 1 (rest c)))")
        case None
        have "waits env c (setProtocolError InvalidMbulkCount c)"
          using assms ok l None by (auto simp: rstep_def waits_def tl_take Let_def)
        then show ?thesis
          using assms(3,4) ok Some False None parses_waits by (simp add: mbulk_count_def Let_def)
      next
        case ll: (Some ll)
        have m: "mbulk_count c =
            (if sint ll > 1024 * 1024 then Some (Inl (setProtocolError InvalidMbulkCount c, False))
             else if sint ll \<le> 0 then Some (Inl (c1, True))
             else Some (Inr (c1\<lparr>multibulklen := nat (sint ll)\<rparr>)))"
          using assms(4) ok Some False ll by (simp add: mbulk_count_def c1_def Let_def)
        have st: "rstep env (view c) =
            (if sint ll > 1024 * 1024 then Some (setProtocolError InvalidMbulkCount (view c))
             else if sint ll \<le> 0 then Some (fst (complete_request env (view c1)))
             else Some ((view c1)\<lparr>multibulklen := nat (sint ll)\<rparr>))"
          using assms ok l ll by (simp add: rstep_def v tl_take)
        have "waits env c (setProtocolError InvalidMbulkCount c)" if "sint ll > 1024 * 1024"
          using that st by (auto simp: waits_def)
        moreover have "parses env c (c1, True)" if "\<not> sint ll > 1024 * 1024" "sint ll \<le> 0"
          using that st p1 rruns.step by (simp add: parses_def)
        moreover have "parsed c (c1\<lparr>multibulklen := n\<rparr>)" for n
          using p1 by (simp add: parsed_def unread_def)
        ultimately show ?thesis
          using m st parses_waits [OF _ assms(3)] by auto
      qed
    qed
  qed
qed

lemma read_request_parses:
  assumes "\<not> stopped env c" "rest c \<noteq> []" "request_ok c" "reqtype c \<noteq> NoType"
  shows "\<exists>r. read_request env c = Some r \<and> parses env c r"
proof (cases "reqtype c = Inline")
  case True
  obtain c' ok where r: "processInlineBuffer env c = (c', ok)" by fastforce
  note s = inline_step [OF assms(2,1) True r]
  have "parses env c (c', ok)"
  proof (cases ok)
    case True
    have "parsed c c'"
      using r True by (auto simp: processInlineBuffer_def line_end_def parsed_def unread_def Let_def
          dest!: strchr_pos split: option.splits if_splits)
    then show ?thesis using s True rruns.step by (simp add: parses_def)
  next
    case False
    then show ?thesis using s assms(3) parses_waits by simp
  qed
  with True r show ?thesis by (simp add: read_request_def)
next
  case False
  then have m: "reqtype c = Multibulk" using assms(4) by (cases "reqtype c") simp_all
  have "\<exists>r. processMultibulkBuffer env c = Some r \<and> parses env c r"
  proof (cases "multibulklen c = 0")
    case True
    note s = mbulk_count_parses [OF assms(1) m assms(3) True]
    show ?thesis
    proof (cases "mbulk_count c")
      case None
      then show ?thesis using s by simp
    next
      case (Some x)
      show ?thesis
      proof (cases x)
        case (Inl r)
        then show ?thesis using s Some by (simp add: processMultibulkBuffer_def)
      next
        case (Inr c1)
        then have c1: "parsed c c1" "rstep env (view c) = Some (view c1)" "multibulklen c1 \<noteq> 0"
          using s Some by simp_all
        have "\<not> stopped env c1" "reqtype c1 = Multibulk"
          using c1(1) assms(1) m by (simp_all add: parsed_stopped [of c c1] parsed_reqtype [of c c1])
        then have "parses env c1 (bulk_loop env c1)" using c1(3) by (rule bulk_loop_parses)
        then have "parses env c (bulk_loop env c1)" by (rule parses_step [OF c1(2,1)])
        then show ?thesis using Some Inr by (simp add: processMultibulkBuffer_def)
      qed
    qed
  next
    case False
    then have "mbulk_count c = Some (Inr c)" by (simp add: mbulk_count_def)
    then show ?thesis
      using bulk_loop_parses [OF assms(1) m False] by (simp add: processMultibulkBuffer_def)
  qed
  with False show ?thesis by (simp add: read_request_def)
qed

section \<open>The invariant is preserved\<close>

lemma reset_flags_simps [simp]:
  "f_master (reset_flags k fl) = f_master fl" "f_blocked (reset_flags k fl) = f_blocked fl"
  "f_pending_command (reset_flags k fl) = f_pending_command fl"
  "f_pending_read (reset_flags k fl) = f_pending_read fl"
  "f_close_after_reply (reset_flags k fl) = f_close_after_reply fl"
  "f_close_asap (reset_flags k fl) = f_close_asap fl" "f_slave (reset_flags k fl) = f_slave fl"
  by (simp_all add: reset_flags_def Let_def)

lemma unread_update [simp]:
  "unread (resetClient c) = unread c" "unread (c\<lparr>reploff := x\<rparr>) = unread c"
  "unread (c\<lparr>executed := e\<rparr>) = unread c" "unread (c\<lparr>cflags := fl\<rparr>) = unread c"
  "unread (c\<lparr>ccmd := k\<rparr>) = unread c" "unread (c\<lparr>replicated := r, pending_querybuf := q\<rparr>) = unread c"
  by (simp_all add: unread_def)

lemma stream_ok_reset [simp]: "stream_ok (resetClient c) = stream_ok c"
  by (simp add: stream_ok_def)

lemma request_ok_reset [simp]: "request_ok (resetClient c)"
  by (simp add: request_ok_def)

lemma pass_on_simps [simp]:
  "cflags (pass_on n c) = cflags c" "querybuf (pass_on n c) = querybuf c" "qb_pos (pass_on n c) = qb_pos c"
  "reploff (pass_on n c) = reploff c" "read_reploff (pass_on n c) = read_reploff c" "freed (pass_on n c) = freed c"
  "unread (pass_on n c) = unread c" "request_ok (pass_on n c) = request_ok c"
  "executed (pass_on n c) = executed c" "protocol_errors (pass_on n c) = protocol_errors c"
  "rest (pass_on n c) = rest c"
proof -
  have r: "reqtype (pass_on n c) = reqtype c" "multibulklen (pass_on n c) = multibulklen c"
    "bulklen (pass_on n c) = bulklen c" "cargv (pass_on n c) = cargv c" "rest (pass_on n c) = rest c"
    by (simp_all add: pass_on_def Let_def rest_def)
  then show "request_ok (pass_on n c) = request_ok c" "rest (pass_on n c) = rest c"
    by (simp_all add: request_ok_def split: reqtype.split)
qed (simp_all add: pass_on_def Let_def unread_def)

text \<open>Passing on what has been applied leaves exactly the rest pending.\<close>

lemma stream_ok_pass_on:
  assumes s: "stream_ok c" and x: "x = reploff c \<or> x = read_reploff c - int (unread c)"
  shows "stream_ok (pass_on (reploff c) (c\<lparr>reploff := x\<rparr>))"
proof (cases "f_master (cflags c)")
  case True
  then have p: "int (length (pending_querybuf c)) = read_reploff c - reploff c"
    "reploff c \<le> read_reploff c - int (unread c)" using s by (simp_all add: stream_ok_def)
  then have b: "0 \<le> x - reploff c" "x \<le> read_reploff c - int (unread c)" using x by auto
  have "pending_querybuf (pass_on (reploff c) (c\<lparr>reploff := x\<rparr>)) = drop (nat (x - reploff c)) (pending_querybuf c)"
    using b True by (auto simp: pass_on_def sdsrange_tail Let_def)
  then show ?thesis using p b True by (auto simp: stream_ok_def)
qed (simp add: stream_ok_def)

lemma commandProcessed_ok:
  assumes "stream_ok c" "qb_pos c \<le> length (querybuf c)"
  shows "stream_ok (commandProcessed c)" "held (cflags (commandProcessed c)) \<or> request_ok (commandProcessed c)"
proof -
  have pos: "read_position c = read_reploff c - int (unread c)"
    using assms(2) by (simp add: read_position_def unread_def of_nat_diff)
  define x where "x = (if f_master (cflags c) \<and> \<not> f_multi (cflags c) then read_position c else reploff c)"
  define b where "b \<longleftrightarrow> \<not> f_blocked (cflags c) \<or> \<not> f_blocked_module (cflags c)"
  have eq: "commandProcessed c = (let d = c\<lparr>reploff := x\<rparr> in pass_on (reploff c) (if b then resetClient d else d))"
    by (simp add: commandProcessed_def x_def b_def Let_def)
  have "stream_ok (pass_on (reploff c) (c\<lparr>reploff := x\<rparr>))"
    using stream_ok_pass_on [OF assms(1)] pos by (simp add: x_def)
  moreover have "stream_ok (pass_on n (resetClient d)) = stream_ok (pass_on n d)" for n d
    by (simp add: stream_ok_def) (simp add: pass_on_def Let_def)
  ultimately show "stream_ok (commandProcessed c)" by (simp add: eq Let_def)
  show "held (cflags (commandProcessed c)) \<or> request_ok (commandProcessed c)"
    by (simp add: eq Let_def b_def held_def)
qed

lemma freeClient_ok [simp]: "client_ok (freeClient c)" "freed (freeClient c)"
  by (simp_all add: client_ok_def request_ok_def freeClient_def)

lemma processCommand_ok:
  assumes env: "env_ok env" and pos: "qb_pos c \<le> length (querybuf c)" and s: "stream_ok c" and f: "\<not> freed c"
    and p: "processCommandAndResetClient env c = (d, dead)"
  shows "client_ok d" "freed d = dead"
proof -
  obtain st cls fl where pc: "process_command env (executed c) (cargv c) (cflags c) = (st, cls, fl)"
    by (cases "process_command env (executed c) (cargv c) (cflags c)") auto
  define e where "e = c\<lparr>executed := executed c @ [cargv c], ccmd := cls, cflags := fl\<rparr>"
  have fl: "f_master fl = f_master (cflags c)" "st = CmdErr \<Longrightarrow> f_close_after_reply fl \<or> f_close_asap fl"
    using env pc unfolding env_ok_def by blast+
  have e: "stream_ok e" "qb_pos e \<le> length (querybuf e)" "\<not> freed e"
    using s pos f fl(1) by (simp_all add: e_def stream_ok_def)
  have d: "(d, dead) = (case st of CmdOk \<Rightarrow> (commandProcessed e, False) | CmdErr \<Rightarrow> (e, False)
      | CmdFreed \<Rightarrow> (freeClient e, True))"
    unfolding e_def using p pc by (cases st) (simp_all add: processCommandAndResetClient_def)
  have fr: "freed (commandProcessed e) = freed e"
    by (simp add: commandProcessed_def Let_def)
  have "client_ok d \<and> freed d = dead"
  proof (cases st)
    case CmdOk
    then show ?thesis using d e fr commandProcessed_ok [OF e(1,2)] by (simp add: client_ok_def)
  next
    case CmdErr
    then have "held (cflags e)" using fl(2) by (auto simp: e_def held_def)
    then show ?thesis using CmdErr d e by (simp add: client_ok_def)
  next
    case CmdFreed
    then show ?thesis using d by simp
  qed
  then show "client_ok d" "freed d = dead" by blast+
qed

lemma complete_request_ok:
  assumes env: "env_ok env" and pos: "qb_pos c \<le> length (querybuf c)" and s: "stream_ok c" and f: "\<not> freed c"
    and p: "complete_request env c = (d, go)"
  shows "client_ok d" "go \<Longrightarrow> \<not> freed d" "\<not> go \<Longrightarrow> freed d \<or> held (cflags d)"
proof -
  have g: "stream_ok (gopher_request c)" "held (cflags (gopher_request c))" "freed (gopher_request c) = freed c"
    "qb_pos (gopher_request c) = qb_pos c" "querybuf (gopher_request c) = querybuf c"
    using s by (simp_all add: gopher_request_def stream_ok_def held_def Let_def unread_def)
  consider "is_gopher env c" "d = gopher_request c" "\<not> go"
    | "cargv c = []" "d = resetClient c" "go"
    | "d = c\<lparr>cflags := (cflags c)\<lparr>f_pending_command := True\<rparr>\<rparr>" "\<not> go"
    | "processCommandAndResetClient env c = (d, \<not> go)"
    using p by (auto simp: complete_request_def split: if_splits prod.splits)
  then have "client_ok d \<and> (go \<longrightarrow> \<not> freed d) \<and> (\<not> go \<longrightarrow> freed d \<or> held (cflags d))"
  proof cases
    case 1
    then show ?thesis using g f pos by (simp add: client_ok_def)
  next
    case 2
    then show ?thesis using s f pos by (simp add: client_ok_def)
  next
    case 3
    then show ?thesis using s f pos by (simp add: client_ok_def held_def stream_ok_def)
  next
    case 4
    then show ?thesis using processCommand_ok [OF env pos s f 4] by simp
  qed
  then show "client_ok d" "go \<Longrightarrow> \<not> freed d" "\<not> go \<Longrightarrow> freed d \<or> held (cflags d)" by blast+
qed

lemma parsed_stream: "\<lbrakk>parsed c c'; stream_ok c\<rbrakk> \<Longrightarrow> stream_ok c'"
  by (auto simp: parsed_def stream_ok_def)

lemma input_loop_runs:
  "\<lbrakk>env_ok env; client_ok c\<rbrakk> \<Longrightarrow> \<exists>c'. input_loop env c = Some c' \<and> rruns env (view c) (view c') \<and> client_ok c'"
proof (induction env c rule: input_loop.induct)
  case (1 env c)
  note env = "1.prems"(1) and ok = "1.prems"(2)
  show ?case
  proof (cases "\<not> qb_pos c < length (querybuf c) \<or> stopped env c")
    case True
    then have "rstep env (view c) = None" by (auto simp: rstep_def rest_def Let_def)
    then show ?thesis
      using True ok by (subst input_loop.simps) (simp add: rruns.stop)
  next
    case False
    define c1 where "c1 = request_type c"
    have c: "rest c \<noteq> []" "\<not> stopped env c" "\<not> freed c" "stream_ok c" "request_ok c"
      using False ok held_stopped [of c env] by (auto simp: client_ok_def rest_def)
    have hd: "querybuf c ! qb_pos c = hd (rest c)"
      using False by (simp add: rest_def hd_drop_conv_nth)
    have c1: "request_ok c1" "reqtype c1 \<noteq> NoType" "\<not> stopped env c1" "rest c1 = rest c" "\<not> freed c1" "stream_ok c1"
      using c hd
      by (auto simp: c1_def request_type_def request_ok_def stopped_def rest_def stream_ok_def unread_def
          split: reqtype.splits if_splits)
    have pos: "qb_pos c1 \<le> length (querybuf c1)" using False by (simp add: c1_def)
    have v: "view c1 = view c \<or> rstep env (view c) = Some (view c1)"
      using c hd by (auto simp: c1_def request_type_def rstep_def Let_def)
    obtain c2 b where r: "read_request env c1 = Some (c2, b)" "parses env c1 (c2, b)"
      using read_request_parses [OF c1(3) _ c1(1,2)] c c1(4) by fastforce
    show ?thesis
    proof (cases b)
      case b: False
      have "rruns env (view c1) (view c2)" using r(2) b by (simp add: parses_def)
      then have "rruns env (view c) (view c2)" using v rruns.step by metis
      moreover have "client_ok c2"
      proof -
        obtain d where d: "parsed c1 d" "c2 = d \<and> request_ok d \<or> (\<exists>e. c2 = setProtocolError e d)"
          using r(2) b by (auto simp: parses_def)
        have "stream_ok d" using parsed_stream d(1) c1(6) by blast
        moreover have "stream_ok (setProtocolError e d) = stream_ok d" for e
          by (simp add: stream_ok_def setProtocolError_def unread_def)
        moreover have "freed (setProtocolError e d) = freed d" for e by (simp add: setProtocolError_def)
        ultimately show ?thesis using d c1(5) pos by (auto simp: client_ok_def parsed_def)
      qed
      ultimately show ?thesis
        using False r(1) b by (subst input_loop.simps) (simp add: c1_def [symmetric])
    next
      case b: True
      have p2: "parsed c1 c2" and k: "\<And>d. rruns env (fst (complete_request env (view c2))) d \<Longrightarrow> rruns env (view c1) d"
        using r(2) b by (auto simp: parses_def)
      have c2: "qb_pos c2 \<le> length (querybuf c2)" "stream_ok c2" "\<not> freed c2"
        using p2 pos c1(5,6) parsed_stream by (auto simp: parsed_def)
      obtain d go where d: "complete_request env c2 = (d, go)" by fastforce
      note cr = complete_request_ok [OF env c2 d]
      have vd: "fst (complete_request env (view c2)) = view d"
        using view_complete_request [OF c2(1)] d by simp
      have k: "rruns env (view c) e" if "rruns env (view d) e" for e
        using k that v rruns.step vd by metis
      show ?thesis
      proof (cases go)
        case True
        have "\<exists>c'. input_loop env d = Some c' \<and> rruns env (view d) (view c') \<and> client_ok c'"
          by (rule "1.IH" [OF False r(1) [unfolded c1_def] refl _ d [symmetric] True env cr(1)])
            (simp add: b)
        then show ?thesis
          using False r(1) b d True k by (subst input_loop.simps) (auto simp: c1_def [symmetric])
      next
        case go: False
        have "rruns env (view d) (view d)"
        proof (cases "freed d")
          case True
          then have "rest d = []" using cr(1) by (simp add: client_ok_def rest_def)
          then show ?thesis by (simp add: rruns.stop rstep_def)
        next
          case False
          then show ?thesis using cr(3) [OF go] by (simp add: rruns_held)
        qed
        then show ?thesis
          using False r(1) b d go k cr(1) by (subst input_loop.simps) (auto simp: c1_def [symmetric])
      qed
    qed
  qed
qed

lemma processInputBuffer_runs:
  assumes "env_ok env" "client_ok c"
  obtains c' where "processInputBuffer env c = Some c'" "rruns env (view c) c'" "client_ok c'" "qb_pos c' = 0"
proof -
  obtain d where d: "input_loop env c = Some d" "rruns env (view c) (view d)" "client_ok d"
    using input_loop_runs [OF assms] by blast
  have "processInputBuffer env c = Some (view d)"
    using d(1) by (simp add: processInputBuffer_def view_def rest_def sdsrange_tail)
  moreover have "client_ok (view d)"
    using d(3) by (auto simp: client_ok_def stream_ok_def) (auto simp: rest_def)
  ultimately show ?thesis using d(2) that by simp
qed

end
