(* ===== verification/Requests.thy ===== *)
theory Requests
  imports RequestMachine
begin

text \<open>
  The properties of reading requests: bytes that arrive later do not disturb the machine of
  \<open>RequestMachine\<close>, so the pieces in which they arrive do not matter; well-formed requests are
  executed as sent; parsing in an I/O thread is invisible; a protocol error is final.
\<close>

section \<open>More bytes do not disturb the machine\<close>

text \<open>The errors that depend on how many bytes have arrived.\<close>

definition size_error :: "protocol_error \<Rightarrow> bool" where
  "size_error e \<longleftrightarrow> e \<in> {TooBigInline, TooBigMbulkCount, TooBigBulkCount}"

definition calm :: "rclient \<Rightarrow> bool" where
  "calm c \<longleftrightarrow> (\<forall>e\<in>set (protocol_errors c). \<not> size_error e)"

definition feed :: "bytes \<Rightarrow> rclient \<Rightarrow> rclient" where
  "feed x c = (if freed c then c else append_bytes x c)"

lemma append_bytes_simps [simp]:
  "querybuf (append_bytes x c) = querybuf c @ x" "qb_pos (append_bytes x c) = qb_pos c"
  "cflags (append_bytes x c) = cflags c" "executed (append_bytes x c) = executed c"
  "reqtype (append_bytes x c) = reqtype c" "multibulklen (append_bytes x c) = multibulklen c"
  "bulklen (append_bytes x c) = bulklen c" "cargv (append_bytes x c) = cargv c" "ccmd (append_bytes x c) = ccmd c"
  "reploff (append_bytes x c) = reploff c" "freed (append_bytes x c) = freed c"
  "repl_ack_time (append_bytes x c) = repl_ack_time c" "stopped env (append_bytes x c) = stopped env c"
  "protocol_errors (append_bytes x c) = protocol_errors c"
  "gopher_requests (append_bytes x c) = gopher_requests c"
  by (simp_all add: append_bytes_def stopped_def Let_def)

lemma append_bytes_update [simp]:
  "append_bytes x (c\<lparr>reploff := y\<rparr>) = (append_bytes x c)\<lparr>reploff := y\<rparr>"
  "append_bytes x (c\<lparr>executed := e\<rparr>) = (append_bytes x c)\<lparr>executed := e\<rparr>"
  "append_bytes x (c\<lparr>ccmd := k\<rparr>) = (append_bytes x c)\<lparr>ccmd := k\<rparr>"
  "append_bytes x (c\<lparr>reqtype := r\<rparr>) = (append_bytes x c)\<lparr>reqtype := r\<rparr>"
  "append_bytes x (c\<lparr>repl_ack_time := n\<rparr>) = (append_bytes x c)\<lparr>repl_ack_time := n\<rparr>"
  "append_bytes x (c\<lparr>cargv := a\<rparr>) = (append_bytes x c)\<lparr>cargv := a\<rparr>"
  "append_bytes x (c\<lparr>multibulklen := n\<rparr>) = (append_bytes x c)\<lparr>multibulklen := n\<rparr>"
  "append_bytes x (c\<lparr>bulklen := l\<rparr>) = (append_bytes x c)\<lparr>bulklen := l\<rparr>"
  "append_bytes x (c\<lparr>protocol_errors := ee\<rparr>) = (append_bytes x c)\<lparr>protocol_errors := ee\<rparr>"
  "append_bytes x (c\<lparr>gopher_requests := g\<rparr>) = (append_bytes x c)\<lparr>gopher_requests := g\<rparr>"
  "f_master fl = f_master (cflags c) \<Longrightarrow> append_bytes x (c\<lparr>cflags := fl\<rparr>) = (append_bytes x c)\<lparr>cflags := fl\<rparr>"
  by (simp_all add: append_bytes_def Let_def)

lemma append_bytes_querybuf: "append_bytes x (c\<lparr>querybuf := b\<rparr>) = (append_bytes x c)\<lparr>querybuf := b @ x\<rparr>"
  by (simp add: append_bytes_def Let_def)

lemma append_bytes_resets [simp]:
  "append_bytes x (setProtocolError e c) = setProtocolError e (append_bytes x c)"
  "append_bytes x (resetClient c) = resetClient (append_bytes x c)"
  "append_bytes x (gopher_request c) = gopher_request (append_bytes x c)"
  "freeClient (append_bytes x c) = freeClient c"
proof -
  show r: "append_bytes x (resetClient c) = resetClient (append_bytes x c)" for c
    by (simp add: resetClient_def Let_def)
  show "append_bytes x (gopher_request c) = gopher_request (append_bytes x c)"
    by (simp add: gopher_request_def Let_def r)
qed (simp_all add: setProtocolError_def freeClient_def append_bytes_def Let_def)

lemma append_bytes_pass_on:
  assumes "f_master (cflags c) \<Longrightarrow> 0 \<le> reploff c - n \<and> reploff c - n \<le> int (length (pending_querybuf c))"
  shows "append_bytes x (pass_on n c) = pass_on n (append_bytes x c)"
proof (cases "f_master (cflags c) \<and> reploff c - n \<noteq> 0")
  case True
  then have "nat (reploff c - n) \<le> length (pending_querybuf c)" "0 \<le> reploff c - n"
    using assms by auto
  then show ?thesis using True by (simp add: append_bytes_def pass_on_def sdsrange_tail Let_def)
qed (auto simp: pass_on_def Let_def)

lemma append_bytes_commandProcessed:
  assumes s: "stream_ok c" and pos: "qb_pos c \<le> length (querybuf c)"
  shows "append_bytes x (commandProcessed c) = commandProcessed (append_bytes x c)"
proof -
  define c1 where "c1 = (if f_master (cflags c) \<and> \<not> f_multi (cflags c) then c\<lparr>reploff := read_position c\<rparr> else c)"
  define c2 where "c2 = (if \<not> f_blocked (cflags c) \<or> \<not> f_blocked_module (cflags c) then resetClient c1 else c1)"
  have fl: "cflags c1 = cflags c" "pending_querybuf c1 = pending_querybuf c" by (simp_all add: c1_def)
  then have fl2: "f_master (cflags c2) = f_master (cflags c)" "pending_querybuf c2 = pending_querybuf c"
    "reploff c2 = reploff c1" by (simp_all add: c2_def)
  have "read_position (append_bytes x c) = read_position c" if "f_master (cflags c)"
    using that by (simp add: read_position_def append_bytes_def)
  then have x1: "append_bytes x c1 = (if f_master (cflags c) \<and> \<not> f_multi (cflags c)
      then (append_bytes x c)\<lparr>reploff := read_position (append_bytes x c)\<rparr> else append_bytes x c)"
    by (simp add: c1_def)
  have x2: "append_bytes x c2 = (if \<not> f_blocked (cflags c) \<or> \<not> f_blocked_module (cflags c)
      then resetClient (append_bytes x c1) else append_bytes x c1)"
    by (simp add: c2_def)
  have eq: "commandProcessed c = pass_on (reploff c) c2"
    by (simp add: commandProcessed_def c2_def c1_def Let_def)
  have eqx: "commandProcessed (append_bytes x c) = pass_on (reploff c) (append_bytes x c2)"
    unfolding x2 x1 by (simp add: commandProcessed_def Let_def)
  have "0 \<le> reploff c2 - reploff c \<and> reploff c2 - reploff c \<le> int (length (pending_querybuf c2))"
    if "f_master (cflags c)"
    using that s pos unfolding fl2
    by (auto simp: stream_ok_def c1_def read_position_def unread_def of_nat_diff)
  then show ?thesis unfolding eq eqx by (intro append_bytes_pass_on) (simp add: fl2)
qed

lemma feed_processCommand:
  assumes env: "env_ok env" and s: "stream_ok c" "qb_pos c \<le> length (querybuf c)" "\<not> freed c"
  shows "processCommandAndResetClient env (append_bytes x c) = apfst (feed x) (processCommandAndResetClient env c)"
proof -
  obtain st cls fl where p: "process_command env (executed c) (cargv c) (cflags c) = (st, cls, fl)"
    by (cases "process_command env (executed c) (cargv c) (cflags c)") auto
  define e where "e = c\<lparr>executed := executed c @ [cargv c], ccmd := cls, cflags := fl\<rparr>"
  have m: "f_master fl = f_master (cflags c)" using env p unfolding env_ok_def by blast
  have e: "stream_ok e" "qb_pos e \<le> length (querybuf e)" "\<not> freed e"
    using s m by (simp_all add: e_def stream_ok_def)
  have x: "(append_bytes x c)\<lparr>executed := executed c @ [cargv c], ccmd := cls, cflags := fl\<rparr> = append_bytes x e"
    using m by (simp add: e_def)
  have "freed (commandProcessed e) = freed e" by (simp add: commandProcessed_def Let_def)
  then show ?thesis
    using e x append_bytes_commandProcessed [OF e(1,2)] p
    by (cases st) (simp_all add: processCommandAndResetClient_def feed_def flip: e_def)
qed

lemma feed_complete_request:
  assumes env: "env_ok env" and s: "stream_ok c" "qb_pos c \<le> length (querybuf c)" "\<not> freed c"
  shows "complete_request env (append_bytes x c) = apfst (feed x) (complete_request env c)"
proof -
  have "is_gopher env (append_bytes x c) = is_gopher env c" by (simp add: is_gopher_def)
  moreover have "freed (gopher_request c) = freed c" by (simp add: gopher_request_def Let_def)
  ultimately show ?thesis
    using s(3) by (cases "processCommandAndResetClient env c")
      (simp add: complete_request_def feed_processCommand [OF env s] feed_def)
qed

lemma strchr_append: "strchr x b = Some n \<Longrightarrow> strchr x (b @ y) = Some n"
  by (induction b arbitrary: n) (auto split: if_splits)

lemma crlf_line_append: "crlf_line b = Some (l, r) \<Longrightarrow> crlf_line (b @ y) = Some (l, r @ y)"
  by (auto simp: crlf_line_def strchr_append split: option.splits if_splits)

lemma inline_line_append: "n < length b \<Longrightarrow> inline_line n (b @ y) = inline_line n b"
  by (auto simp: inline_line_def nth_append)

lemma sdsize_calm [simp]: "calm (setProtocolError e c) = (calm c \<and> \<not> size_error e)"
  by (auto simp: calm_def setProtocolError_def)

text \<open>The states of the machine.\<close>

definition machine_ok :: "rclient \<Rightarrow> bool" where
  "machine_ok c \<longleftrightarrow> qb_pos c = 0 \<and> (freed c \<or> stream_ok c) \<and> (freed c \<longrightarrow> querybuf c = [])"

lemma machine_okD:
  "\<lbrakk>machine_ok c; querybuf c \<noteq> []\<rbrakk> \<Longrightarrow> \<not> freed c \<and> stream_ok c \<and> qb_pos c = 0"
  by (auto simp: machine_ok_def)

lemma machine_ok_consume:
  assumes "machine_ok c" "\<not> freed c" "length b \<le> length (querybuf c)"
  shows "machine_ok (c\<lparr>querybuf := b\<rparr>)"
  using assms by (auto simp: machine_ok_def stream_ok_def unread_def)

lemma complete_request_machine:
  assumes "env_ok env" "machine_ok c" "\<not> freed c"
  shows "machine_ok (fst (complete_request env c))"
proof -
  obtain d go where d: "complete_request env c = (d, go)" by fastforce
  have c: "stream_ok c" "qb_pos c = 0" using assms(2,3) by (simp_all add: machine_ok_def)
  have "client_ok d" using complete_request_ok(1) [OF assms(1) _ c(1) assms(3) d] c(2) by simp
  moreover have "view d = d"
    using view_complete_request [of c env] d c(2) view_id [of c] by simp
  then have "qb_pos d = 0" by (metis view_simps(2))
  ultimately show ?thesis using d by (simp add: client_ok_def machine_ok_def)
qed

text \<open>The successful part of a step as a function of the unread bytes.\<close>

lemma complete_request_cong:
  assumes "env_ok env" "machine_ok c" "\<not> freed c"
  shows "fst (complete_request env (append_bytes x c)) = feed x (fst (complete_request env c))"
  using feed_complete_request [OF assms(1) _ _ assms(3), of x] assms(2,3) by (simp add: machine_ok_def)

lemma machine_ok_upd [simp]:
  "machine_ok (c\<lparr>cargv := a\<rparr>) = machine_ok c" "machine_ok (c\<lparr>repl_ack_time := n\<rparr>) = machine_ok c"
  "machine_ok (c\<lparr>reqtype := r\<rparr>) = machine_ok c" "machine_ok (c\<lparr>multibulklen := n\<rparr>) = machine_ok c"
  "machine_ok (c\<lparr>bulklen := l\<rparr>) = machine_ok c"
  by (simp_all add: machine_ok_def stream_ok_def unread_def)

lemma machine_ok_error [simp]: "machine_ok (setProtocolError e c) = machine_ok c"
  by (simp add: machine_ok_def stream_ok_def unread_def setProtocolError_def)

text \<open>
  A step with more bytes behind it is the same step, unless it reports that too many bytes have
  arrived without the end of a line.
\<close>

definition feeds :: "server_env \<Rightarrow> bytes \<Rightarrow> rclient \<Rightarrow> rclient \<Rightarrow> bool" where
  "feeds env x c c1 \<longleftrightarrow> rstep env (feed x c) = Some (feed x c1) \<and> machine_ok c1 \<and>
     length (querybuf c1) \<le> length (querybuf c)"

lemma feeds_error:
  assumes "machine_ok c" "\<not> freed c" "c1 = setProtocolError e c"
    "rstep env (append_bytes x c) = Some (setProtocolError e (append_bytes x c))"
  shows "feeds env x c c1"
proof -
  have "freed (setProtocolError e c) = freed c" by (simp add: setProtocolError_def)
  then show ?thesis using assms by (simp add: feeds_def feed_def)
qed

lemma feeds_go:
  assumes "c1 = d" "machine_ok d" "\<not> freed c" "\<not> freed d"
    "rstep env (append_bytes x c) = Some (append_bytes x d)" "length (querybuf d) \<le> length (querybuf c)"
  shows "feeds env x c c1"
  using assms by (simp add: feeds_def feed_def)

lemma complete_request_length: "length (querybuf (fst (complete_request env d))) \<le> length (querybuf d)"
  unfolding complete_request_def processCommandAndResetClient_def
  by (auto simp: freeClient_def gopher_request_def Let_def split: prod.splits status.splits)

lemma feeds_complete:
  assumes "env_ok env" "machine_ok d" "c1 = fst (complete_request env d)" "\<not> freed c" "\<not> freed d"
    "rstep env (append_bytes x c) = Some (fst (complete_request env (append_bytes x d)))"
    "length (querybuf d) \<le> length (querybuf c)"
  shows "feeds env x c c1"
  using assms complete_request_cong [OF assms(1,2,5)] complete_request_machine [OF assms(1,2,5)]
    complete_request_length [of env d] by (simp add: feeds_def feed_def)

lemma feed_inline_step:
  assumes env: "env_ok env" and ok: "machine_ok c" and s: "rstep env c = Some c1" and calm: "calm c1"
    and b: "querybuf c \<noteq> []" "\<not> stopped env c" and rt: "reqtype c = Inline"
  shows "feeds env x c c1"
proof -
  have c: "\<not> freed c" using machine_okD [OF ok b(1)] by simp
  show ?thesis
  proof (cases "strchr 10 (querybuf c)")
    case None
    then have "c1 = setProtocolError TooBigInline c"
      using s b rt by (auto simp: rstep_def Let_def split: if_splits)
    then show ?thesis using calm by (simp add: size_error_def)
  next
    case (Some n)
    have n: "n < length (querybuf c)" using strchr_Some [OF Some] by simp
    let ?line = "inline_line n (querybuf c)"
    note l = inline_line_append [OF n] strchr_append [OF Some]
    show ?thesis
    proof (cases "sdssplitargs ?line")
      case None
      then show ?thesis using s b rt Some l ok c by (intro feeds_error) (simp_all add: rstep_def)
    next
      case args: (Some argv)
      define ack where "ack = (if ?line = [] \<and> getClientType (cflags c) = ClientSlave then unixtime env else repl_ack_time c)"
      let ?d = "c\<lparr>repl_ack_time := ack, querybuf := drop (Suc n) (querybuf c), cargv := argv\<rparr>"
      have c1: "c1 = fst (complete_request env ?d)"
        using s b rt Some args by (simp add: rstep_def ack_def Let_def)
      have ap: "append_bytes x ?d = (append_bytes x c)
          \<lparr>repl_ack_time := ack, querybuf := drop (Suc n) (querybuf c @ x), cargv := argv\<rparr>"
        using n by (simp add: append_bytes_querybuf)
      have mo: "machine_ok ?d"
        using machine_ok_consume [of "c\<lparr>repl_ack_time := ack\<rparr>" "drop (Suc n) (querybuf c)"] ok c by simp
      have "rstep env (append_bytes x c) = Some (fst (complete_request env (append_bytes x ?d)))"
        unfolding ap using b rt Some args l by (simp add: rstep_def ack_def Let_def)
      from feeds_complete [OF env mo c1 c _ this] show ?thesis using c by simp
    qed
  qed
qed

lemma feed_count_step:
  assumes env: "env_ok env" and ok: "machine_ok c" and s: "rstep env c = Some c1" and calm: "calm c1"
    and b: "querybuf c \<noteq> []" "\<not> stopped env c" and rt: "reqtype c = Multibulk" and m: "multibulklen c = 0"
  shows "feeds env x c c1"
proof -
  have c: "\<not> freed c" using machine_okD [OF ok b(1)] by simp
  show ?thesis
  proof (cases "crlf_line (querybuf c)")
    case None
    then have "c1 = setProtocolError TooBigMbulkCount c"
      using s b rt m by (auto simp: rstep_def Let_def split: if_splits)
    then show ?thesis using calm by (simp add: size_error_def)
  next
    case (Some lr)
    obtain line r where lr: "lr = (line, r)" by fastforce
    note l = crlf_line_append [OF Some [unfolded lr]]
    have len: "length r \<le> length (querybuf c)"
      using Some lr by (auto simp: crlf_line_def split: option.splits if_splits)
    have mo: "machine_ok (c\<lparr>querybuf := r\<rparr>)" by (rule machine_ok_consume [OF ok c len])
    show ?thesis
    proof (cases "string2ll (tl line)")
      case None
      then show ?thesis using s b rt m Some lr l ok c by (intro feeds_error) (simp_all add: rstep_def)
    next
      case ll: (Some ll)
      consider "sint ll > 1024 * 1024" | "\<not> sint ll > 1024 * 1024" "sint ll \<le> 0"
        | "\<not> sint ll > 1024 * 1024" "\<not> sint ll \<le> 0" by blast
      then show ?thesis
      proof cases
        case 1
        then show ?thesis using s b rt m Some lr l ll ok c by (intro feeds_error) (simp_all add: rstep_def)
      next
        case 2
        then show ?thesis using s b rt m Some lr l ll c mo len
          by (intro feeds_complete [OF env, of "c\<lparr>querybuf := r\<rparr>"]) (simp_all add: rstep_def append_bytes_querybuf)
      next
        case 3
        then have c1: "c1 = c\<lparr>querybuf := r, multibulklen := nat (sint ll)\<rparr>"
          using s b rt m Some lr l ll c mo len by (simp add: rstep_def append_bytes_querybuf)
        show ?thesis unfolding c1
          using 3 b rt m Some lr l ll c mo len by (intro feeds_go [OF refl]) (simp_all add: rstep_def append_bytes_querybuf)
      qed
    qed
  qed
qed

lemma feed_bulk_step:
  assumes env: "env_ok env" and ok: "machine_ok c" and s: "rstep env c = Some c1" and calm: "calm c1"
    and b: "querybuf c \<noteq> []" "\<not> stopped env c" and rt: "reqtype c = Multibulk" and m: "multibulklen c \<noteq> 0"
  shows "feeds env x c c1"
proof -
  have c: "\<not> freed c" using machine_okD [OF ok b(1)] by simp
  show ?thesis
  proof (cases "bulklen c")
    case None
    note bl = None
    show ?thesis
    proof (cases "crlf_line (querybuf c)")
      case None
      then have "c1 = setProtocolError TooBigBulkCount c"
        using s b rt m bl by (auto simp: rstep_def Let_def split: if_splits)
      then show ?thesis using calm by (simp add: size_error_def)
    next
      case (Some lr)
      obtain line r where lr: "lr = (line, r)" by fastforce
      note l = crlf_line_append [OF Some [unfolded lr]]
      have len: "length r \<le> length (querybuf c)"
        using Some lr by (auto simp: crlf_line_def split: option.splits if_splits)
      have mo: "machine_ok (c\<lparr>querybuf := r\<rparr>)" by (rule machine_ok_consume [OF ok c len])
      have hd: "hd (querybuf c @ x) = hd (querybuf c)" using b(1) by simp
      consider "hd (querybuf c) \<noteq> 36" | "hd (querybuf c) = 36" "string2ll (tl line) = None"
        | ll where "hd (querybuf c) = 36" "string2ll (tl line) = Some ll"
            "sint ll < 0 \<or> sint ll > int (proto_max_bulk_len env)"
        | ll where "hd (querybuf c) = 36" "string2ll (tl line) = Some ll"
            "\<not> (sint ll < 0 \<or> sint ll > int (proto_max_bulk_len env))"
        by (cases "string2ll (tl line)") blast+
      then show ?thesis
      proof cases
        case 1
        then show ?thesis using s b rt m bl Some lr l hd ok c by (intro feeds_error) (simp_all add: rstep_def)
      next
        case 2
        then show ?thesis using s b rt m bl Some lr l hd ok c by (intro feeds_error) (simp_all add: rstep_def)
      next
        case 3
        then show ?thesis using s b rt m bl Some lr l hd ok c by (intro feeds_error) (simp_all add: rstep_def)
      next
        case (4 ll)
        then have c1: "c1 = c\<lparr>querybuf := r, bulklen := Some (nat (sint ll))\<rparr>"
          using s b rt m bl Some lr l hd c mo len by (simp add: rstep_def append_bytes_querybuf)
        show ?thesis unfolding c1
          using 4 b rt m bl Some lr l hd c mo len by (intro feeds_go [OF refl]) (simp_all add: rstep_def append_bytes_querybuf)
      qed
    qed
  next
    case (Some k)
    then have len: "\<not> length (querybuf c) < k + 2"
      using s b rt m by (auto simp: rstep_def Let_def)
    define d where "d = c\<lparr>querybuf := drop (k + 2) (querybuf c), cargv := cargv c @ [take k (querybuf c)],
        bulklen := None, multibulklen := multibulklen c - 1\<rparr>"
    have mo: "machine_ok d" "\<not> freed d" "length (querybuf d) \<le> length (querybuf c)"
      using machine_ok_consume [OF ok c, of "drop (k + 2) (querybuf c)"] c by (simp_all add: d_def)
    have ap: "append_bytes x d = (append_bytes x c)\<lparr>querybuf := drop (k + 2) (querybuf c @ x),
        cargv := cargv c @ [take k (querybuf c @ x)], bulklen := None, multibulklen := multibulklen c - 1\<rparr>"
      using len by (simp add: d_def append_bytes_querybuf)
    have st: "rstep env c = Some (if multibulklen d = 0 then fst (complete_request env d) else d)"
      using b rt m Some len by (simp add: rstep_def d_def Let_def)
    have stx: "rstep env (append_bytes x c) =
        Some (if multibulklen d = 0 then fst (complete_request env (append_bytes x d)) else append_bytes x d)"
      unfolding ap using b rt m Some len by (simp add: rstep_def d_def Let_def)
    show ?thesis
    proof (cases "multibulklen d = 0")
      case True
      then show ?thesis using s st stx by (intro feeds_complete [OF env mo(1) _ c mo(2) _ mo(3)]) simp_all
    next
      case False
      then show ?thesis using s st stx by (intro feeds_go [OF _ mo(1) c mo(2) _ mo(3)]) simp_all
    qed
  qed
qed

lemma feed_step:
  assumes env: "env_ok env" and ok: "machine_ok c" and s: "rstep env c = Some c1" and calm: "calm c1"
  shows "feeds env x c c1"
proof -
  have b: "querybuf c \<noteq> []" "\<not> stopped env c" using s by (auto simp: rstep_def Let_def split: if_splits)
  have c: "\<not> freed c" using machine_okD [OF ok b(1)] by simp
  note f = feed_inline_step [OF env ok s calm b] feed_count_step [OF env ok s calm b]
    feed_bulk_step [OF env ok s calm b]
  show ?thesis
  proof (cases "reqtype c")
    case rt: NoType
    have "hd (querybuf c @ x) = hd (querybuf c)" using b(1) by simp
    then have c1: "c1 = c\<lparr>reqtype := (if hd (querybuf c) = 42 then Multibulk else Inline)\<rparr>"
      using s b rt ok c by (simp add: rstep_def)
    show ?thesis unfolding c1
      using b rt ok c by (intro feeds_go [OF refl]) (simp_all add: rstep_def)
  qed (use f in blast)+
qed

section \<open>Reading in pieces\<close>

lemma complete_request_errors: "protocol_errors (fst (complete_request env c)) = protocol_errors c"
proof -
  have "protocol_errors (commandProcessed d) = protocol_errors d" for d
    by (simp add: commandProcessed_def Let_def)
  then show ?thesis
    unfolding complete_request_def processCommandAndResetClient_def
    by (auto simp: freeClient_def gopher_request_def Let_def split: prod.splits status.splits)
qed

lemma rstep_errors:
  assumes "rstep env c = Some c1"
  shows "set (protocol_errors c) \<subseteq> set (protocol_errors c1)"
proof -
  have "protocol_errors (setProtocolError e c) = protocol_errors c @ [e]" for e
    by (simp add: setProtocolError_def)
  then show ?thesis
    using assms
    by (auto simp: rstep_def Let_def complete_request_errors split: if_splits option.splits)
qed

lemma rstep_length:
  assumes "rstep env c = Some c1"
  shows "length (querybuf c1) \<le> length (querybuf c)"
proof -
  have len: "length b' \<le> length b" if "crlf_line b = Some (l, b')" for b l b'
    using that by (auto simp: crlf_line_def split: option.splits if_splits)
  have comp: "length (querybuf (fst (complete_request env d))) \<le> n" if "length (querybuf d) \<le> n" for d n
    using complete_request_length [of env d] that by simp
  show ?thesis
    using assms by (auto simp: rstep_def Let_def intro!: comp dest!: len split: if_splits option.splits)
qed

lemma rruns_mono:
  "rruns env c d \<Longrightarrow> set (protocol_errors c) \<subseteq> set (protocol_errors d) \<and> length (querybuf d) \<le> length (querybuf c)"
proof (induction rule: rruns.induct)
  case (step c c1 c2)
  then show ?case using rstep_errors [OF step.hyps(1)] rstep_length [OF step.hyps(1)] by auto
qed simp

lemma rruns_calm: "\<lbrakk>rruns env c d; calm d\<rbrakk> \<Longrightarrow> calm c"
  unfolding calm_def using rruns_mono [of env c d] by blast

lemma rruns_feed:
  assumes env: "env_ok env"
  shows "\<lbrakk>rruns env c d; machine_ok c; calm d\<rbrakk> \<Longrightarrow>
    machine_ok d \<and> length (querybuf d) \<le> length (querybuf c) \<and>
    (\<forall>e. rruns env (feed x d) e \<longrightarrow> rruns env (feed x c) e)"
proof (induction rule: rruns.induct)
  case (step c c1 c2)
  have "calm c1" using rruns_calm step.hyps(2) step.prems(2) by blast
  from feed_step [OF env step.prems(1) step.hyps(1) this]
  have f: "feeds env y c c1" for y .
  have "rstep env (feed x c) = Some (feed x c1)" "machine_ok c1" "length (querybuf c1) \<le> length (querybuf c)"
    using f [of x] by (simp_all add: feeds_def)
  then show ?case using step.IH step.prems(2) rruns.step by fastforce
qed simp

lemma feed_feed: "feed y (feed x c) = feed (x @ y) c"
  by (simp add: feed_def append_bytes_def Let_def)

lemma machine_ok_feed: "machine_ok c \<Longrightarrow> machine_ok (feed x c)"
  by (auto simp: machine_ok_def feed_def append_bytes_def stream_ok_def unread_def Let_def)

lemma client_machine_ok: "\<lbrakk>client_ok c; qb_pos c = 0\<rbrakk> \<Longrightarrow> machine_ok c"
  by (simp add: client_ok_def machine_ok_def)

lemma client_ok_append:
  assumes "client_ok c" "\<not> freed c"
  shows "client_ok (append_bytes x c)"
proof -
  have r: "rest (append_bytes x c) = rest c @ x" if "qb_pos c \<le> length (querybuf c)"
    using that by (simp add: rest_def)
  have "stream_ok (append_bytes x c)" if "stream_ok c" "qb_pos c \<le> length (querybuf c)"
    using that by (auto simp: stream_ok_def append_bytes_def unread_def Let_def)
  then show ?thesis
    using assms r by (auto simp: client_ok_def request_ok_def split: reqtype.splits if_splits)
qed

text \<open>The reads of one client, until it is freed.\<close>

fun read_chunks :: "server_env \<Rightarrow> bytes list \<Rightarrow> rclient \<Rightarrow> rclient option" where
  "read_chunks env [] c = Some c"
| "read_chunks env (x # xs) c =
     (if freed c then Some c
      else Option.bind (readQueryFromClient env (Data x) c) (read_chunks env xs))"

lemma read_data:
  assumes "env_ok env" "\<not> io_threads_reads env" "client_ok c" "qb_pos c = 0" "\<not> freed c"
    "length (querybuf c) + length x \<le> client_max_querybuf_len env"
  obtains d where "readQueryFromClient env (Data x) c = Some d" "rruns env (feed x c) d" "client_ok d" "qb_pos d = 0"
proof -
  have v: "view (append_bytes x c) = feed x c"
    using assms(4,5) by (simp add: view_id feed_def)
  obtain d where "processInputBuffer env (append_bytes x c) = Some d" "rruns env (feed x c) d"
    "client_ok d" "qb_pos d = 0"
    using processInputBuffer_runs [OF assms(1) client_ok_append [OF assms(3,5)], of x] unfolding v .
  then show ?thesis
    using assms(2,6) that by (simp add: readQueryFromClient_def postponeClientRead_def Let_def)
qed

lemma read_chunks_runs:
  assumes env: "env_ok env" and io: "\<not> io_threads_reads env"
  shows "\<lbrakk>client_ok c; qb_pos c = 0; length (querybuf c) + length (concat xs) \<le> client_max_querybuf_len env\<rbrakk> \<Longrightarrow>
    \<exists>d. read_chunks env xs c = Some d \<and> client_ok d \<and> qb_pos d = 0 \<and>
      set (protocol_errors c) \<subseteq> set (protocol_errors d) \<and>
      (xs \<noteq> [] \<and> calm d \<longrightarrow> rruns env (feed (concat xs) c) d)"
proof (induction xs arbitrary: c)
  case (Cons x xs)
  show ?case
  proof (cases "freed c")
    case True
    then have "querybuf c = []" using Cons.prems(1) by (simp add: client_ok_def)
    then have "rruns env c c" by (simp add: rruns.stop rstep_def)
    then show ?thesis using True Cons.prems by (simp add: feed_def)
  next
    case False
    have len: "length (querybuf c) + length x \<le> client_max_querybuf_len env" using Cons.prems(3) by simp
    obtain d1 where d1: "readQueryFromClient env (Data x) c = Some d1" "rruns env (feed x c) d1"
      "client_ok d1" "qb_pos d1 = 0"
      using read_data [OF env io Cons.prems(1,2) False len] .
    have m: "set (protocol_errors c) \<subseteq> set (protocol_errors d1)" "length (querybuf d1) \<le> length (querybuf c) + length x"
      using rruns_mono [OF d1(2)] False by (simp_all add: feed_def)
    obtain d where d: "read_chunks env xs d1 = Some d" "client_ok d" "qb_pos d = 0"
      "set (protocol_errors d1) \<subseteq> set (protocol_errors d)"
      "xs \<noteq> [] \<and> calm d \<longrightarrow> rruns env (feed (concat xs) d1) d"
      using Cons.IH [OF d1(3,4)] m(2) Cons.prems(3) by auto
    have "rruns env (feed (concat (x # xs)) c) d" if calm: "calm d"
    proof (cases "xs = []")
      case True
      then show ?thesis using d1(2) d(1) by simp
    next
      case ne: False
      have "machine_ok (feed x c)"
        using Cons.prems(1,2) client_machine_ok machine_ok_feed by blast
      moreover have "calm d1" using calm d(4) by (auto simp: calm_def)
      ultimately have "rruns env (feed (concat xs) (feed x c)) d"
        using rruns_feed [OF env d1(2)] d(5) ne calm by blast
      then show ?thesis by (simp add: feed_feed)
    qed
    then show ?thesis using False d1(1) d m(1) by auto
  qed
qed simp

section \<open>A well-formed request\<close>

text \<open>The request as a client library sends it.\<close>

definition resp_arg :: "bytes \<Rightarrow> bytes" where
  "resp_arg a = 36 # dec (length a) @ [13, 10] @ a @ [13, 10]"

definition resp_request :: "bytes list \<Rightarrow> bytes" where
  "resp_request argv = 42 # dec (length argv) @ [13, 10] @ concat (map resp_arg argv)"

lemma strchr_skip: "\<forall>c\<in>set b. c \<noteq> x \<and> c \<noteq> 0 \<Longrightarrow> strchr x (b @ x # r) = Some (length b)"
  by (induction b) auto

lemma crlf_line_dec:
  assumes "h \<noteq> 13" "h \<noteq> 0"
  shows "crlf_line (h # dec n @ 13 # 10 # r) = Some (h # dec n, r)"
proof -
  have "\<forall>c\<in>set (dec n). c \<noteq> 13 \<and> c \<noteq> 0"
    using dec_digits [of 13 n] dec_digits [of 0 n] by (auto simp: is_digit_def)
  then have "strchr 13 ((h # dec n) @ 13 # 10 # r) = Some (length (h # dec n))"
    using assms by (intro strchr_skip) auto
  then show ?thesis by (simp add: crlf_line_def)
qed

lemma sint_of_nat_small: "n \<le> LLONG_MAX \<Longrightarrow> sint (of_nat n :: i64) = int n"
  by (simp add: signed_of_nat signed_take_bit_int_eq_self)

text \<open>A client that is between requests and whose bytes are not parsed by an I/O thread.\<close>

definition idle :: "rclient \<Rightarrow> bool" where
  "idle c \<longleftrightarrow> reqtype c = NoType \<and> multibulklen c = 0 \<and> bulklen c = None \<and> cargv c = [] \<and>
     \<not> f_pending_read (cflags c)"

text \<open>When the loop does not start another request, from the history and the flags of the client.\<close>

definition halted :: "server_env \<Rightarrow> bytes list list \<Rightarrow> cflags \<Rightarrow> bool" where
  "halted env h fl \<longleftrightarrow>
     (\<not> f_slave fl \<and> clients_paused env h) \<or> f_blocked fl \<or> f_pending_command fl \<or>
     (lua_timedout env h \<and> f_master fl) \<or> f_close_after_reply fl \<or> f_close_asap fl"

lemma stopped_halted: "stopped env c = halted env (executed c) (cflags c)"
  by (simp add: stopped_def halted_def)

text \<open>
  How many of the given requests are executed before the loop halts: before the first it halts
  already when clients are paused, and a command can block the client, pause the clients, have the
  connection closed (QUIT) or free the client.
\<close>

fun served :: "server_env \<Rightarrow> bytes list list \<Rightarrow> cflags \<Rightarrow> bytes list list \<Rightarrow> nat" where
  "served env h fl [] = 0"
| "served env h fl (argv # cmds) =
     (if halted env h fl then 0
      else case process_command env h argv fl of
             (CmdOk, cls, fl') \<Rightarrow>
               Suc (served env (h @ [argv])
                 (if f_blocked fl' \<and> f_blocked_module fl' then fl' else reset_flags cls fl') cmds)
           | (_, cls, fl') \<Rightarrow> 1)"

text \<open>Commands do not hand the client to an I/O thread; \<open>readQueryFromClient\<close> does.\<close>

definition direct_commands :: "server_env \<Rightarrow> bool" where
  "direct_commands env \<longleftrightarrow>
     (\<forall>h argv fl st cls fl'. process_command env h argv fl = (st, cls, fl') \<longrightarrow>
        f_pending_read fl' = f_pending_read fl)"

lemma bulk_args_run:
  assumes "\<not> stopped env c" "\<forall>a\<in>set args. length a \<le> proto_max_bulk_len env \<and> length a \<le> LLONG_MAX"
  shows "\<lbrakk>reqtype c = Multibulk; bulklen c = None; multibulklen c = length args; args \<noteq> [];
      querybuf c = concat (map resp_arg args) @ r;
      rruns env (fst (complete_request env (c\<lparr>querybuf := r, cargv := cargv c @ args, bulklen := None, multibulklen := 0\<rparr>))) d\<rbrakk>
    \<Longrightarrow> rruns env c d"
  using assms
proof (induction args arbitrary: c)
  case (Cons a args)
  let ?r = "concat (map resp_arg args) @ r"
  note s = Cons.prems(7)
  have len: "length a \<le> LLONG_MAX" "length a \<le> proto_max_bulk_len env" using Cons.prems by simp_all
  have q: "querybuf c = (36 # dec (length a) @ 13 # 10 # a @ [13, 10]) @ ?r"
    using Cons.prems(5) by (simp add: resp_arg_def [of a])
  define c1 where "c1 = c\<lparr>querybuf := a @ 13 # 10 # ?r, bulklen := Some (length a)\<rparr>"
  have "crlf_line (querybuf c) = Some (36 # dec (length a), a @ 13 # 10 # ?r)"
    unfolding q using crlf_line_dec [of 36] by simp
  moreover have "string2ll (dec (length a)) = Some (of_nat (length a))" "sint (of_nat (length a) :: i64) = int (length a)"
    using string2ll_dec_small [OF len(1)] sint_of_nat_small [OF len(1)] by simp_all
  moreover have "hd (querybuf c) = 36" "querybuf c \<noteq> []" by (simp_all add: q)
  ultimately have 1: "rstep env c = Some c1"
    using s Cons.prems(1-3) len by (simp add: rstep_def c1_def)
  define c2 where "c2 = c\<lparr>querybuf := ?r, cargv := cargv c @ [a], bulklen := None, multibulklen := length args\<rparr>"
  have s1: "\<not> stopped env c1" using s by (simp add: c1_def stopped_def)
  have s2: "\<not> stopped env c2" using s by (simp add: c2_def stopped_def)
  have 2: "rstep env c1 = Some (if args = [] then fst (complete_request env c2) else c2)"
    using s1 Cons.prems(1-3) by (simp add: rstep_def) (simp add: c1_def c2_def)
  have "rruns env (if args = [] then fst (complete_request env c2) else c2) d"
  proof (cases "args = []")
    case True
    then show ?thesis using Cons.prems(6) by (simp add: c2_def)
  next
    case False
    have "rruns env c2 d"
      by (rule Cons.IH) (use Cons.prems s2 False in \<open>simp_all add: c2_def\<close>)
    with False show ?thesis by simp
  qed
  then show ?case using 1 2 rruns.step by metis
qed simp

text \<open>One request, up to the call of \<open>processCommandAndResetClient\<close>.\<close>

lemma request_run:
  assumes s: "\<not> stopped env c" and i: "idle c" and argv: "argv \<noteq> []" "length argv \<le> 1024 * 1024"
    "\<forall>a\<in>set argv. length a \<le> proto_max_bulk_len env \<and> length a \<le> LLONG_MAX"
    and q: "querybuf c = resp_request argv @ r"
    and d: "rruns env (fst (processCommandAndResetClient env
      (c\<lparr>reqtype := Multibulk, querybuf := r, cargv := argv\<rparr>))) d"
  shows "rruns env c d"
proof -
  define c1 where "c1 = c\<lparr>reqtype := Multibulk\<rparr>"
  have q1: "querybuf c = 42 # dec (length argv) @ 13 # 10 # concat (map resp_arg argv) @ r"
    using q by (simp add: resp_request_def)
  have 1: "rstep env c = Some c1" using s i by (simp add: rstep_def q1 c1_def idle_def)
  define c2 where "c2 = c1\<lparr>querybuf := concat (map resp_arg argv) @ r, multibulklen := length argv\<rparr>"
  have "crlf_line (querybuf c1) = Some (42 # dec (length argv), concat (map resp_arg argv) @ r)"
    unfolding c1_def by (simp add: q1 crlf_line_dec)
  moreover have "string2ll (dec (length argv)) = Some (of_nat (length argv))" "sint (of_nat (length argv) :: i64) = int (length argv)"
    using string2ll_dec_small [of "length argv"] sint_of_nat_small [of "length argv"] argv(2) by simp_all
  moreover have "\<not> stopped env c1" "querybuf c1 \<noteq> []" "reqtype c1 = Multibulk" "multibulklen c1 = 0"
    using s i q1 by (simp_all add: c1_def stopped_def idle_def)
  ultimately have 2: "rstep env c1 = Some c2"
    using argv by (simp add: rstep_def c2_def)
  define c3 where "c3 = c\<lparr>reqtype := Multibulk, querybuf := r, cargv := argv\<rparr>"
  have 3: "fst (complete_request env c3) = fst (processCommandAndResetClient env c3)"
    using argv(1) i by (simp add: complete_request_def is_gopher_def c3_def idle_def split: prod.split)
  have c3: "c3 = c2\<lparr>querybuf := r, cargv := cargv c2 @ argv, bulklen := None, multibulklen := 0\<rparr>"
    using i by (simp add: c3_def c2_def c1_def idle_def)
  have s2: "\<not> stopped env c2" using s by (simp add: c2_def c1_def stopped_def)
  have "rruns env c2 d"
    using bulk_args_run [OF s2 argv(3), of r d] argv(1) i d
    by (simp add: c3 [symmetric] 3) (simp add: c2_def c1_def c3_def idle_def)
  then show ?thesis using 1 2 rruns.step by metis
qed

lemma commandProcessed_idle:
  assumes "\<not> (f_blocked (cflags c) \<and> f_blocked_module (cflags c))" "\<not> f_pending_read (cflags c)"
  shows "idle (commandProcessed c)" "cflags (commandProcessed c) = reset_flags (ccmd c) (cflags c)"
  using assms
  by (auto simp: commandProcessed_def pass_on_def Let_def idle_def)

lemma commandProcessed_blocked:
  assumes "f_blocked (cflags c)" "f_blocked_module (cflags c)"
  shows "cflags (commandProcessed c) = cflags c"
  using assms by (simp add: commandProcessed_def pass_on_def Let_def)

lemma commandProcessed_same:
  "executed (commandProcessed c) = executed c" "protocol_errors (commandProcessed c) = protocol_errors c"
  by (simp_all add: commandProcessed_def pass_on_def Let_def)

text \<open>What is left when the loop has halted.\<close>

definition run_result ::
  "server_env \<Rightarrow> bytes list list \<Rightarrow> rclient \<Rightarrow> rclient \<Rightarrow> bool" where
  "run_result env cmds c d \<longleftrightarrow>
     (let n = served env (executed c) (cflags c) cmds
      in executed d = executed c @ take n cmds \<and> protocol_errors d = protocol_errors c \<and>
         (\<not> freed d \<longrightarrow> querybuf d = concat (map resp_request (drop n cmds))))"

lemma rruns_stopped: "stopped env c \<Longrightarrow> rruns env c c"
  by (rule rruns.stop) (simp add: rstep_def Let_def)

lemma requests_run:
  assumes env: "env_ok env" "direct_commands env"
  shows "\<lbrakk>idle c; querybuf c = concat (map resp_request cmds);
      \<forall>argv\<in>set cmds. argv \<noteq> [] \<and> length argv \<le> 1024 * 1024 \<and>
        (\<forall>a\<in>set argv. length a \<le> proto_max_bulk_len env \<and> length a \<le> LLONG_MAX)\<rbrakk> \<Longrightarrow>
    \<exists>d. rruns env c d \<and> run_result env cmds c d"
proof (induction cmds arbitrary: c)
  case Nil
  then have "rruns env c c" by (simp add: rruns.stop rstep_def)
  moreover have "run_result env [] c c" using Nil.prems by (simp add: run_result_def)
  ultimately show ?case by blast
next
  case (Cons argv cmds)
  let ?r = "concat (map resp_request cmds)"
  show ?case
  proof (cases "stopped env c")
    case True
    then have "run_result env (argv # cmds) c c"
      using Cons.prems(2) by (simp add: run_result_def stopped_halted)
    then show ?thesis using rruns_stopped [OF True] by blast
  next
    case False
    then have nh: "\<not> halted env (executed c) (cflags c)" by (simp add: stopped_halted)
    obtain st cls fl where p: "process_command env (executed c) argv (cflags c) = (st, cls, fl)"
      by (cases "process_command env (executed c) argv (cflags c)") auto
    define c3 where "c3 = c\<lparr>reqtype := Multibulk, querybuf := ?r, cargv := argv,
      executed := executed c @ [argv], ccmd := cls, cflags := fl\<rparr>"
    define c4 where "c4 = fst (processCommandAndResetClient env
      (c\<lparr>reqtype := Multibulk, querybuf := ?r, cargv := argv\<rparr>))"
    have c4: "c4 = (case st of CmdOk \<Rightarrow> commandProcessed c3 | CmdErr \<Rightarrow> c3 | CmdFreed \<Rightarrow> freeClient c3)"
      by (simp add: c4_def c3_def processCommandAndResetClient_def p split: status.split)
    have run: "rruns env c d" if "rruns env c4 d" for d
      using request_run [OF False Cons.prems(1), of argv ?r d] Cons.prems(2,3) that by (simp add: c4_def)
    have pr: "\<not> f_pending_read fl"
      using env(2) p Cons.prems(1) unfolding direct_commands_def idle_def by blast
    show ?thesis
    proof (cases st)
      case CmdOk
      then have c4': "c4 = commandProcessed c3" by (simp add: c4)
      show ?thesis
      proof (cases "f_blocked fl \<and> f_blocked_module fl")
        case True
        then have "cflags c4 = fl" using commandProcessed_blocked [of c3] by (simp add: c4' c3_def)
        then have st: "stopped env c4" using True by (simp add: stopped_def)
        have n: "served env h fl cmds = 0" for h
          using True by (cases cmds) (simp_all add: halted_def)
        have "run_result env (argv # cmds) c c4"
          using nh p CmdOk True n by (simp add: run_result_def c4' commandProcessed_same c3_def)
        then show ?thesis using run rruns_stopped [OF st] by blast
      next
        case False
        have i: "idle c4" and fl4: "cflags c4 = reset_flags cls fl"
          using commandProcessed_idle [of c3] False pr by (simp_all add: c4' c3_def)
        have "querybuf c4 = ?r" by (simp add: c4' c3_def)
        then obtain d where d: "rruns env c4 d" "run_result env cmds c4 d"
          using Cons.IH [OF i] Cons.prems(3) by auto
        have "executed c4 = executed c @ [argv]" "protocol_errors c4 = protocol_errors c"
          by (simp_all add: c4' commandProcessed_same c3_def)
        then have "run_result env (argv # cmds) c d"
          using d(2) nh p CmdOk False by (auto simp: run_result_def Let_def fl4)
        then show ?thesis using run d(1) by blast
      qed
    next
      case CmdErr
      then have c4': "c4 = c3" by (simp add: c4)
      have "f_close_after_reply fl \<or> f_close_asap fl" using env(1) p CmdErr unfolding env_ok_def by blast
      then have st: "stopped env c4" by (auto simp: c4' c3_def stopped_def)
      have "run_result env (argv # cmds) c c4"
        using nh p CmdErr by (simp add: run_result_def c4' c3_def)
      then show ?thesis using run rruns_stopped [OF st] by blast
    next
      case CmdFreed
      then have c4': "c4 = freeClient c3" by (simp add: c4)
      have st: "rruns env c4 c4" by (rule rruns.stop) (simp add: c4' rstep_def freeClient_def)
      have "run_result env (argv # cmds) c c4"
        using nh p CmdFreed by (simp add: run_result_def c4' c3_def freeClient_def)
      then show ?thesis using run st by blast
    qed
  qed
qed

section \<open>Parsing in an I/O thread\<close>

definition no_pending :: "rclient \<Rightarrow> bool" where
  "no_pending c \<longleftrightarrow> \<not> f_pending_read (cflags c) \<and> \<not> f_pending_command (cflags c) \<and> \<not> freed c"

definition set_pending :: "rclient \<Rightarrow> rclient" where
  "set_pending c = c\<lparr>cflags := (cflags c)\<lparr>f_pending_read := True\<rparr>\<rparr>"

definition queued :: "rclient \<Rightarrow> rclient" where
  "queued c = c\<lparr>cflags := (cflags c)\<lparr>f_pending_read := True, f_pending_command := True\<rparr>\<rparr>"

text \<open>The states of a client that is served directly, and of one that is parsed by a thread.\<close>

inductive threaded :: "server_env \<Rightarrow> rclient \<Rightarrow> rclient \<Rightarrow> bool" for env where
  same: "no_pending c \<Longrightarrow> threaded env c (set_pending c)"
| ahead: "no_pending c \<Longrightarrow> threaded env (fst (processCommandAndResetClient env c)) (queued c)"

lemma set_pending_simps [simp]:
  "querybuf (set_pending c) = querybuf c" "qb_pos (set_pending c) = qb_pos c" "reqtype (set_pending c) = reqtype c"
  "multibulklen (set_pending c) = multibulklen c" "bulklen (set_pending c) = bulklen c" "cargv (set_pending c) = cargv c"
  "f_slave (cflags (set_pending c)) = f_slave (cflags c)"
  "getClientType (cflags (set_pending c)) = getClientType (cflags c)" "repl_ack_time (set_pending c) = repl_ack_time c"
  "stopped env (set_pending c) = stopped env c" "f_pending_read (cflags (set_pending c))"
  by (simp_all add: set_pending_def stopped_def getClientType_def)

lemma threaded_complete:
  assumes "no_pending c"
  shows "threaded env (fst (complete_request env c)) (fst (complete_request env (set_pending c)))"
proof -
  have g: "gopher_request (set_pending c) = set_pending (gopher_request c)"
    "no_pending (gopher_request c)" "resetClient (set_pending c) = set_pending (resetClient c)"
    "no_pending (resetClient c)"
    using assms
    by (simp_all add: gopher_request_def resetClient_def set_pending_def no_pending_def Let_def reset_flags_def)
  have q: "(set_pending c)\<lparr>cflags := (cflags (set_pending c))\<lparr>f_pending_command := True\<rparr>\<rparr> = queued c"
    by (simp add: set_pending_def queued_def)
  have "is_gopher env (set_pending c) = is_gopher env c" by (simp add: is_gopher_def)
  moreover have "threaded env (fst (processCommandAndResetClient env c)) (queued c)"
    using assms by (rule threaded.ahead)
  moreover have "\<not> f_pending_read (cflags c)" using assms by (simp add: no_pending_def)
  ultimately show ?thesis
    using g q threaded.same
    by (cases "processCommandAndResetClient env c") (simp add: complete_request_def)
qed

lemma set_pending_error: "setProtocolError e (set_pending c) = set_pending (setProtocolError e c)"
  by (cases "cflags c") (simp add: setProtocolError_def set_pending_def)

lemma threaded_error: "no_pending c \<Longrightarrow> threaded env (setProtocolError e c) (setProtocolError e (set_pending c))"
  unfolding set_pending_error
  by (rule threaded.same) (simp add: setProtocolError_def no_pending_def)

text \<open>Updates of the fields that the flags are not part of.\<close>

lemma set_pending_update:
  "(set_pending c)\<lparr>querybuf := b\<rparr> = set_pending (c\<lparr>querybuf := b\<rparr>)"
  "(set_pending c)\<lparr>reqtype := t\<rparr> = set_pending (c\<lparr>reqtype := t\<rparr>)"
  "(set_pending c)\<lparr>repl_ack_time := k\<rparr> = set_pending (c\<lparr>repl_ack_time := k\<rparr>)"
  "(set_pending c)\<lparr>cargv := a\<rparr> = set_pending (c\<lparr>cargv := a\<rparr>)"
  "(set_pending c)\<lparr>multibulklen := n\<rparr> = set_pending (c\<lparr>multibulklen := n\<rparr>)"
  "(set_pending c)\<lparr>bulklen := l\<rparr> = set_pending (c\<lparr>bulklen := l\<rparr>)"
  by (simp_all add: set_pending_def)

lemma no_pending_update [simp]:
  "no_pending (c\<lparr>querybuf := b\<rparr>) = no_pending c" "no_pending (c\<lparr>reqtype := t\<rparr>) = no_pending c"
  "no_pending (c\<lparr>repl_ack_time := k\<rparr>) = no_pending c" "no_pending (c\<lparr>cargv := a\<rparr>) = no_pending c"
  "no_pending (c\<lparr>multibulklen := n\<rparr>) = no_pending c" "no_pending (c\<lparr>bulklen := l\<rparr>) = no_pending c"
  by (simp_all add: no_pending_def)

lemma rel_option_if:
  "\<lbrakk>b \<Longrightarrow> rel_option R x y; \<not> b \<Longrightarrow> rel_option R x' y'\<rbrakk> \<Longrightarrow>
   rel_option R (if b then x else x') (if b then y else y')"
  by simp

lemma rel_option_case:
  "\<lbrakk>m = None \<Longrightarrow> rel_option R x y; \<And>z. m = Some z \<Longrightarrow> rel_option R (f z) (g z)\<rbrakk> \<Longrightarrow>
   rel_option R (case m of None \<Rightarrow> x | Some z \<Rightarrow> f z) (case m of None \<Rightarrow> y | Some z \<Rightarrow> g z)"
  by (cases m) simp_all

lemma rel_option_case_prod:
  "(\<And>a b. p = (a, b) \<Longrightarrow> rel_option R (f a b) (g a b)) \<Longrightarrow>
   rel_option R (case p of (a, b) \<Rightarrow> f a b) (case p of (a, b) \<Rightarrow> g a b)"
  by (cases p) simp

lemma threaded_step:
  assumes "no_pending c"
  shows "rel_option (threaded env) (rstep env c) (rstep env (set_pending c))"
  using assms unfolding rstep_def Let_def set_pending_simps set_pending_update
  by (intro rel_option_if rel_option_case rel_option_case_prod)
    (simp_all add: threaded_error threaded.same threaded_complete)

text \<open>What the main thread makes of the state the I/O thread has left.\<close>

definition resumes :: "server_env \<Rightarrow> rclient \<Rightarrow> rclient \<Rightarrow> bool" where
  "resumes env d' d \<longleftrightarrow>
     (\<exists>c. no_pending c \<and>
        (d' = set_pending c \<and> rruns env c d \<or>
         d' = queued c \<and> rruns env (fst (processCommandAndResetClient env c)) d))"

lemma rruns_threaded:
  "\<lbrakk>rruns env c d; no_pending c\<rbrakk> \<Longrightarrow> \<exists>d'. rruns env (set_pending c) d' \<and> resumes env d' d"
proof (induction rule: rruns.induct)
  case (stop c)
  have "rstep env (set_pending c) = None"
    using threaded_step [OF stop.prems, of env] stop.hyps by (cases "rstep env (set_pending c)") simp_all
  then show ?case using rruns.stop stop by (auto simp: resumes_def)
next
  case (step c c1 c2)
  obtain e where e: "rstep env (set_pending c) = Some e" "threaded env c1 e"
    using threaded_step [OF step.prems, of env] step.hyps(1) by (cases "rstep env (set_pending c)") simp_all
  from e(2) show ?case
  proof cases
    case same
    then show ?thesis using step.IH e(1) rruns.step by blast
  next
    case (ahead b)
    have "held (cflags (queued b))" by (simp add: held_def queued_def)
    then have "rruns env (set_pending c) e" using e(1) ahead rruns.step rruns_held by metis
    moreover have "resumes env e c2" using ahead step.hyps(2) by (auto simp: resumes_def)
    ultimately show ?thesis by blast
  qed
qed

lemma client_ok_set_pending [simp]: "client_ok (set_pending c) = client_ok c"
proof -
  have "rest (set_pending c) = rest c" "stream_ok (set_pending c) = stream_ok c" "freed (set_pending c) = freed c"
    "held (cflags (set_pending c)) = held (cflags c)"
    by (simp_all add: set_pending_def rest_def stream_ok_def held_def)
  then show ?thesis by (simp add: client_ok_def request_ok_def split: reqtype.split)
qed

lemma finish_resumes:
  assumes env: "env_ok env" and d': "client_ok d'" "qb_pos d' = 0" and r: "resumes env d' d"
  shows "finish_pending_read env d' = Some d"
proof -
  obtain c where c: "no_pending c"
    "d' = set_pending c \<and> rruns env c d \<or> d' = queued c \<and> rruns env (fst (processCommandAndResetClient env c)) d"
    using r by (auto simp: resumes_def)
  have cleared: "(set_pending c)\<lparr>cflags := (cflags (set_pending c))\<lparr>f_pending_read := False\<rparr>\<rparr> = c"
    "f_pending_command (cflags (set_pending c)) = False"
    using c(1) by (cases c; cases "cflags c"; simp add: set_pending_def no_pending_def)+
  have cleared2: "(queued c)\<lparr>cflags := (cflags (queued c))\<lparr>f_pending_read := False\<rparr>\<rparr> =
      c\<lparr>cflags := (cflags c)\<lparr>f_pending_command := True\<rparr>\<rparr>"
    "c\<lparr>cflags := (cflags c)\<lparr>f_pending_command := False\<rparr>\<rparr> = c"
    using c(1) by (cases c; cases "cflags c"; simp add: queued_def no_pending_def)+
  have view_run: "processInputBuffer env e = Some d" if "client_ok e" "qb_pos e = 0" "rruns env e d" for e
    using processInputBuffer_runs [OF env that(1)] rruns_deterministic that(2,3) view_id by metis
  from c(2) show ?thesis
  proof (elim disjE conjE)
    assume s: "d' = set_pending c" "rruns env c d"
    have "client_ok c" "qb_pos c = 0"
      using d' s(1) by simp_all
    then show ?thesis
      using view_run s c(1) by (simp add: finish_pending_read_def cleared no_pending_def Let_def)
  next
    assume q: "d' = queued c" "rruns env (fst (processCommandAndResetClient env c)) d"
    obtain e dead where e: "processCommandAndResetClient env c = (e, dead)" by fastforce
    have c0: "qb_pos c = 0" "\<not> freed c" using d' q(1) c(1) by (simp_all add: queued_def no_pending_def)
    moreover have "stream_ok c"
      using d' q(1) c0 by (simp add: client_ok_def queued_def stream_ok_def unread_def)
    ultimately have ok: "client_ok e" "freed e = dead"
      using processCommand_ok [OF env _ _ _ e] by simp_all
    have "view e = e" using view_processCommand [of c env] c0(1) e by (simp add: view_id)
    then have "qb_pos e = 0" by (metis view_simps(2))
    moreover have "d = e" if dead
    proof -
      have "querybuf e = []" using that ok by (simp add: client_ok_def)
      then have "rruns env e e" by (simp add: rruns.stop rstep_def)
      then show ?thesis using q(2) e rruns_deterministic by simp
    qed
    ultimately show ?thesis
      using view_run [OF ok(1)] q e
      by (cases dead) (simp_all add: finish_pending_read_def cleared2 Let_def)
  qed
qed

text \<open>The thread executes nothing.\<close>

lemma complete_request_pending:
  assumes "f_pending_read (cflags c)"
  shows "executed (fst (complete_request env c)) = executed c \<and>
    f_pending_read (cflags (fst (complete_request env c)))"
  using assms by (simp add: complete_request_def gopher_request_def Let_def)

lemma rstep_pending:
  assumes "rstep env c = Some c1" "f_pending_read (cflags c)"
  shows "executed c1 = executed c \<and> f_pending_read (cflags c1)"
proof -
  have "executed (setProtocolError e c) = executed c \<and> f_pending_read (cflags (setProtocolError e c))" for e
    using assms(2) by (simp add: setProtocolError_def)
  then show ?thesis
    using assms by (auto simp: rstep_def Let_def complete_request_pending split: if_splits option.splits)
qed

lemma rruns_pending: "\<lbrakk>rruns env c d; f_pending_read (cflags c)\<rbrakk> \<Longrightarrow> executed d = executed c"
  by (induction rule: rruns.induct) (use rstep_pending in fastforce)+

section \<open>Protocol errors\<close>

lemma rstep_new_error:
  assumes "rstep env c = Some c1" "protocol_errors c1 \<noteq> protocol_errors c"
  shows "\<exists>e. c1 = setProtocolError e c"
  using assms by (auto simp: rstep_def Let_def complete_request_errors split: if_splits option.splits)

lemma rruns_new_error:
  "rruns env c d \<Longrightarrow> protocol_errors d \<noteq> protocol_errors c \<Longrightarrow> f_close_after_reply (cflags d)"
proof (induction rule: rruns.induct)
  case (step c c1 c2)
  show ?case
  proof (cases "protocol_errors c1 = protocol_errors c")
    case True
    then show ?thesis using step by simp
  next
    case False
    then obtain e where e: "c1 = setProtocolError e c" using rstep_new_error step.hyps(1) by blast
    have "held (cflags c1)" unfolding e by (rule held_error)
    then have "c2 = c1" using step.hyps(2) rruns_held rruns_deterministic by blast
    then show ?thesis by (simp add: e)
  qed
qed simp

lemma closing_reads:
  assumes "f_close_after_reply (cflags c)" "qb_pos c = 0" "read_chunks env xs c = Some d"
  shows "executed d = executed c \<and> protocol_errors d = protocol_errors c"
  using assms
proof (induction xs arbitrary: c)
  case (Cons x xs)
  show ?case
  proof (cases "freed c")
    case False
    then obtain c1 where c1: "readQueryFromClient env (Data x) c = Some c1" "read_chunks env xs c1 = Some d"
      using Cons.prems(3) by (auto simp: bind_eq_Some_conv)
    have "input_loop env b = Some b" if "f_close_after_reply (cflags b)" for b
      using that by (subst input_loop.simps) (simp add: stopped_def)
    then have "f_close_after_reply (cflags c1) \<and> qb_pos c1 = 0 \<and> executed c1 = executed c \<and>
        protocol_errors c1 = protocol_errors c"
      using c1(1) Cons.prems(1,2)
      by (auto simp: readQueryFromClient_def postponeClientRead_def processInputBuffer_def freeClientAsync_def
          Let_def split: if_splits)
    then show ?thesis using Cons.IH [of c1] c1(2) by simp
  qed (use Cons.prems in simp)
qed simp

section \<open>Properties\<close>

text \<open>
  C11: \<open>processInputBuffer\<close>, with its positions in the buffer, partial rereads and the reuse of the
  buffer for large arguments, takes the client to the normal form of the reference machine on the
  unread bytes; no assertion fails, and the invariant of the client is kept.
\<close>

theorem processInputBuffer_refines:
  assumes "env_ok env" "client_ok c"
  shows "\<exists>d. processInputBuffer env c = Some d \<and> client_ok d \<and> qb_pos d = 0 \<and>
    rruns env (view c) d \<and> (\<forall>e. rruns env (view c) e \<longrightarrow> e = d)"
proof -
  obtain d where "processInputBuffer env c = Some d" "rruns env (view c) d" "client_ok d" "qb_pos d = 0"
    using processInputBuffer_runs [OF assms] .
  then show ?thesis using rruns_deterministic by blast
qed

definition ex_env :: server_env where
  "ex_env = \<lparr>proto_max_bulk_len = 536870912, client_max_querybuf_len = 1073741824, gopher_enabled = False,
     unixtime = 0, io_threads_reads = False, clients_paused = (\<lambda>_. False), lua_timedout = (\<lambda>_. False),
     process_command = (\<lambda>h argv fl. (CmdOk, OtherCommand, fl))\<rparr>"

definition no_flags :: cflags where
  "no_flags = \<lparr>f_slave = False, f_master = False, f_multi = False, f_blocked = False,
     f_blocked_module = False, f_asking = False, f_caching = False, f_reply_skip = False,
     f_reply_skip_next = False, f_close_after_reply = False, f_close_asap = False,
     f_protocol_error = False, f_pending_read = False, f_pending_command = False, f_monitor = False,
     f_pubsub = False\<rparr>"

definition new_client :: rclient where
  "new_client = \<lparr>querybuf = [], qb_pos = 0, reqtype = NoType, multibulklen = 0, bulklen = None,
     cargv = [], ccmd = OtherCommand, cflags = no_flags, repl_ack_time = 0, reploff = 0,
     read_reploff = 0, pending_querybuf = [], protocol_errors = [], executed = [],
     gopher_requests = [], replicated = [], freed = False\<rparr>"

lemma ex_env_ok: "env_ok ex_env"
  by (simp add: env_ok_def ex_env_def)

lemma ex_env_direct: "\<not> io_threads_reads ex_env"
  by (simp add: ex_env_def)

lemma new_client_ok: "client_ok new_client"
  by (simp add: client_ok_def request_ok_def stream_ok_def new_client_def no_flags_def)

lemma ex_env_direct_commands: "direct_commands ex_env"
  by (simp add: direct_commands_def ex_env_def)

lemma new_client_idle: "idle new_client" "qb_pos new_client = 0" "querybuf new_client = []" "\<not> freed new_client"
  "executed new_client = []" "cflags new_client = no_flags"
  by (simp_all add: idle_def new_client_def no_flags_def)

text \<open>The bytes of \<open>"*1 CRLF $4 CRLF PING CRLF"\<close>.\<close>

definition ping :: bytes where
  "ping = resp_request [ascii ''PING'']"

lemma processInputBuffer_refines_witness:
  "\<exists>d. processInputBuffer ex_env (append_bytes ping new_client) = Some d \<and>
     rruns ex_env (view (append_bytes ping new_client)) d"
  using processInputBuffer_refines [OF ex_env_ok client_ok_append [OF new_client_ok new_client_idle(4), of ping]]
  by blast

text \<open>
  C9: how the network cuts the bytes of a client into reads does not matter: reading them in
  pieces ends in the same state as reading them at once, unless the pieces lead to one of the
  errors that report a line without an end that has grown too long.
\<close>

theorem chunks_irrelevant:
  assumes "env_ok env" "\<not> io_threads_reads env" "client_ok c" "qb_pos c = 0" "xs \<noteq> []"
    "length (querybuf c) + length (concat xs) \<le> client_max_querybuf_len env"
  shows "\<exists>d. read_chunks env xs c = Some d \<and> client_ok d \<and>
    (calm d \<longrightarrow> read_chunks env [concat xs] c = Some d)"
proof -
  note runs = read_chunks_runs [OF assms(1,2,3,4)]
  obtain d where d: "read_chunks env xs c = Some d" "client_ok d" "calm d \<longrightarrow> rruns env (feed (concat xs) c) d"
    using runs [of xs] assms(5,6) by blast
  have "read_chunks env [concat xs] c = Some d" if calm: "calm d"
  proof (cases "freed c")
    case True
    then show ?thesis using d(1) assms(5) by (cases xs) auto
  next
    case False
    obtain e where e: "readQueryFromClient env (Data (concat xs)) c = Some e" "rruns env (feed (concat xs) c) e"
      using read_data [OF assms(1-4) False assms(6)] .
    then show ?thesis using d(3) calm False rruns_deterministic by auto
  qed
  then show ?thesis using d by blast
qed

lemma chunks_irrelevant_witness:
  "\<exists>d. read_chunks ex_env [take 7 ping, drop 7 ping] new_client = Some d \<and> client_ok d \<and>
    (calm d \<longrightarrow> read_chunks ex_env [ping] new_client = Some d)"
proof -
  have "length (querybuf new_client) + length (concat [take 7 ping, drop 7 ping]) \<le> client_max_querybuf_len ex_env"
    by (simp add: new_client_idle ping_def resp_request_def resp_arg_def ascii_def dec_small ex_env_def)
  from chunks_irrelevant [OF ex_env_ok _ new_client_ok new_client_idle(2) _ this]
  show ?thesis by (simp add: ex_env_def)
qed

text \<open>
  C10: well-formed requests that arrive together are parsed to exactly the argument vectors that
  were sent, whatever bytes the arguments hold, and executed in order, each once, up to the first
  point at which the client must wait or go: the clients are paused, or a command blocks the
  client, has it closed (QUIT) or frees it. The requests behind that point stay in the query buffer,
  byte for byte, and no protocol error is reported. What the commands do is arbitrary.
\<close>

theorem requests_executed:
  assumes "env_ok env" "direct_commands env" "\<not> io_threads_reads env" "client_ok c" "qb_pos c = 0"
    "idle c" "querybuf c = []" "\<not> freed c"
    "\<forall>argv\<in>set cmds. argv \<noteq> [] \<and> length argv \<le> 1024 * 1024 \<and>
       (\<forall>a\<in>set argv. length a \<le> proto_max_bulk_len env \<and> length a \<le> LLONG_MAX)"
    "length (concat (map resp_request cmds)) \<le> client_max_querybuf_len env"
    and n: "n = served env (executed c) (cflags c) cmds"
  shows "\<exists>d. readQueryFromClient env (Data (concat (map resp_request cmds))) c = Some d \<and>
    executed d = executed c @ take n cmds \<and> protocol_errors d = protocol_errors c \<and>
    (\<not> freed d \<longrightarrow> querybuf d = concat (map resp_request (drop n cmds)))"
proof -
  let ?x = "concat (map resp_request cmds)"
  obtain d where d: "readQueryFromClient env (Data ?x) c = Some d" "rruns env (feed ?x c) d"
    using read_data [OF assms(1,3,4,5,8), of ?x] assms(7,10) by auto
  have f: "feed ?x c = append_bytes ?x c" using assms(8) by (simp add: feed_def)
  have "idle (append_bytes ?x c)" using assms(6) by (simp add: idle_def)
  from requests_run [OF assms(1,2) this _ assms(9)] obtain e where
    "rruns env (feed ?x c) e" "run_result env cmds (append_bytes ?x c) e"
    using assms(7) f by auto
  then show ?thesis using d rruns_deterministic unfolding run_result_def n by (auto simp: Let_def)
qed

text \<open>A server on which QUIT closes the connection after the reply.\<close>

definition quit_env :: server_env where
  "quit_env = ex_env\<lparr>process_command := (\<lambda>h argv fl.
     if argv = [ascii ''QUIT''] then (CmdErr, OtherCommand, fl\<lparr>f_close_after_reply := True\<rparr>)
     else (CmdOk, OtherCommand, fl))\<rparr>"

lemma requests_executed_witness:
  "\<exists>d. readQueryFromClient quit_env
       (Data (concat (map resp_request [[ascii ''SET'', [0, 13, 10], []], [ascii ''QUIT''], [ascii ''PING'']]))) new_client = Some d \<and>
     executed d = [[ascii ''SET'', [0, 13, 10], []], [ascii ''QUIT'']] \<and> (freed d \<or> querybuf d = ping)"
proof -
  let ?cmds = "[[ascii ''SET'', [0, 13, 10], []], [ascii ''QUIT''], [ascii ''PING'']]"
  have "env_ok quit_env" "direct_commands quit_env" "\<not> io_threads_reads quit_env"
    by (auto simp: env_ok_def direct_commands_def quit_env_def ex_env_def split: if_splits)
  moreover have "\<forall>argv\<in>set ?cmds. argv \<noteq> [] \<and> length argv \<le> 1024 * 1024 \<and>
      (\<forall>a\<in>set argv. length a \<le> proto_max_bulk_len quit_env \<and> length a \<le> LLONG_MAX)"
    "length (concat (map resp_request ?cmds)) \<le> client_max_querybuf_len quit_env"
    by (simp_all add: quit_env_def ex_env_def ascii_def resp_request_def resp_arg_def dec_small)
  moreover have "2 = served quit_env (executed new_client) (cflags new_client) ?cmds"
    by (simp add: new_client_idle(5,6) quit_env_def ex_env_def ascii_def halted_def no_flags_def reset_flags_def)
  ultimately show ?thesis
    using requests_executed [of quit_env new_client ?cmds 2] new_client_ok new_client_idle
    by (auto simp: ping_def)
qed

text \<open>
  C12: reading and parsing in an I/O thread changes nothing: the read is postponed, the thread reads
  the bytes and parses the first request, the main thread executes it and goes on with the buffer;
  the client ends in the state in which processing the bytes directly leaves it.
\<close>

theorem threaded_reads:
  assumes "env_ok env" "io_threads_reads env" "client_ok c" "qb_pos c = 0" "no_pending c"
    "\<not> f_master (cflags c)" "\<not> f_slave (cflags c)"
    "length (querybuf c) + length x \<le> client_max_querybuf_len env"
  shows "\<exists>p q d. readQueryFromClient env (Data x) c = Some p \<and> querybuf p = querybuf c \<and>
    readQueryFromClient env (Data x) p = Some q \<and> executed q = executed c \<and>
    finish_pending_read env q = Some d \<and> processInputBuffer env (append_bytes x c) = Some d"
proof -
  have pc: "\<not> f_pending_read (cflags c)" "\<not> freed c" using assms(5) by (simp_all add: no_pending_def)
  let ?b = "append_bytes x c"
  have p: "readQueryFromClient env (Data x) c = Some (set_pending c)"
    using assms(2,6,7) pc by (simp add: readQueryFromClient_def postponeClientRead_def set_pending_def)
  have sb: "append_bytes x (set_pending c) = set_pending ?b"
    by (simp add: set_pending_def)
  have ok: "client_ok ?b" "no_pending ?b" "qb_pos ?b = 0"
    using client_ok_append [OF assms(3) pc(2)] assms(4,5) by (simp_all add: no_pending_def)
  obtain q where q: "processInputBuffer env (set_pending ?b) = Some q" "rruns env (set_pending ?b) q"
    "client_ok q" "qb_pos q = 0"
    using processInputBuffer_runs [OF assms(1), of "set_pending ?b"] ok by (auto simp: view_id)
  obtain d where d: "processInputBuffer env ?b = Some d" "rruns env ?b d"
    using processInputBuffer_runs [OF assms(1) ok(1)] ok(3) by (auto simp: view_id)
  obtain q' where "rruns env (set_pending ?b) q'" "resumes env q' d"
    using rruns_threaded [OF d(2) ok(2)] by blast
  then have "resumes env q d" using q(2) rruns_deterministic by blast
  then have f: "finish_pending_read env q = Some d" by (rule finish_resumes [OF assms(1) q(3,4)])
  have "executed q = executed (set_pending ?b)" using rruns_pending [OF q(2)] by simp
  then have "executed q = executed c" by (simp add: set_pending_def)
  moreover have "readQueryFromClient env (Data x) (set_pending c) = Some q"
    using assms(8) q(1) sb by (simp add: readQueryFromClient_def postponeClientRead_def Let_def)
  ultimately show ?thesis using p f d(1) by auto
qed

lemma threaded_reads_witness:
  "\<exists>p q d. readQueryFromClient (ex_env\<lparr>io_threads_reads := True\<rparr>) (Data ping) new_client = Some p \<and>
     readQueryFromClient (ex_env\<lparr>io_threads_reads := True\<rparr>) (Data ping) p = Some q \<and> executed q = [] \<and>
     finish_pending_read (ex_env\<lparr>io_threads_reads := True\<rparr>) q = Some d"
proof -
  have "env_ok (ex_env\<lparr>io_threads_reads := True\<rparr>)" by (simp add: env_ok_def ex_env_def)
  moreover have "no_pending new_client" by (simp add: no_pending_def new_client_def no_flags_def)
  moreover have "length (querybuf new_client) + length ping \<le> client_max_querybuf_len (ex_env\<lparr>io_threads_reads := True\<rparr>)"
    by (simp add: new_client_idle ping_def resp_request_def resp_arg_def ascii_def dec_small ex_env_def)
  ultimately show ?thesis
    using threaded_reads [OF _ _ new_client_ok new_client_idle(2), of "ex_env\<lparr>io_threads_reads := True\<rparr>" ping]
      new_client_idle(5,6) by (auto simp: no_flags_def)
qed

text \<open>
  C13: after a protocol error the client is finished: whatever arrives later, nothing more is
  executed and no further error is reported.
\<close>

theorem error_is_final:
  assumes "env_ok env" "client_ok c" "processInputBuffer env c = Some d"
    "protocol_errors d \<noteq> protocol_errors c" "read_chunks env xs d = Some e"
  shows "executed e = executed d \<and> protocol_errors e = protocol_errors d \<and> f_close_after_reply (cflags d)"
proof -
  obtain d' where "processInputBuffer env c = Some d'" "rruns env (view c) d'" "qb_pos d' = 0"
    using processInputBuffer_runs [OF assms(1,2)] .
  then have "f_close_after_reply (cflags d)" "qb_pos d = 0"
    using rruns_new_error [of env "view c" d] assms(3,4) by simp_all
  then show ?thesis using closing_reads assms(5) by blast
qed

text \<open>A request whose count is not a number.\<close>

definition bad_count :: bytes where
  "bad_count = ascii ''*x'' @ [13, 10] @ ping"

lemma error_is_final_witness:
  "\<exists>d e. processInputBuffer ex_env (append_bytes bad_count new_client) = Some d \<and>
     protocol_errors d = [InvalidMbulkCount] \<and> read_chunks ex_env [ping] d = Some e \<and> executed e = []"
proof -
  define c where "c = append_bytes bad_count new_client"
  have ok: "client_ok c" unfolding c_def by (rule client_ok_append [OF new_client_ok new_client_idle(4)])
  have q: "querybuf c = 42 # 120 # 13 # 10 # ping" "reqtype c = NoType" "multibulklen c = 0" "\<not> stopped ex_env c" "qb_pos c = 0"
    "protocol_errors c = []" "executed c = []"
    using new_client_idle
    by (simp_all add: c_def bad_count_def ascii_def stopped_def ex_env_def idle_def no_flags_def new_client_def)
  define c1 where "c1 = c\<lparr>reqtype := Multibulk\<rparr>"
  have 1: "rstep ex_env c = Some c1" using q by (simp add: rstep_def c1_def)
  have "string2ll [120] = None" by code_simp
  moreover have "crlf_line (42 # 120 # 13 # 10 # ping) = Some ([42, 120], ping)" by (simp add: crlf_line_def)
  moreover have "\<not> stopped ex_env c1" "querybuf c1 = 42 # 120 # 13 # 10 # ping" "reqtype c1 = Multibulk"
    "multibulklen c1 = 0"
    using q by (simp_all add: c1_def stopped_def)
  ultimately have 2: "rstep ex_env c1 = Some (setProtocolError InvalidMbulkCount c1)"
    by (simp add: rstep_def)
  have "rruns ex_env c (setProtocolError InvalidMbulkCount c1)"
    using 1 2 rruns_held [OF held_error] by (blast intro: rruns.step)
  then obtain d where d: "processInputBuffer ex_env c = Some d" "client_ok d" "qb_pos d = 0"
    "d = setProtocolError InvalidMbulkCount c1"
    using processInputBuffer_runs [OF ex_env_ok ok] rruns_deterministic view_id [OF q(5)] by metis
  have f: "protocol_errors d = [InvalidMbulkCount]" "executed d = []" "querybuf d = querybuf c"
    using q by (simp_all add: d(4) c1_def setProtocolError_def)
  have "length (querybuf d) + length (concat [ping]) \<le> client_max_querybuf_len ex_env"
    by (simp add: f q ping_def resp_request_def resp_arg_def ascii_def dec_small ex_env_def)
  then obtain e where e: "read_chunks ex_env [ping] d = Some e"
    using read_chunks_runs [OF ex_env_ok _ d(2,3)] ex_env_direct by blast
  have "protocol_errors d \<noteq> protocol_errors c" using f q by simp
  from error_is_final [OF ex_env_ok ok d(1) this e] show ?thesis
    using d(1) e f(1,2) unfolding c_def by auto
qed

end
